(* ===== verification/Prelude.thy ===== *)
theory Prelude
  imports Main "HOL-Library.Word" "HOL-Library.Multiset" "HOL-Library.Sublist"
begin

text \<open>
  Shared vocabulary of the development: the C types the components use, the few functions of
  the C library they call (in the C locale), and generic lemmas on lists, options and words that
  several component theories rely on.  The collections of lemmas that the component proofs pass to
  the simplifier are declared here as well.
\<close>

unbundle bit_operations_syntax

named_theorems cdefs \<open>definitions of the C level helpers that proofs unfold\<close>

section \<open>C types\<close>

text \<open>An unsigned character, a C string without its terminating NUL, and row addresses.\<close>

type_synonym byte = "8 word"
type_synonym cstring = "byte list"
type_synonym addr = nat

text \<open>
  Reading a C string through an index: the terminating NUL sits right behind the characters.
  (Indices beyond the terminator are out of bounds in C; the components show that they are
  never used, or model the access as an error.)
\<close>

definition cchar :: "cstring \<Rightarrow> nat \<Rightarrow> byte" where
  [cdefs]: "cchar s i = (if i < length s then s ! i else 0)"

lemma cchar_nth [simp]: "i < length s \<Longrightarrow> cchar s i = s ! i"
  by (simp add: cchar_def)

lemma cchar_end [simp]: "length s \<le> i \<Longrightarrow> cchar s i = 0"
  by (simp add: cchar_def)

text \<open>\<open>tolower\<close> of the C library, in the C locale.\<close>

definition c_tolower :: "byte \<Rightarrow> byte" where
  [cdefs]: "c_tolower c = (if 65 \<le> c \<and> c \<le> 90 then c + 32 else c)"

lemma unat_byte [simp]: "unat (c :: byte) < 256"
  using unsigned_less [where 'a = nat, of c] by simp

lemma unat_byte_inject [simp]: "unat (c :: byte) = unat d \<longleftrightarrow> c = d"
  by (simp add: word_unat_eq_iff)

text \<open>A fact about every byte is a fact about 256 closed terms, which the kernel can evaluate.\<close>

lemma byte_exhaust: "list_all P (map word_of_nat [0..<256]) \<Longrightarrow> P (c :: byte)"
proof -
  assume all: "list_all P (map word_of_nat [0..<256])"
  have "c = word_of_nat (unat c)" by simp
  moreover have "unat c \<in> {0..<256}" by simp
  ultimately have "c \<in> word_of_nat ` {0..<256}" by (rule image_eqI)
  then show "P c" using all by (auto simp: list_all_iff)
qed

lemma small_byte_exhaust:
  "c < word_of_nat n \<Longrightarrow> n < 256 \<Longrightarrow> list_all P (map word_of_nat [0..<n]) \<Longrightarrow> P (c :: byte)"
proof -
  assume c: "c < word_of_nat n" "n < 256" and all: "list_all P (map word_of_nat [0..<n])"
  have "unat c < n" using c by (simp add: word_less_nat_alt unat_of_nat)
  then have "unat c \<in> {0..<n}" by simp
  moreover have "c = word_of_nat (unat c)" by simp
  ultimately have "c \<in> word_of_nat ` {0..<n}" by (metis image_eqI)
  then show "P c" using all by (auto simp: list_all_iff)
qed

text \<open>\<open>strchr\<close> returns an index; the terminating NUL is part of the searched string.\<close>

fun strchr :: "cstring \<Rightarrow> byte \<Rightarrow> nat option" where
  "strchr [] c = (if c = 0 then Some 0 else None)"
| "strchr (x # xs) c = (if x = c then Some 0 else map_option Suc (strchr xs c))"

lemma strchr_None_iff [simp]: "strchr s c = None \<longleftrightarrow> c \<noteq> 0 \<and> c \<notin> set s"
  by (induction s) auto

text \<open>\<open>isxdigit\<close>, and the value \<open>strtol (_, NULL, 16)\<close> gives to one hexadecimal digit.\<close>

definition c_isxdigit :: "byte \<Rightarrow> bool" where
  [cdefs]: "c_isxdigit c \<longleftrightarrow> (48 \<le> c \<and> c \<le> 57) \<or> (65 \<le> c \<and> c \<le> 70) \<or> (97 \<le> c \<and> c \<le> 102)"

definition hex_value :: "byte \<Rightarrow> byte" where
  [cdefs]: "hex_value c = (if c \<le> 57 then c - 48 else if c \<le> 70 then c - 55 else c - 87)"

text \<open>Byte memory and C strings in it.\<close>

type_synonym memory = "addr \<Rightarrow> byte"

definition holds :: "memory \<Rightarrow> addr \<Rightarrow> byte list \<Rightarrow> bool" where
  "holds m a xs \<longleftrightarrow> (\<forall>k<length xs. m (a + k) = xs ! k)"

lemma holds_Nil [simp]: "holds m a []"
  by (simp add: holds_def)

lemma holds_Cons [simp]: "holds m a (x # xs) \<longleftrightarrow> m a = x \<and> holds m (Suc a) xs"
  by (simp add: holds_def All_less_Suc2)

lemma holds_append [simp]: "holds m a (xs @ ys) \<longleftrightarrow> holds m a xs \<and> holds m (a + length xs) ys"
  by (induction xs arbitrary: a) auto

lemma holds_upd_below [simp]: "b < a \<Longrightarrow> holds (m(b := v)) a xs \<longleftrightarrow> holds m a xs"
  by (auto simp: holds_def)

lemma holds_upd_above [simp]: "a + length xs \<le> b \<Longrightarrow> holds (m(b := v)) a xs \<longleftrightarrow> holds m a xs"
  by (auto simp: holds_def)

partial_function (option) c_strlen :: "memory \<Rightarrow> addr \<Rightarrow> nat option" where
  "c_strlen m p = (if m p = 0 then Some 0 else Option.bind (c_strlen m (p + 1)) (\<lambda>n. Some (Suc n)))"

lemma c_strlen_holds:
  "holds m p s \<Longrightarrow> 0 \<notin> set s \<Longrightarrow> m (p + length s) = 0 \<Longrightarrow> c_strlen m p = Some (length s)"
proof (induction s arbitrary: p)
  case Nil
  then show ?case by (simp add: c_strlen.simps)
next
  case (Cons x xs)
  then show ?case by (simp add: c_strlen.simps [of m p])
qed

section \<open>Lists\<close>

lemma nth_take_drop [simp]:
  "k < n \<Longrightarrow> i + n \<le> length xs \<Longrightarrow> take n (drop i xs) ! k = xs ! (i + k)"
  by simp

lemma take_drop_eq_iff:
  assumes "i + n \<le> length xs" "j + n \<le> length ys"
  shows "take n (drop i xs) = take n (drop j ys) \<longleftrightarrow> (\<forall>k<n. xs ! (i + k) = ys ! (j + k))"
  using assms by (auto simp: list_eq_iff_nth_eq)

lemma fold_length_update [simp]:
  "length (fold (\<lambda>a ys. ys[f a := g a]) as xs) = length xs"
  by (induction as arbitrary: xs) auto

text \<open>A loop that writes every slot \<open>f a\<close> once, at distinct positions.\<close>

lemma fold_update_notin:
  "i \<notin> f ` set as \<Longrightarrow> fold (\<lambda>a ys. ys[f a := g a]) as xs ! i = xs ! i"
  by (induction as arbitrary: xs) auto

lemma fold_update_nth:
  "\<lbrakk>a \<in> set as; distinct (map f as); f a < length xs\<rbrakk>
    \<Longrightarrow> fold (\<lambda>a ys. ys[f a := g a]) as xs ! f a = g a"
proof (induction as arbitrary: xs)
  case Nil
  then show ?case by simp
next
  case (Cons b bs)
  show ?case
  proof (cases "a = b")
    case True
    then show ?thesis using Cons.prems by (simp add: fold_update_notin)
  next
    case False
    then show ?thesis using Cons by simp
  qed
qed

section \<open>Linked structures\<close>

text \<open>
  Address 0 is \<^verbatim>\<open>NULL\<close>.  \<open>chain nxt p ps\<close>: following \<open>nxt\<close> from \<open>p\<close> visits exactly the cells
  \<open>ps\<close> and ends at \<^verbatim>\<open>NULL\<close>.
\<close>

fun chain :: "(addr \<Rightarrow> addr) \<Rightarrow> addr \<Rightarrow> addr list \<Rightarrow> bool" where
  "chain nxt p [] \<longleftrightarrow> p = 0"
| "chain nxt p (q # qs) \<longleftrightarrow> p = q \<and> q \<noteq> 0 \<and> chain nxt (nxt q) qs"

declare chain.simps(2) [simp del]

lemma chain_Cons [simp]: "chain nxt p (q # qs) \<longleftrightarrow> p = q \<and> q \<noteq> 0 \<and> chain nxt (nxt q) qs"
  by (rule chain.simps(2))

lemma chain_upd [simp]: "a \<notin> set ps \<Longrightarrow> chain (nxt(a := b)) p ps = chain nxt p ps"
  by (induction ps arbitrary: p) auto

lemma chain_first: "chain nxt p ps \<Longrightarrow> p = hd (ps @ [0])"
  by (cases ps) auto

lemma chain_not_null: "chain nxt p ps \<Longrightarrow> 0 \<notin> set ps"
  by (induction ps arbitrary: p) auto

lemma chain_null [simp]: "chain nxt 0 ps \<longleftrightarrow> ps = []"
  by (cases ps) auto

lemma chain_unique: "chain nxt p ps \<Longrightarrow> chain nxt p qs \<Longrightarrow> ps = qs"
proof (induction ps arbitrary: p qs)
  case (Cons a ps)
  then show ?case by (cases qs) auto
qed auto

lemma chain_cong: "(\<And>q. q \<in> set ps \<Longrightarrow> nxt q = nxt' q) \<Longrightarrow> chain nxt p ps = chain nxt' p ps"
  by (induction ps arbitrary: p) auto

text \<open>Taking a cell out of the middle of a chain.\<close>

lemma chain_unlink:
  "\<lbrakk>chain nxt p (xs @ a # b # ys); distinct (xs @ a # b # ys)\<rbrakk>
    \<Longrightarrow> chain (nxt(a := nxt b)) p (xs @ a # ys)"
  by (induction xs arbitrary: p) auto

lemma chain_next: "chain nxt p (xs @ a # b # ys) \<Longrightarrow> nxt a = b"
  by (induction xs arbitrary: p) auto

lemma chain_tail: "chain nxt p (xs @ a # ys) \<Longrightarrow> chain nxt (nxt a) ys"
  by (induction xs arbitrary: p) auto

lemma chain_suffix: "chain nxt p (xs @ ys) \<Longrightarrow> chain nxt (if xs = [] then p else nxt (last xs)) ys"
  by (induction xs arbitrary: p) (auto split: if_splits)

text \<open>Linking a cell in and out of a chain that hangs off a header cell.\<close>

lemma chain_link:
  "\<lbrakk>chain nxt (nxt h0) (xs @ ys); distinct (h0 # xs @ ys); new \<notin> set (h0 # xs @ ys); new \<noteq> 0; q = last (h0 # xs)\<rbrakk>
    \<Longrightarrow> chain (nxt(new := nxt q, q := new)) ((nxt(new := nxt q, q := new)) h0) (xs @ new # ys)"
proof (induction xs arbitrary: h0)
  case (Cons x xs)
  then have "chain (nxt(new := nxt q, q := new)) ((nxt(new := nxt q, q := new)) x) (xs @ new # ys)"
    by (intro Cons.IH) auto
  moreover have "(nxt(new := nxt q, q := new)) h0 = x" "x \<noteq> 0" using Cons.prems by auto
  ultimately show ?case by (simp del: fun_upd_apply)
qed auto

lemma chain_unlink_header:
  "\<lbrakk>chain nxt (nxt h0) (xs @ a # ys); distinct (h0 # xs @ a # ys); q = last (h0 # xs)\<rbrakk>
    \<Longrightarrow> chain (nxt(q := nxt a)) ((nxt(q := nxt a)) h0) (xs @ ys)"
proof (induction xs arbitrary: h0)
  case (Cons x xs)
  then have "chain (nxt(q := nxt a)) ((nxt(q := nxt a)) x) (xs @ ys)"
    by (intro Cons.IH) auto
  moreover have "(nxt(q := nxt a)) h0 = x" "x \<noteq> 0" using Cons.prems by auto
  ultimately show ?case by (simp del: fun_upd_apply)
qed auto

lemma chain_last: "chain nxt (nxt h0) (xs @ ys) \<Longrightarrow> chain nxt (nxt (last (h0 # xs))) ys"
  by (induction xs arbitrary: h0) auto

lemma distinct_subset_length: "distinct xs \<Longrightarrow> set xs \<subseteq> set ys \<Longrightarrow> length xs \<le> length ys"
  by (metis card_length card_mono distinct_card finite_set le_trans)

text \<open>A property that the elements of a sorted list lose at some point and never regain.\<close>

lemma sorted_takeWhile_filter:
  assumes "sorted_wrt R xs" "\<And>x y. x \<in> set xs \<Longrightarrow> R x y \<Longrightarrow> P y \<Longrightarrow> P x"
  shows "takeWhile P xs = filter P xs \<and> dropWhile P xs = filter (\<lambda>x. \<not> P x) xs"
  using assms
proof (induction xs)
  case (Cons x xs)
  show ?case
  proof (cases "P x")
    case True
    then show ?thesis using Cons by auto
  next
    case False
    then have "\<not> P y" if "y \<in> set xs" for y using Cons.prems that by auto
    then show ?thesis using False by (auto simp: filter_empty_conv filter_id_conv)
  qed
qed simp

lemma sorted_filter_partition:
  assumes "sorted_wrt R xs" "\<And>x y. x \<in> set xs \<Longrightarrow> R x y \<Longrightarrow> P y \<Longrightarrow> P x"
  shows "filter P xs @ filter (\<lambda>x. \<not> P x) xs = xs"
proof -
  have e: "takeWhile P xs = filter P xs" "dropWhile P xs = filter (\<lambda>x. \<not> P x) xs"
    using sorted_takeWhile_filter [of R xs P] assms by blast+
  show ?thesis unfolding e [symmetric] by simp
qed

lemma subseq_subset: "subseq xs ys \<Longrightarrow> set xs \<subseteq> set ys"
  by (induction rule: list_emb.induct) auto

lemma subseq_distinct: "subseq xs ys \<Longrightarrow> distinct ys \<Longrightarrow> distinct xs"
  by (induction rule: list_emb.induct) (auto dest: subseq_subset)

lemma subseq_sorted_wrt: "subseq xs ys \<Longrightarrow> sorted_wrt R ys \<Longrightarrow> sorted_wrt R xs"
  by (induction rule: list_emb.induct) (auto dest: subseq_subset)

text \<open>Replacing one list of a list of lists.\<close>

lemma mset_concat_update:
  "i < length xss \<Longrightarrow> mset (concat (xss[i := ys])) + mset (xss ! i) = mset (concat xss) + mset ys"
proof (induction xss arbitrary: i)
  case (Cons xs xss)
  then show ?case by (cases i) (auto simp: ac_simps)
qed simp

lemma mset_concat_push:
  "i < length xss \<Longrightarrow> mset (concat (xss[i := x # xss ! i])) = add_mset x (mset (concat xss))"
  using mset_concat_update [of i xss "x # xss ! i"] by simp

lemma distinct_concat_nth:
  assumes "distinct (concat xss)" "i < length xss" "j < length xss" "i \<noteq> j"
  shows "set (xss ! i) \<inter> set (xss ! j) = {}"
  using assms
proof (induction xss arbitrary: i j)
  case (Cons xs xss)
  have "set (xss ! k) \<subseteq> set (concat xss)" if "k < length xss" for k
    using that by (auto intro: nth_mem)
  then show ?case using Cons
    by (cases i; cases j) (auto, blast+)
qed simp

lemma distinct_concat_member:
  "distinct (concat xss) \<Longrightarrow> i < length xss \<Longrightarrow> distinct (xss ! i)"
  by (induction xss arbitrary: i) (auto simp: nth_Cons split: nat.splits)

lemma set_nth_concat: "i < length xss \<Longrightarrow> set (xss ! i) \<subseteq> set (concat xss)"
  by (auto intro!: bexI [OF _ nth_mem])

lemma in_concat_nth: "x \<in> set (concat xss) \<Longrightarrow> \<exists>i<length xss. x \<in> set (xss ! i)"
  by (auto simp: in_set_conv_nth) (metis nth_mem)

lemma find_SomeD: "find P xs = Some x \<Longrightarrow> x \<in> set xs \<and> P x"
  by (auto simp: find_Some_iff)

section \<open>Comparison functions\<close>

text \<open>A C comparison function, and what the sort and the skip lists rely on: it is a total preorder.\<close>

type_synonym 'a cmp_t = "'a \<Rightarrow> 'a \<Rightarrow> int"

locale comparator =
  fixes cmp :: "'a cmp_t"
  assumes anti: "cmp a b > 0 \<longleftrightarrow> cmp b a < 0"
    and trans: "cmp a b \<le> 0 \<Longrightarrow> cmp b c \<le> 0 \<Longrightarrow> cmp a c \<le> 0"
begin

lemma total: "cmp a b > 0 \<Longrightarrow> cmp b a \<le> 0"
  using anti [of a b] by simp

lemma le_refl [simp]: "cmp a a = 0"
  using anti [of a a] by linarith

lemma eq_sym: "cmp a b = 0 \<Longrightarrow> cmp b a = 0"
  using anti [of a b] anti [of b a] by linarith

lemma less_trans: "cmp a b < 0 \<Longrightarrow> cmp b c \<le> 0 \<Longrightarrow> cmp a c < 0"
  using trans [of b c a] anti [of c a] anti [of b a] by force

lemma less_trans': "cmp a b \<le> 0 \<Longrightarrow> cmp b c < 0 \<Longrightarrow> cmp a c < 0"
  using trans [of c a b] anti [of c a] anti [of c b] by force

lemma eq_trans:
  assumes "cmp a b = 0" "cmp b c = 0"
  shows "cmp a c = 0"
proof -
  have "cmp a c \<le> 0" using assms trans [of a b c] by simp
  moreover have "cmp c a \<le> 0" using assms trans [of c b a] by (simp add: eq_sym)
  ultimately show ?thesis using anti [of c a] by linarith
qed

lemma eq_less: "cmp a b = 0 \<Longrightarrow> cmp a c < 0 \<longleftrightarrow> cmp b c < 0"
  using less_trans' [of a b c] less_trans' [of b a c] eq_sym [of a b] by auto

lemma eq_less': "cmp a b = 0 \<Longrightarrow> cmp c a < 0 \<longleftrightarrow> cmp c b < 0"
  using less_trans [of c a b] less_trans [of c b a] eq_sym [of a b] by auto

end

end
