(* ===== verification/BoyerMoore.thy ===== *)
theory BoyerMoore
  imports Prelude
begin

text \<open>
  \<^verbatim>\<open>ctables/boyer_moore.c\<close>: the string matcher behind unanchored \<^verbatim>\<open>match\<close> searches
  (\<^verbatim>\<open>*needle*\<close>).  The C arrays are lists, \<^verbatim>\<open>occ\<close> and \<^verbatim>\<open>skip\<close> hold C ints.  The scan returns a
  position, NULL, or an out-of-bounds read (which the code performs for an empty needle); the outer
  loop is a partial function, so that termination is a theorem and not a modelling assumption.
\<close>

section \<open>The match structure and its preparation\<close>

text \<open>\<^verbatim>\<open>struct ctableSearchMatchStruct\<close>, the Boyer-Moore part.\<close>

record bm_match =
  bm_skip :: "int list"
  bm_needle :: cstring
  bm_occ :: "int list"
  bm_nlen :: nat

definition boyermoore_needlematch :: "cstring \<Rightarrow> nat \<Rightarrow> nat \<Rightarrow> nat \<Rightarrow> bool" where
  "boyermoore_needlematch needle nlen portion offset =
     (let vb = int nlen - int offset - int portion;
          ignore = (if vb < 0 then nat (- vb) else 0);
          virtual_begin = (if vb < 0 then 0 else nat vb)
      in if virtual_begin > 0 \<and> needle ! (virtual_begin - 1) = needle ! (nlen - portion - 1)
         then False
         else take (portion - ignore) (drop (nlen - portion + ignore) needle)
              = take (portion - ignore) (drop virtual_begin needle))"

text \<open>One round of the loop that copies the needle and fills \<^verbatim>\<open>occ\<close>.\<close>

definition bm_setup_char :: "cstring \<Rightarrow> bool \<Rightarrow> nat \<Rightarrow> cstring \<times> int list \<Rightarrow> cstring \<times> int list" where
  "bm_setup_char needle nocase a s =
     (let c = (if nocase then c_tolower (needle ! a) else needle ! a)
      in ((fst s)[a := c], if a < length needle - 1 then (snd s)[unat c := int a] else snd s))"

text \<open>The inner loop that looks for the good-suffix shift.\<close>

function bm_skip_value :: "cstring \<Rightarrow> nat \<Rightarrow> nat \<Rightarrow> nat \<Rightarrow> nat" where
  "bm_skip_value needle nlen a v =
     (if v < nlen \<and> \<not> boyermoore_needlematch needle nlen a v
      then bm_skip_value needle nlen a (Suc v) else v)"
  by pat_completeness auto
termination
  by (relation "measure (\<lambda>(needle, nlen, a, v). nlen - v)") auto

declare bm_skip_value.simps [simp del]

definition boyer_moore_setup :: "cstring \<Rightarrow> bool \<Rightarrow> bm_match" where
  "boyer_moore_setup needle nocase =
     (let nlen = length needle;
          s = fold (bm_setup_char needle nocase) [0..<nlen] (replicate nlen 0, replicate 256 (-1));
          skip = fold (\<lambda>a sk. sk[nlen - a - 1 := int (bm_skip_value (fst s) nlen a 0)])
                   [0..<nlen] (replicate nlen 0)
      in \<lparr>bm_skip = skip, bm_needle = fst s, bm_occ = snd s, bm_nlen = nlen\<rparr>)"

section \<open>The search loops\<close>

datatype bm_result = BM_At nat | BM_NULL | BM_OutOfBounds

text \<open>
  The inner loop compares backwards from \<^verbatim>\<open>npos\<close>; \<open>None\<close> means that position 0 was reached
  with every character equal, \<open>Some npos\<close> is the position of the mismatch.
\<close>

fun bm_mismatch :: "bm_match \<Rightarrow> cstring \<Rightarrow> bool \<Rightarrow> nat \<Rightarrow> nat \<Rightarrow> nat option" where
  "bm_mismatch bm hay nocase hpos npos =
     (if (\<not> nocase \<and> bm_needle bm ! npos = hay ! (npos + hpos)) \<or>
         (nocase \<and> bm_needle bm ! npos = c_tolower (hay ! (npos + hpos)))
      then (case npos of 0 \<Rightarrow> None | Suc n \<Rightarrow> bm_mismatch bm hay nocase hpos n)
      else Some npos)"

declare bm_mismatch.simps [simp del]

text \<open>\<^verbatim>\<open>hpos\<close> is an \<^verbatim>\<open>unsigned\<close>: the update wraps at 32 bits.\<close>

partial_function (option) bm_scan :: "bm_match \<Rightarrow> cstring \<Rightarrow> bool \<Rightarrow> nat \<Rightarrow> bm_result option" where
  "bm_scan bm hay nocase hpos =
     (if hpos \<le> length hay - bm_nlen bm
      then (case bm_mismatch bm hay nocase hpos (bm_nlen bm - 1) of
              None \<Rightarrow> Some (BM_At hpos)
            | Some npos \<Rightarrow>
                (let c = (if \<not> nocase then hay ! (npos + hpos) else c_tolower (hay ! (npos + hpos)));
                     shift = max (bm_skip bm ! npos) (int npos - bm_occ bm ! unat c)
                 in bm_scan bm hay nocase (nat ((int hpos + shift) mod 2 ^ 32))))
      else Some BM_NULL)"

definition boyer_moore_search :: "bm_match \<Rightarrow> cstring \<Rightarrow> bool \<Rightarrow> bm_result option" where
  "boyer_moore_search bm hay nocase =
     (if bm_nlen bm > length hay then Some BM_NULL
      else if bm_nlen bm = 0 then Some BM_OutOfBounds
      else bm_scan bm hay nocase 0)"


section \<open>Specification\<close>

text \<open>The haystack as the comparison sees it, and occurrences of a needle in it.\<close>

definition bm_view :: "bool \<Rightarrow> cstring \<Rightarrow> cstring" where
  "bm_view nocase s = (if nocase then map c_tolower s else s)"

definition occurs_at :: "cstring \<Rightarrow> cstring \<Rightarrow> nat \<Rightarrow> bool" where
  "occurs_at nd hay i \<longleftrightarrow> i + length nd \<le> length hay \<and> (\<forall>k<length nd. nd ! k = hay ! (i + k))"

lemma length_bm_view [simp]: "length (bm_view nocase s) = length s"
  by (simp add: bm_view_def)

lemma nth_bm_view [simp]:
  "i < length s \<Longrightarrow> bm_view nocase s ! i = (if nocase then c_tolower (s ! i) else s ! i)"
  by (simp add: bm_view_def)

section \<open>The tables\<close>

lemma bm_setup_char_length [simp]:
  "length (fst (fold (bm_setup_char nd nc) as s)) = length (fst s)"
  "length (snd (fold (bm_setup_char nd nc) as s)) = length (snd s)"
  by (induction as arbitrary: s) (auto simp: bm_setup_char_def Let_def)

lemma bm_setup_char_fst [simp]:
  "a < length nd \<Longrightarrow> fst (bm_setup_char nd nc a s) = (fst s)[a := bm_view nc nd ! a]"
  by (simp add: bm_setup_char_def Let_def)

lemma bm_setup_char_snd [simp]:
  "a < length nd \<Longrightarrow> snd (bm_setup_char nd nc a s) =
     (if a < length nd - 1 then (snd s)[unat (bm_view nc nd ! a) := int a] else snd s)"
  by (simp add: bm_setup_char_def Let_def)

lemma bm_setup_needle:
  assumes "n \<le> length nd" "length (fst s) = length nd"
  shows "take n (fst (fold (bm_setup_char nd nc) [0..<n] s)) = take n (bm_view nc nd)"
  using assms
proof (induction n)
  case 0
  then show ?case by simp
next
  case (Suc n)
  then show ?case
    by (simp add: take_Suc_conv_app_nth del: nth_bm_view)
qed

text \<open>
  \<^verbatim>\<open>occ[c]\<close> bounds the last position of \<open>c\<close> in the needle (the last character left aside): every
  later position holds another character.
\<close>

lemma bm_setup_occ:
  assumes "n \<le> length nd" "length (snd s) = 256"
    and "\<And>c. snd s ! unat (c :: byte) = -1"
  shows "\<forall>j<n. j < length nd - 1 \<longrightarrow> bm_view nc nd ! j = c
           \<longrightarrow> int j \<le> snd (fold (bm_setup_char nd nc) [0..<n] s) ! unat c"
    and "snd (fold (bm_setup_char nd nc) [0..<n] s) ! unat c < int n"
proof -
  have "(\<forall>j<n. j < length nd - 1 \<longrightarrow> bm_view nc nd ! j = c
           \<longrightarrow> int j \<le> snd (fold (bm_setup_char nd nc) [0..<n] s) ! unat c)
      \<and> snd (fold (bm_setup_char nd nc) [0..<n] s) ! unat c < int n"
    using assms(1)
  proof (induction n)
    case 0
    then show ?case using assms(3) by simp
  next
    case (Suc n)
    then show ?case
      using assms(2) by (auto simp: nth_list_update less_Suc_eq simp del: nth_bm_view)
  qed
  then show "\<forall>j<n. j < length nd - 1 \<longrightarrow> bm_view nc nd ! j = c
           \<longrightarrow> int j \<le> snd (fold (bm_setup_char nd nc) [0..<n] s) ! unat c"
    and "snd (fold (bm_setup_char nd nc) [0..<n] s) ! unat c < int n"
    by auto
qed

lemma bm_skip_value_bounds: "v \<le> nlen \<Longrightarrow> v \<le> bm_skip_value nd nlen a v \<and> bm_skip_value nd nlen a v \<le> nlen"
proof (induction nd nlen a v rule: bm_skip_value.induct)
  case (1 nd nlen a v)
  then show ?case by (auto simp: bm_skip_value.simps [of nd nlen a v])
qed

lemma bm_skip_value_least:
  "\<lbrakk>v \<le> u; u < bm_skip_value nd nlen a v\<rbrakk> \<Longrightarrow> \<not> boyermoore_needlematch nd nlen a u"
proof (induction nd nlen a v rule: bm_skip_value.induct)
  case (1 nd nlen a v)
  show ?case
  proof (cases "v < nlen \<and> \<not> boyermoore_needlematch nd nlen a v")
    case True
    with "1.prems" have "u < bm_skip_value nd nlen a (Suc v)"
      by (simp add: bm_skip_value.simps [of nd nlen a v])
    with "1.IH" "1.prems" True show ?thesis
      by (cases "u = v") auto
  next
    case False
    with "1.prems" show ?thesis
      by (auto simp: bm_skip_value.simps [of nd nlen a v] split: if_splits)
  qed
qed

text \<open>A shift by zero never counts as a match, so every skip is positive.\<close>

lemma needlematch_zero: "a < nlen \<Longrightarrow> \<not> boyermoore_needlematch nd nlen a 0"
  by (auto simp: boyermoore_needlematch_def Let_def nat_diff_distrib)

lemma bm_skip_value_pos:
  assumes "a < nlen"
  shows "0 < bm_skip_value nd nlen a 0"
proof -
  have "bm_skip_value nd nlen a 0 = bm_skip_value nd nlen a 1"
    using assms needlematch_zero [OF assms, of nd] by (subst bm_skip_value.simps) simp
  with bm_skip_value_bounds [of 1 nlen nd a] assms show ?thesis by simp
qed

text \<open>What the search needs of a prepared structure.\<close>

definition bm_tables :: "cstring \<Rightarrow> bm_match \<Rightarrow> bool" where
  "bm_tables nd bm \<longleftrightarrow>
     bm_needle bm = nd \<and> bm_nlen bm = length nd
   \<and> (\<forall>p<length nd. \<exists>v. bm_skip bm ! p = int v \<and> 0 < v \<and> v \<le> length nd
        \<and> (\<forall>u<v. \<not> boyermoore_needlematch nd (length nd) (length nd - 1 - p) u))
   \<and> (\<forall>c j. j < length nd - 1 \<longrightarrow> nd ! j = c \<longrightarrow> int j \<le> bm_occ bm ! unat c)
   \<and> (\<forall>c. bm_occ bm ! unat (c :: byte) \<ge> -1)"

lemma bm_setup_occ_ge:
  assumes "\<And>c. snd s ! unat (c :: byte) \<ge> -1" "length (snd s) = 256"
  shows "snd (fold (bm_setup_char nd nc) as s) ! unat (c :: byte) \<ge> -1"
  using assms
proof (induction as arbitrary: s)
  case Nil
  then show ?case by simp
next
  case (Cons a as)
  have "- 1 \<le> snd (bm_setup_char nd nc a s) ! unat (d :: byte)" for d
    using Cons.prems by (auto simp: bm_setup_char_def Let_def nth_list_update)
  moreover have "length (snd (bm_setup_char nd nc a s)) = 256"
    using Cons.prems by (simp add: bm_setup_char_def Let_def)
  ultimately have "- 1 \<le> snd (fold (bm_setup_char nd nc) as (bm_setup_char nd nc a s)) ! unat c"
    by (rule Cons.IH)
  then show ?case by simp
qed

lemma bm_setup_tables: "bm_tables (bm_view nc nd) (boyer_moore_setup nd nc)"
proof -
  let ?n = "length nd"
  define s where "s = fold (bm_setup_char nd nc) [0..<?n] (replicate ?n 0, replicate 256 (-1))"
  define sk where "sk = fold (\<lambda>a k. k[?n - a - 1 := int (bm_skip_value (fst s) ?n a 0)])
                          [0..<?n] (replicate ?n 0)"
  have bm: "boyer_moore_setup nd nc = \<lparr>bm_skip = sk, bm_needle = fst s, bm_occ = snd s, bm_nlen = ?n\<rparr>"
    by (simp add: boyer_moore_setup_def s_def sk_def Let_def)
  have rep: "replicate 256 (- 1 :: int) ! unat (c :: byte) = -1" for c
    by simp
  have nd: "fst s = bm_view nc nd"
    using bm_setup_needle [of ?n nd "(replicate ?n 0, replicate 256 (-1))" nc]
    by (simp add: s_def)
  have occ: "int j \<le> snd s ! unat c" if "j < ?n - 1" "bm_view nc nd ! j = c" for j c
    using bm_setup_occ(1) [of ?n nd "(replicate ?n 0, replicate 256 (-1))" nc c] that rep
    by (simp add: s_def)
  have ge: "snd s ! unat (c :: byte) \<ge> -1" for c
    unfolding s_def by (rule bm_setup_occ_ge) (use rep in simp_all)
  have skp: "sk ! p = int (bm_skip_value (fst s) ?n (?n - 1 - p) 0)" if "p < ?n" for p
  proof -
    let ?f = "\<lambda>a. ?n - a - 1"
    have eq: "?f (?n - 1 - p) = p" using that by simp
    have "inj_on ?f {0..<?n}" by (auto simp: inj_on_def)
    then have "distinct (map ?f [0..<?n])" by (simp add: distinct_map)
    then have "fold (\<lambda>a k. k[?f a := int (bm_skip_value (fst s) ?n a 0)]) [0..<?n] (replicate ?n 0)
                 ! ?f (?n - 1 - p) = int (bm_skip_value (fst s) ?n (?n - 1 - p) 0)"
      using that by (intro fold_update_nth) auto
    then show ?thesis using eq by (simp add: sk_def)
  qed
  have "\<exists>v. sk ! p = int v \<and> 0 < v \<and> v \<le> ?n
          \<and> (\<forall>u<v. \<not> boyermoore_needlematch (fst s) ?n (?n - 1 - p) u)" if "p < ?n" for p
    using that skp [OF that] bm_skip_value_pos [of "?n - 1 - p" ?n "fst s"]
      bm_skip_value_bounds [of 0 ?n "fst s" "?n - 1 - p"]
      bm_skip_value_least [of 0 _ "fst s" ?n "?n - 1 - p"]
    by (intro exI [of _ "bm_skip_value (fst s) ?n (?n - 1 - p) 0"]) auto
  then show ?thesis
    using occ ge by (auto simp: bm_tables_def bm nd)
qed


section \<open>Shifts skip no occurrence\<close>

lemma bm_mismatch_Some:
  assumes "bm_mismatch bm hay nc hpos npos = Some p" "npos + hpos < length hay"
  shows "p \<le> npos \<and> bm_needle bm ! p \<noteq> bm_view nc hay ! (p + hpos)
       \<and> (\<forall>k. p < k \<and> k \<le> npos \<longrightarrow> bm_needle bm ! k = bm_view nc hay ! (k + hpos))"
  using assms
proof (induction npos)
  case 0
  then show ?case by (auto simp: bm_mismatch.simps split: if_splits)
next
  case (Suc n)
  show ?case
  proof (cases "bm_needle bm ! Suc n = bm_view nc hay ! (Suc n + hpos)")
    case True
    then have "bm_mismatch bm hay nc hpos n = Some p"
      using Suc.prems by (auto simp: bm_mismatch.simps [of bm hay nc hpos "Suc n"] split: if_splits)
    then show ?thesis using Suc True by (auto simp: le_Suc_eq)
  next
    case False
    then have "p = Suc n"
      using Suc.prems by (auto simp: bm_mismatch.simps [of bm hay nc hpos "Suc n"] split: if_splits)
    then show ?thesis using False by auto
  qed
qed

lemma bm_mismatch_None:
  assumes "bm_mismatch bm hay nc hpos npos = None" "npos + hpos < length hay"
  shows "\<forall>k\<le>npos. bm_needle bm ! k = bm_view nc hay ! (k + hpos)"
  using assms
proof (induction npos)
  case 0
  then show ?case by (auto simp: bm_mismatch.simps split: if_splits)
next
  case (Suc n)
  from Suc.prems have eq: "bm_needle bm ! Suc n = bm_view nc hay ! (Suc n + hpos)"
    and "bm_mismatch bm hay nc hpos n = None"
    by (auto simp: bm_mismatch.simps [of bm hay nc hpos "Suc n"] split: if_splits)
  with Suc show ?case by (auto simp: le_Suc_eq)
qed

lemma needlematch_inside:
  assumes "s + m \<le> n"
  shows "boyermoore_needlematch nd n m s \<longleftrightarrow>
           \<not> (n - s - m > 0 \<and> nd ! (n - s - m - 1) = nd ! (n - m - 1))
         \<and> take m (drop (n - m) nd) = take m (drop (n - s - m) nd)"
proof -
  have vb: "nat (int n - int s - int m) = n - s - m" "(int n - int s - int m < 0) = False"
    using assms by simp_all
  show ?thesis
    unfolding boyermoore_needlematch_def Let_def vb if_False by auto
qed

lemma needlematch_beyond:
  assumes "n < s + m"
  shows "boyermoore_needlematch nd n m s \<longleftrightarrow>
           take (m - (s + m - n)) (drop (n - m + (s + m - n)) nd) = take (m - (s + m - n)) nd"
proof -
  have vb: "nat (- (int n - int s - int m)) = s + m - n" "(int n - int s - int m < 0) = True"
    using assms by simp_all
  show ?thesis
    unfolding boyermoore_needlematch_def Let_def vb if_True by simp
qed

text \<open>The good-suffix rule: an occurrence at distance \<open>s\<close> makes \<open>s\<close> a needle match.\<close>

lemma occurs_needlematch:
  assumes suff: "\<And>k. p < k \<Longrightarrow> k < length nd \<Longrightarrow> nd ! k = H ! (hpos + k)"
    and mis: "nd ! p \<noteq> H ! (hpos + p)"
    and p: "p < length nd"
    and occ: "occurs_at nd H (hpos + s)"
    and s: "0 < s" "s < length nd"
  shows "boyermoore_needlematch nd (length nd) (length nd - 1 - p) s"
proof -
  let ?n = "length nd" and ?m = "length nd - 1 - p"
  have at: "nd ! k = H ! (hpos + s + k)" if "k < ?n" for k
    using occ that by (simp add: occurs_at_def)
  show ?thesis
  proof (cases "s \<le> p + 1")
    case True
    let ?vb = "p + 1 - s"
    have vb: "?n - s - ?m = ?vb" "s + ?m \<le> ?n" using True p by simp_all
    have prec: "nd ! (?vb - 1) \<noteq> nd ! (?n - ?m - 1)" if "0 < ?vb"
    proof -
      have "nd ! (?vb - 1) = H ! (hpos + s + (?vb - 1))" using p that by (intro at) simp
      also have "hpos + s + (?vb - 1) = hpos + p" using that by simp
      finally show ?thesis using mis p by simp
    qed
    have "take ?m (drop (?n - ?m) nd) = take ?m (drop ?vb nd)"
    proof (subst take_drop_eq_iff)
      show "\<forall>k<?m. nd ! (?n - ?m + k) = nd ! (?vb + k)"
      proof (intro allI impI)
        fix k assume k: "k < ?m"
        have "nd ! (?vb + k) = H ! (hpos + s + (?vb + k))" using p k s True by (intro at) auto
        also have "hpos + s + (?vb + k) = hpos + (p + 1 + k)" using True by simp
        also have "H ! (hpos + (p + 1 + k)) = nd ! (p + 1 + k)"
          using p k by (intro suff [symmetric]) auto
        finally show "nd ! (?n - ?m + k) = nd ! (?vb + k)" using p by simp
      qed
    qed (use p s True in auto)
    with vb prec show ?thesis
      by (simp only: needlematch_inside) blast
  next
    case False
    let ?ig = "s - p - 1"
    have eq: "?n < s + ?m" "s + ?m - ?n = ?ig" "?n - ?m + ?ig = s" using False p by simp_all
    have "take (?m - ?ig) (drop s nd) = take (?m - ?ig) (drop 0 nd)"
    proof (subst take_drop_eq_iff)
      show "\<forall>k<?m - ?ig. nd ! (s + k) = nd ! (0 + k)"
      proof (intro allI impI)
        fix k assume k: "k < ?m - ?ig"
        have "nd ! k = H ! (hpos + s + k)" using k by (intro at) auto
        also have "\<dots> = nd ! (s + k)"
          using suff [of "s + k"] k False by (simp add: add.assoc)
        finally show "nd ! (s + k) = nd ! (0 + k)" by simp
      qed
    qed (use p False s in auto)
    with eq show ?thesis
      by (simp only: needlematch_beyond drop_0)
  qed
qed

text \<open>The bad-character rule.\<close>

lemma occurs_bad_char:
  assumes occ: "occurs_at nd H (hpos + s)" and s: "0 < s" and p: "p < length nd"
    and last: "\<And>j. j < length nd - 1 \<Longrightarrow> nd ! j = H ! (hpos + p) \<Longrightarrow> int j \<le> b"
    and less: "int s < int p - b" and b: "-1 \<le> b"
  shows False
proof -
  let ?j = "p - s"
  have sp: "s \<le> p" using less b by simp
  have "nd ! ?j = H ! (hpos + s + ?j)" using occ p s by (auto simp: occurs_at_def)
  also have "hpos + s + ?j = hpos + p" using sp by simp
  finally have "int ?j \<le> b" using p s sp by (intro last) auto
  with less sp show False by simp
qed

text \<open>
  Together: from a mismatch the scan moves forward, by at most the needle's length, and over
  positions where the needle does not occur.
\<close>

lemma bm_shift_safe:
  assumes tab: "bm_tables nd bm"
    and mis: "bm_mismatch bm hay nc hpos (length nd - 1) = Some p"
    and nd: "nd \<noteq> []" and fits: "hpos + length nd \<le> length hay"
    and c: "c = (if \<not> nc then hay ! (p + hpos) else c_tolower (hay ! (p + hpos)))"
    and sh: "shift = max (bm_skip bm ! p) (int p - bm_occ bm ! unat c)"
  shows "0 < shift" "shift \<le> int (length nd)"
    and "\<And>s. 0 < s \<Longrightarrow> int s < shift \<Longrightarrow> \<not> occurs_at nd (bm_view nc hay) (hpos + s)"
proof -
  let ?H = "bm_view nc hay"
  have needle: "bm_needle bm = nd" using tab by (simp add: bm_tables_def)
  have len: "length nd - 1 + hpos < length hay" "\<And>k. k < length nd \<longleftrightarrow> k \<le> length nd - 1"
    using nd fits by (cases nd, auto)+
  have p: "p < length nd" and neq: "nd ! p \<noteq> ?H ! (hpos + p)"
    and suff: "\<And>k. p < k \<Longrightarrow> k < length nd \<Longrightarrow> nd ! k = ?H ! (hpos + k)"
    using bm_mismatch_Some [OF mis] len needle by (auto simp: add.commute)
  have c': "c = ?H ! (hpos + p)" using c p fits by (auto simp: add.commute)
  obtain v where v: "bm_skip bm ! p = int v" "0 < v" "v \<le> length nd"
    and nm: "\<And>u. u < v \<Longrightarrow> \<not> boyermoore_needlematch nd (length nd) (length nd - 1 - p) u"
    using tab p by (auto simp: bm_tables_def)
  have occ: "\<And>j. j < length nd - 1 \<Longrightarrow> nd ! j = c \<Longrightarrow> int j \<le> bm_occ bm ! unat c"
    and ge: "-1 \<le> bm_occ bm ! unat c"
    using tab by (auto simp: bm_tables_def)
  show "0 < shift" using v sh by simp
  show "shift \<le> int (length nd)" using v sh p ge by simp
  fix s :: nat
  assume s: "0 < s" "int s < shift"
  show "\<not> occurs_at nd ?H (hpos + s)"
  proof
    assume o: "occurs_at nd ?H (hpos + s)"
    show False
    proof (cases "s < v")
      case True
      then have "boyermoore_needlematch nd (length nd) (length nd - 1 - p) s"
        using v s by (intro occurs_needlematch [OF suff neq p o]) auto
      with nm True show False by blast
    next
      case False
      then have "int s < int p - bm_occ bm ! unat c" using s sh v by simp
      then show False
        using occurs_bad_char [OF o s(1) p, of "bm_occ bm ! unat c"] occ ge c' by blast
    qed
  qed
qed

section \<open>Correctness of the search\<close>

text \<open>The specification: try every position from the left.\<close>

definition bm_spec :: "cstring \<Rightarrow> cstring \<Rightarrow> bm_result" where
  "bm_spec nd hay =
     (case find (occurs_at nd hay) [0..<Suc (length hay)] of None \<Rightarrow> BM_NULL | Some i \<Rightarrow> BM_At i)"

lemma bm_spec_NULL: "(\<And>i. \<not> occurs_at nd hay i) \<Longrightarrow> bm_spec nd hay = BM_NULL"
  by (auto simp: bm_spec_def find_Some_iff split: option.splits simp del: upt_Suc)

lemma bm_spec_At:
  assumes "occurs_at nd hay i" "\<And>j. j < i \<Longrightarrow> \<not> occurs_at nd hay j"
  shows "bm_spec nd hay = BM_At i"
proof -
  have "i < Suc (length hay)" using assms(1) by (simp add: occurs_at_def)
  then have "find (occurs_at nd hay) [0..<Suc (length hay)] = Some i"
    using assms unfolding find_Some_iff by (intro exI [of _ i]) (auto simp del: upt_Suc)
  then show ?thesis by (simp add: bm_spec_def del: upt_Suc)
qed

lemma bm_scan_correct:
  assumes tab: "bm_tables nd bm" and nd: "nd \<noteq> []" "length nd \<le> length hay"
    and size: "length hay < 2 ^ 31"
    and none: "\<And>i. i < hpos \<Longrightarrow> \<not> occurs_at nd (bm_view nc hay) i"
    and hpos: "hpos \<le> length hay"
  shows "bm_scan bm hay nc hpos = Some (bm_spec nd (bm_view nc hay))"
  using none hpos
proof (induction "length hay - hpos" arbitrary: hpos rule: less_induct)
  case less
  let ?H = "bm_view nc hay"
  have nlen: "bm_nlen bm = length nd" and needle: "bm_needle bm = nd"
    using tab by (auto simp: bm_tables_def)
  show ?case
  proof (cases "hpos \<le> length hay - length nd")
    case False
    then have "\<not> occurs_at nd ?H i" for i
      using less.prems(1) [of i] nd by (cases "i < hpos") (auto simp: occurs_at_def)
    then show ?thesis using False by (simp add: bm_scan.simps nlen bm_spec_NULL)
  next
    case True
    then have fits: "hpos + length nd \<le> length hay" using nd by simp
    show ?thesis
    proof (cases "bm_mismatch bm hay nc hpos (length nd - 1)")
      case None
      have "\<forall>k\<le>length nd - 1. nd ! k = ?H ! (k + hpos)"
        using bm_mismatch_None [OF None] fits nd(1) needle by (cases nd) auto
      then have "occurs_at nd ?H hpos"
        using fits by (auto simp: occurs_at_def add.commute)
      then have "bm_spec nd ?H = BM_At hpos"
        using less.prems(1) by (rule bm_spec_At)
      then show ?thesis
        using True None by (simp add: bm_scan.simps [of bm hay nc hpos] nlen)
    next
      case (Some p)
      define c where "c = (if \<not> nc then hay ! (p + hpos) else c_tolower (hay ! (p + hpos)))"
      define shift where "shift = max (bm_skip bm ! p) (int p - bm_occ bm ! unat c)"
      note safe = bm_shift_safe [OF tab Some nd(1) fits c_def shift_def]
      have neq: "\<not> occurs_at nd ?H hpos"
      proof -
        have "length nd - 1 + hpos < length hay" using fits nd(1) by (cases nd) auto
        with bm_mismatch_Some [OF Some] nd(1) needle
        have "p < length nd" "nd ! p \<noteq> ?H ! (hpos + p)" by (cases nd, auto simp: add.commute)+
        then show ?thesis unfolding occurs_at_def by blast
      qed
      let ?next = "nat (int hpos + shift)"
      have wrap: "(int hpos + shift) mod 2 ^ 32 = int hpos + shift"
        using safe(1,2) fits size nd by (intro mod_pos_pos_trivial) auto
      have none: "\<not> occurs_at nd ?H i" if "i < ?next" for i
      proof (cases "i \<le> hpos")
        case True
        then show ?thesis using less.prems(1) neq by (cases "i = hpos") auto
      next
        case False
        then obtain s where "i = hpos + s" "0 < s" by (metis less_imp_add_positive not_le)
        then show ?thesis using safe(3) [of s] that safe(1) by auto
      qed
      have "bm_scan bm hay nc ?next = Some (bm_spec nd ?H)"
        using safe(1,2) fits none nd
        by (intro less.hyps) (auto simp: nat_add_distrib nat_less_iff)
      then show ?thesis
        using True Some wrap
        by (simp add: bm_scan.simps [of bm hay nc hpos] nlen Let_def c_def [symmetric]
            shift_def [symmetric])
    qed
  qed
qed

section \<open>Properties\<close>

text \<open>
  C5. Preparing a non-empty needle and scanning a haystack returns exactly the first position at
  which the needle occurs (case folded when \<^verbatim>\<open>nocase\<close> is set), or NULL when it occurs nowhere; in
  particular the scan terminates, for every haystack below \<open>2 ^ 31\<close> bytes.
\<close>

theorem boyer_moore_search_correct:
  assumes "needle \<noteq> []" "length hay < 2 ^ 31"
  shows "boyer_moore_search (boyer_moore_setup needle nocase) hay nocase =
           Some (bm_spec (bm_view nocase needle) (bm_view nocase hay))"
proof -
  let ?nd = "bm_view nocase needle" and ?bm = "boyer_moore_setup needle nocase"
  have tab: "bm_tables ?nd ?bm" by (rule bm_setup_tables)
  then have nlen: "bm_nlen ?bm = length needle" by (simp add: bm_tables_def)
  have nd: "?nd \<noteq> []" using assms(1) by (metis length_0_conv length_bm_view)
  show ?thesis
  proof (cases "length needle \<le> length hay")
    case True
    then have "bm_scan ?bm hay nocase 0 = Some (bm_spec ?nd (bm_view nocase hay))"
      using assms by (intro bm_scan_correct [OF tab nd]) auto
    then show ?thesis
      using True assms(1) nlen by (simp add: boyer_moore_search_def)
  next
    case False
    then have "\<not> occurs_at ?nd (bm_view nocase hay) i" for i by (simp add: occurs_at_def)
    then show ?thesis
      using False nlen by (simp add: boyer_moore_search_def bm_spec_NULL)
  qed
qed

theorem boyer_moore_search_correct_witness:
  "boyer_moore_search (boyer_moore_setup [65, 98] True) [97, 97, 98, 97, 66] True = Some (BM_At 1)"
proof -
  have "bm_spec (bm_view True [65, 98]) (bm_view True [97, 97, 98, 97, 66]) = BM_At 1"
    by code_simp
  then show ?thesis
    using boyer_moore_search_correct [of "[65, 98]" "[97, 97, 98, 97, 66]" True] by simp
qed

text \<open>
  For an empty needle (the pattern \<^verbatim>\<open>**\<close>, which the pattern check classifies as unanchored)
  the search compares \<^verbatim>\<open>needle[-1]\<close> with the haystack: an out-of-bounds read on every haystack.
\<close>

lemma boyer_moore_empty_needle:
  "boyer_moore_search (boyer_moore_setup [] nocase) hay nocase = Some BM_OutOfBounds"
  by (simp add: boyer_moore_search_def boyer_moore_setup_def)

end
