(* ===== verification/QuoteIO.thy ===== *)
theory QuoteIO
  imports Prelude
begin

text \<open>
  \<^verbatim>\<open>ctables/ctable_io.c\<close>: quoting of field values for tab separated output and dequoting on input.
  The quoting loop appends to a growing buffer, as the C code does once the first character that
  needs quoting has been met.  Dequoting runs over byte memory, because the code calls it in place
  (\<^verbatim>\<open>ctable_dequoteString\<close> passes the same address twice): whether a write can destroy a byte that is
  still to be read is part of what is proved.
\<close>

section \<open>Quote types\<close>

datatype quote_type = QUOTE_NONE | QUOTE_URI | QUOTE_STRICT_URI | QUOTE_ESCAPE | QUOTE_STRICT_ESCAPE

definition ctable_quote_names :: "string list" where
  "ctable_quote_names = [''none'', ''uri'', ''escape'', ''strict_uri'', ''strict_escape'']"

definition ctable_quote_types :: "quote_type list" where
  "ctable_quote_types = [QUOTE_NONE, QUOTE_URI, QUOTE_ESCAPE, QUOTE_STRICT_URI, QUOTE_STRICT_ESCAPE]"

text \<open>\<^verbatim>\<open>Tcl_GetIndexFromObj\<close> with \<^verbatim>\<open>TCL_EXACT\<close> finds the position of an exactly equal table entry.\<close>

definition tcl_get_index :: "string list \<Rightarrow> string \<Rightarrow> nat option" where
  "tcl_get_index table s = find (\<lambda>i. table ! i = s) [0..<length table]"

definition ctable_parseQuoteType :: "string \<Rightarrow> quote_type option" where
  "ctable_parseQuoteType s =
     (case tcl_get_index ctable_quote_names s of None \<Rightarrow> None | Some i \<Rightarrow> Some (ctable_quote_types ! i))"

definition ctable_quoteTypeList :: "string list" where
  "ctable_quoteTypeList = map (\<lambda>i. ctable_quote_names ! i) [0..<length ctable_quote_names]"

section \<open>Quoting\<close>

definition hex_char :: "byte \<Rightarrow> byte" where
  [cdefs]: "hex_char d = (if d < 10 then 48 + d else 87 + d)"

text \<open>\<^verbatim>\<open>snprintf\<close> with \<^verbatim>\<open>%02x\<close> and \<^verbatim>\<open>%03o\<close> of an unsigned char.\<close>

definition fmt_02x :: "byte \<Rightarrow> cstring" where
  "fmt_02x c = [hex_char (c div 16), hex_char (c mod 16)]"

definition fmt_03o :: "byte \<Rightarrow> cstring" where
  "fmt_03o c = [48 + c div 64, 48 + c div 8 mod 8, 48 + c mod 8]"

definition quote_special :: cstring where
  "quote_special = [8, 12, 10, 13, 9, 11, 92]"

definition quote_replace :: cstring where
  "quote_replace = [98, 102, 110, 114, 116, 118, 92]"

text \<open>What the loop body writes for a character that needs quoting.\<close>

fun quote_emit :: "quote_type \<Rightarrow> byte \<Rightarrow> cstring" where
  "quote_emit QUOTE_URI c = 37 # fmt_02x c"
| "quote_emit QUOTE_ESCAPE c =
     92 # (case strchr quote_special c of Some off \<Rightarrow> [cchar quote_replace off] | None \<Rightarrow> fmt_03o c)"
| "quote_emit _ c = [c]"

definition quote_needed :: "byte \<Rightarrow> cstring \<Rightarrow> bool \<Rightarrow> byte \<Rightarrow> bool" where
  "quote_needed quoteChar quotedChars strict c \<longleftrightarrow>
     c = quoteChar \<or> strchr quotedChars c \<noteq> None \<or> c < 32 \<or> (strict \<and> c AND 128 \<noteq> 0)"

text \<open>
  The loop: \<open>pre\<close> are the characters already passed, \<open>newptr\<close> is the buffer, absent until the
  first quoted character; then it starts as a copy of \<open>pre\<close>.
\<close>

fun quote_loop :: "quote_type \<Rightarrow> byte \<Rightarrow> cstring \<Rightarrow> bool \<Rightarrow> cstring \<Rightarrow> cstring
    \<Rightarrow> cstring option \<Rightarrow> cstring option" where
  "quote_loop qt qc qs strict pre [] newptr = newptr"
| "quote_loop qt qc qs strict pre (c # cs) newptr =
     (if quote_needed qc qs strict c
      then quote_loop qt qc qs strict (pre @ [c]) cs
             (Some ((case newptr of None \<Rightarrow> pre | Some buf \<Rightarrow> buf) @ quote_emit qt c))
      else quote_loop qt qc qs strict (pre @ [c]) cs (map_option (\<lambda>buf. buf @ [c]) newptr))"

definition base_type :: "quote_type \<Rightarrow> quote_type" where
  "base_type qt = (if qt = QUOTE_STRICT_URI then QUOTE_URI
                   else if qt = QUOTE_STRICT_ESCAPE then QUOTE_ESCAPE else qt)"

definition is_strict :: "quote_type \<Rightarrow> bool" where
  "is_strict qt \<longleftrightarrow> qt = QUOTE_STRICT_URI \<or> qt = QUOTE_STRICT_ESCAPE"

definition quote_char :: "quote_type \<Rightarrow> byte" where
  "quote_char qt = (if base_type qt = QUOTE_URI then 37 else if base_type qt = QUOTE_ESCAPE then 92 else 0)"

definition maxExpansion :: "quote_type \<Rightarrow> nat" where
  "maxExpansion qt = (if base_type qt = QUOTE_URI then 3 else 4)"

text \<open>
  \<^verbatim>\<open>ctable_quoteString\<close>: \<open>None\<close> stands for the return value 0 (string untouched), \<open>Some t\<close> for 1
  with the new string \<open>t\<close>; a missing separator list means a tab.
\<close>

definition ctable_quoteString :: "cstring \<Rightarrow> quote_type \<Rightarrow> cstring option \<Rightarrow> cstring option" where
  "ctable_quoteString s qt quotedChars =
     (if base_type qt = QUOTE_NONE then None
      else quote_loop (base_type qt) (quote_char qt) (case quotedChars of None \<Rightarrow> [9] | Some q \<Rightarrow> q)
             (is_strict qt) [] s None)"

section \<open>Dequoting\<close>

definition unescape_char :: "byte \<Rightarrow> byte" where
  "unescape_char c =
     (if c = 110 then 10 else if c = 116 then 9 else if c = 114 then 13 else if c = 98 then 8
      else if c = 102 then 12 else if c = 118 then 11 else c)"

text \<open>The octal digit loop; \<open>n\<close> counts the remaining rounds.\<close>

fun octal_loop :: "nat \<Rightarrow> memory \<Rightarrow> addr \<Rightarrow> addr \<Rightarrow> byte \<Rightarrow> nat \<Rightarrow> memory \<times> nat" where
  "octal_loop 0 m d src c i = (m, i)"
| "octal_loop (Suc n) m d src c i =
     (let m' = m(d := m d * 8 + c - 48); c' = m' (src + i)
      in if c' < 48 \<or> c' > 55 then (m', i) else octal_loop n m' d src c' (Suc i))"

lemma octal_loop_mono: "i \<le> snd (octal_loop n m d src c i)"
proof (induction n arbitrary: m c i)
  case 0
  then show ?case by simp
next
  case (Suc n)
  show ?case
    by (simp add: Let_def del: fun_upd_apply) (blast intro: Suc_leD [OF Suc.IH])
qed

lemma octal_loop_progress: "i < len \<Longrightarrow> len - snd (octal_loop n m d src c (Suc i)) < len - i"
  using octal_loop_mono [of "Suc i" n m d src c] by simp

text \<open>The main loop; \<open>Inl\<close> is the early return of -1, \<open>Inr\<close> the memory, \<open>i\<close> and \<open>j\<close> at the end.\<close>

function dequote_loop :: "quote_type \<Rightarrow> bool \<Rightarrow> addr \<Rightarrow> addr \<Rightarrow> nat \<Rightarrow> memory \<Rightarrow> nat \<Rightarrow> nat
    \<Rightarrow> memory + (memory \<times> nat \<times> nat)" where
  "dequote_loop dt strict dst src len m i j =
     (if i < len
      then if dt = QUOTE_URI \<and> m (src + i) = 37
           then if \<not> c_isxdigit (m (src + i + 1)) \<or> \<not> c_isxdigit (m (src + i + 2))
                then if strict then Inl m
                     else dequote_loop dt strict dst src len (m(dst + j := m (src + i))) (i + 1) (j + 1)
                else dequote_loop dt strict dst src len
                       (m(dst + j := hex_value (m (src + i + 1)) * 16 + hex_value (m (src + i + 2))))
                       (i + 3) (j + 1)
           else if dt = QUOTE_ESCAPE \<and> m (src + i) = 92
           then let c = m (src + i + 1)
                in if 48 \<le> c \<and> c \<le> 55
                   then let r = octal_loop 3 (m(dst + j := 0)) (dst + j) src c (i + 1)
                        in dequote_loop dt strict dst src len (fst r) (snd r) (j + 1)
                   else dequote_loop dt strict dst src len (m(dst + j := unescape_char c)) (i + 2) (j + 1)
           else dequote_loop dt strict dst src len (m(dst + j := m (src + i))) (i + 1) (j + 1)
      else Inr (m, i, j))"
  by pat_completeness auto
termination
  by (relation "measure (\<lambda>(dt, strict, dst, src, len, m, i, j). len - i)")
     (auto simp: octal_loop_progress)

declare dequote_loop.simps [simp del]

text \<open>\<^verbatim>\<open>strncpy\<close>: stops at a NUL and pads with NULs.\<close>

fun c_strncpy :: "memory \<Rightarrow> addr \<Rightarrow> addr \<Rightarrow> nat \<Rightarrow> memory" where
  "c_strncpy m dst src 0 = m"
| "c_strncpy m dst src (Suc n) =
     (if m src = 0 then fold (\<lambda>k m. m(dst + k := 0)) [0..<Suc n] m
      else c_strncpy (m(dst := m src)) (Suc dst) (Suc src) n)"

text \<open>
  \<^verbatim>\<open>ctable_copyDequoted\<close>: the memory afterwards and the return value (\<open>None\<close> only when a negative
  length asks for \<^verbatim>\<open>strlen\<close> of an unterminated string).  The code keeps two copies of the quote
  type and strips \<^verbatim>\<open>strict_escape\<close> from the one the loop does not look at.
\<close>

definition ctable_copyDequoted :: "memory \<Rightarrow> addr \<Rightarrow> addr \<Rightarrow> int \<Rightarrow> quote_type \<Rightarrow> (memory \<times> int) option" where
  "ctable_copyDequoted m dst src length0 quoteType0 =
     Option.bind (if length0 < 0 then c_strlen m src else Some (nat length0)) (\<lambda>len.
       let dequoteType = (if quoteType0 = QUOTE_STRICT_URI then QUOTE_URI else quoteType0);
           strict = (quoteType0 = QUOTE_STRICT_URI \<or> quoteType0 = QUOTE_STRICT_ESCAPE);
           quoteType = (if quoteType0 = QUOTE_STRICT_ESCAPE then QUOTE_ESCAPE else quoteType0)
       in if quoteType = QUOTE_NONE then Some (c_strncpy m dst src len, int len)
          else case dequote_loop dequoteType strict dst src len m 0 0 of
                 Inl m' \<Rightarrow> Some (m', -1)
               | Inr (m', i, j) \<Rightarrow> Some (if j < i \<or> dst \<noteq> src then m'(dst + j := 0) else m', int j))"

definition ctable_dequoteString :: "memory \<Rightarrow> addr \<Rightarrow> int \<Rightarrow> quote_type \<Rightarrow> (memory \<times> int) option" where
  "ctable_dequoteString m p len qt = ctable_copyDequoted m p p len qt"

section \<open>Quoting, character by character\<close>

text \<open>The separator list after the default has been filled in, and the encoding of one character.\<close>

definition quote_sep :: "cstring option \<Rightarrow> cstring" where
  "quote_sep q = (case q of None \<Rightarrow> [9] | Some s \<Rightarrow> s)"

definition quote_hit :: "quote_type \<Rightarrow> cstring option \<Rightarrow> byte \<Rightarrow> bool" where
  "quote_hit qt q = quote_needed (quote_char qt) (quote_sep q) (is_strict qt)"

definition quote_enc :: "quote_type \<Rightarrow> cstring option \<Rightarrow> byte \<Rightarrow> cstring" where
  "quote_enc qt q c = (if quote_hit qt q c then quote_emit (base_type qt) c else [c])"

text \<open>What a caller ends up with: the new string, or the old one when 0 was returned.\<close>

definition quoted :: "cstring \<Rightarrow> quote_type \<Rightarrow> cstring option \<Rightarrow> cstring" where
  "quoted s qt q = (case ctable_quoteString s qt q of None \<Rightarrow> s | Some t \<Rightarrow> t)"

lemma quote_loop_Some:
  "quote_loop qt qc qs st pre s (Some buf) =
     Some (buf @ concat (map (\<lambda>c. if quote_needed qc qs st c then quote_emit qt c else [c]) s))"
  by (induction s arbitrary: pre buf) auto

lemma quote_loop_None:
  "quote_loop qt qc qs st pre s None =
     (if \<exists>c\<in>set s. quote_needed qc qs st c
      then Some (pre @ concat (map (\<lambda>c. if quote_needed qc qs st c then quote_emit qt c else [c]) s))
      else None)"
  by (induction s arbitrary: pre) (auto simp: quote_loop_Some)

lemma quoted_eq:
  assumes "qt \<noteq> QUOTE_NONE"
  shows "quoted s qt q = concat (map (quote_enc qt q) s)"
proof -
  have "base_type qt \<noteq> QUOTE_NONE" using assms by (auto simp: base_type_def)
  moreover have "s = concat (map (quote_enc qt q) s)" if "\<not> (\<exists>c\<in>set s. quote_hit qt q c)"
    using that by (induction s) (auto simp: quote_enc_def)
  moreover have "quote_enc qt q = (\<lambda>c. if quote_needed (quote_char qt) (quote_sep q) (is_strict qt) c
                                    then quote_emit (base_type qt) c else [c])"
    by (rule ext) (simp add: quote_enc_def quote_hit_def)
  ultimately show ?thesis
    by (simp add: quoted_def ctable_quoteString_def quote_loop_None quote_hit_def
        quote_sep_def [symmetric])
qed

lemma quoted_none [simp]: "quoted s QUOTE_NONE q = s"
  by (simp add: quoted_def ctable_quoteString_def base_type_def)

section \<open>Facts about single bytes\<close>

definition uri_alphabet :: cstring where
  "uri_alphabet = [37, 48, 49, 50, 51, 52, 53, 54, 55, 56, 57, 97, 98, 99, 100, 101, 102]"

definition escape_alphabet :: cstring where
  "escape_alphabet = [92, 98, 102, 110, 114, 116, 118, 48, 49, 50, 51, 52, 53, 54, 55]"

definition quote_alphabet :: "quote_type \<Rightarrow> cstring" where
  "quote_alphabet qt = (if base_type qt = QUOTE_URI then uri_alphabet else escape_alphabet)"

lemma hex_char_facts:
  assumes "d < 16"
  shows "hex_char d \<in> set uri_alphabet \<and> c_isxdigit (hex_char d) \<and> hex_value (hex_char d) = d"
  by (rule small_byte_exhaust [where n = 16]) (use assms in simp, simp, code_simp)

lemma octal_char_facts:
  assumes "d < 8"
  shows "48 + d \<in> set escape_alphabet \<and> 48 \<le> 48 + d \<and> 48 + d \<le> (55 :: byte)"
  by (rule small_byte_exhaust [where n = 8]) (use assms in simp, simp, code_simp)

lemma byte_digits [simp]:
  "(c :: byte) div 16 < 16" "(c :: byte) mod 16 < 16"
  "(c :: byte) div 64 < 8" "(c :: byte) div 8 mod 8 < 8" "(c :: byte) mod 8 < 8"
  by (simp_all add: word_less_nat_alt unat_div unat_mod)
    (use unat_byte [of c] in linarith)+

lemma fmt_02x_facts:
  "set (fmt_02x c) \<subseteq> set uri_alphabet"
  "c_isxdigit (fmt_02x c ! 0)" "c_isxdigit (fmt_02x c ! 1)"
  "hex_value (fmt_02x c ! 0) * 16 + hex_value (fmt_02x c ! 1) = c"
  using hex_char_facts [of "c div 16"] hex_char_facts [of "c mod 16"]
  by (auto simp: fmt_02x_def div_mult_mod_eq)

lemma fmt_03o_facts: "set (fmt_03o c) \<subseteq> set escape_alphabet"
  using octal_char_facts [of "c div 64"] octal_char_facts [of "c div 8 mod 8"]
    octal_char_facts [of "c mod 8"]
  by (auto simp: fmt_03o_def)

lemma escape_special_facts:
  assumes "strchr quote_special c = Some off"
  shows "unescape_char (cchar quote_replace off) = c"
    and "\<not> (48 \<le> cchar quote_replace off \<and> cchar quote_replace off \<le> 55)"
    and "c \<noteq> 0 \<Longrightarrow> cchar quote_replace off \<in> set escape_alphabet"
  using assms
  by (auto simp: quote_special_def quote_replace_def unescape_char_def cchar_def escape_alphabet_def
      split: if_splits)

lemma alphabet_printable: "list_all (\<lambda>x. 32 \<le> x) (uri_alphabet @ escape_alphabet)"
  by code_simp

lemma quote_char_simps [simp]:
  "base_type qt = QUOTE_URI \<Longrightarrow> quote_char qt = 37"
  "base_type qt = QUOTE_ESCAPE \<Longrightarrow> quote_char qt = 92"
  by (simp_all add: quote_char_def)

lemma quote_hit_quote_char: "quote_hit qt q (quote_char qt)"
  by (simp add: quote_hit_def quote_needed_def)

lemma base_type_cases: "qt \<noteq> QUOTE_NONE \<Longrightarrow> base_type qt = QUOTE_URI \<or> base_type qt = QUOTE_ESCAPE"
  by (cases qt) (auto simp: base_type_def)

section \<open>Dequoting undoes one encoded character at a time\<close>

lemma dequote_uri_step:
  assumes enc: "holds m (src + i) (quote_enc qt q c)" and qt: "base_type qt = QUOTE_URI"
    and i: "i < len"
  shows "dequote_loop QUOTE_URI strict dst src len m i j =
           dequote_loop QUOTE_URI strict dst src len (m(dst + j := c)) (i + length (quote_enc qt q c)) (j + 1)"
proof (cases "quote_hit qt q c")
  case True
  then have "m (src + i) = 37" "m (src + i + 1) = fmt_02x c ! 0" "m (src + i + 2) = fmt_02x c ! 1"
    and len: "length (quote_enc qt q c) = 3"
    using enc qt by (auto simp: quote_enc_def fmt_02x_def)
  then show ?thesis
    using fmt_02x_facts [of c] i len by (subst dequote_loop.simps) simp
next
  case False
  then have c: "m (src + i) = c" "c \<noteq> 37" and len: "length (quote_enc qt q c) = 1"
    using enc qt quote_hit_quote_char [of qt q] by (auto simp: quote_enc_def)
  then show ?thesis using i len by (subst dequote_loop.simps) simp
qed

text \<open>
  The byte an octal escape is read back as: the loop that collects the digits looks at the first
  digit twice and never at the last.
\<close>

definition octal_readback :: "byte \<Rightarrow> byte" where
  "octal_readback c = (c div 64 * 8 + c div 64) * 8 + c div 8 mod 8"

definition escape_readback :: "quote_type \<Rightarrow> cstring option \<Rightarrow> byte \<Rightarrow> byte" where
  "escape_readback qt q c =
     (if quote_hit qt q c \<and> strchr quote_special c = None then octal_readback c else c)"

lemma octal_loop_digits:
  assumes "holds m (src + i) (fmt_03o c)" "dst < src + i"
  shows "octal_loop 3 (m(dst := 0)) dst src (m (src + i)) i = (m(dst := octal_readback c), i + 3)"
proof -
  let ?d1 = "48 + c div 64" and ?d2 = "48 + c div 8 mod 8" and ?d3 = "48 + c mod 8"
  have m: "m (src + i) = ?d1" "m (src + Suc i) = ?d2" "m (src + Suc (Suc i)) = ?d3"
    using assms(1) by (auto simp: fmt_03o_def)
  have oct: "\<not> ?d1 < 48" "\<not> 55 < ?d1" "\<not> ?d2 < 48" "\<not> 55 < ?d2" "\<not> ?d3 < 48" "\<not> 55 < ?d3"
    using octal_char_facts [of "c div 64"] octal_char_facts [of "c div 8 mod 8"]
      octal_char_facts [of "c mod 8"] by (auto simp: not_less)
  have upd: "m(dst := 0, dst := x, dst := y, dst := z) = m(dst := z)" for x y z by simp
  show ?thesis
    using m oct assms(2)
    by (simp add: numeral_3_eq_3 Let_def octal_readback_def del: fun_upd_apply)
       (simp add: fun_upd_def)
qed

lemma dequote_escape_step:
  assumes enc: "holds m (src + i) (quote_enc qt q c)" and qt: "base_type qt = QUOTE_ESCAPE"
    and i: "i < len" and ord: "dst + j \<le> src + i"
  shows "dequote_loop QUOTE_ESCAPE strict dst src len m i j =
           dequote_loop QUOTE_ESCAPE strict dst src len (m(dst + j := escape_readback qt q c))
             (i + length (quote_enc qt q c)) (j + 1)"
proof (cases "quote_hit qt q c")
  case False
  then have c: "m (src + i) = c" "c \<noteq> 92" and len: "length (quote_enc qt q c) = 1"
    using enc qt quote_hit_quote_char [of qt q] by (auto simp: quote_enc_def)
  then show ?thesis using i False by (subst dequote_loop.simps) (simp add: escape_readback_def)
next
  case hit: True
  show ?thesis
  proof (cases "strchr quote_special c")
    case (Some off)
    have m: "m (src + i) = 92" "m (src + i + 1) = cchar quote_replace off"
      and len: "length (quote_enc qt q c) = 2"
      using enc qt hit Some by (auto simp: quote_enc_def)
    have "(48 \<le> cchar quote_replace off \<and> cchar quote_replace off \<le> 55) = False"
      using escape_special_facts(2) [OF Some] by blast
    then show ?thesis
      using m len i escape_special_facts(1) [OF Some] Some
      by (subst dequote_loop.simps) (simp add: Let_def escape_readback_def del: de_Morgan_conj)
  next
    case None
    have "quote_enc qt q c = 92 # fmt_03o c" using qt hit by (simp add: quote_enc_def None)
    then have m: "m (src + i) = 92" "holds m (src + (i + 1)) (fmt_03o c)"
      and len: "length (quote_enc qt q c) = 4"
      using enc by (auto simp: fmt_03o_def)
    then have m1: "m (src + i + 1) = 48 + c div 64" by (simp add: fmt_03o_def)
    have oct: "48 \<le> m (src + i + 1)" "m (src + i + 1) \<le> 55"
      using octal_char_facts [of "c div 64"] m1 by auto
    have "octal_loop 3 (m(dst + j := 0)) (dst + j) src (m (src + (i + 1))) (i + 1)
            = (m(dst + j := octal_readback c), i + 1 + 3)"
      by (rule octal_loop_digits [OF m(2)]) (use ord in simp)
    then show ?thesis
      using m len i oct hit None
      by (subst dequote_loop.simps) (simp add: Let_def escape_readback_def add.commute)
  qed
qed

text \<open>
  Both steps have one shape, so the two loops share one induction: as long as the output position
  stays at or below the input position, writing never damages what is still to be read.
\<close>

lemma dequote_inplace:
  assumes step: "\<And>m i j c. holds m (src + i) (enc c) \<Longrightarrow> i < len \<Longrightarrow> dst + j \<le> src + i \<Longrightarrow>
      dequote_loop dt strict dst src len m i j =
      dequote_loop dt strict dst src len (m(dst + j := dec c)) (i + length (enc c)) (j + 1)"
    and pos: "\<And>c. enc c \<noteq> []"
    and src: "holds m (src + i) (concat (map enc s))" "len = i + length (concat (map enc s))"
    and ord: "dst + j \<le> src + i"
  shows "\<exists>m'. dequote_loop dt strict dst src len m i j = Inr (m', len, j + length s)
            \<and> holds m' (dst + j) (map dec s) \<and> (\<forall>a<dst + j. m' a = m a)"
  using src ord
proof (induction s arbitrary: m i j)
  case Nil
  then show ?case by (simp add: dequote_loop.simps)
next
  case (Cons c cs)
  let ?m = "m(dst + j := dec c)" and ?i = "i + length (enc c)"
  have e: "0 < length (enc c)" using pos by simp
  have "dequote_loop dt strict dst src len m i j = dequote_loop dt strict dst src len ?m ?i (j + 1)"
    using Cons.prems e by (intro step) auto
  moreover have "\<exists>m'. dequote_loop dt strict dst src len ?m ?i (j + 1) = Inr (m', len, j + 1 + length cs)
      \<and> holds m' (dst + (j + 1)) (map dec cs) \<and> (\<forall>a<dst + (j + 1). m' a = ?m a)"
  proof (rule Cons.IH)
    show ord: "dst + (j + 1) \<le> src + ?i" using Cons.prems(3) e by linarith
    have "holds m (src + ?i) (concat (map enc cs))" using Cons.prems(1) by (simp add: add.assoc)
    then show "holds ?m (src + ?i) (concat (map enc cs))"
      using ord by (subst holds_upd_below) auto
  qed (use Cons.prems(2) in simp)
  ultimately show ?case by (auto simp: less_Suc_eq)
qed

lemma quote_enc_nonempty: "quote_enc qt q c \<noteq> []"
  by (cases "base_type qt") (auto simp: quote_enc_def)

lemma dequote_loop_uri:
  assumes b: "base_type qt = QUOTE_URI" and m: "holds m src (concat (map (quote_enc qt q) s))"
    and "dst \<le> src" and n: "n = length (concat (map (quote_enc qt q) s))"
  shows "\<exists>m'. dequote_loop QUOTE_URI strict dst src n m 0 0 = Inr (m', n, length s)
            \<and> holds m' dst s \<and> (\<forall>a<dst. m' a = m a)"
  using dequote_inplace [where dec = id and enc = "quote_enc qt q" and m = m and i = 0 and j = 0
      and s = s and len = n and src = src and dst = dst and dt = QUOTE_URI and strict = strict]
    dequote_uri_step [where q = q, OF _ b] quote_enc_nonempty m assms(3) n
  by auto

lemma dequote_loop_escape:
  assumes b: "base_type qt = QUOTE_ESCAPE" and m: "holds m src (concat (map (quote_enc qt q) s))"
    and "dst \<le> src" and n: "n = length (concat (map (quote_enc qt q) s))"
  shows "\<exists>m'. dequote_loop QUOTE_ESCAPE strict dst src n m 0 0 = Inr (m', n, length s)
            \<and> holds m' dst (map (escape_readback qt q) s) \<and> (\<forall>a<dst. m' a = m a)"
  using dequote_inplace [where dec = "escape_readback qt q" and enc = "quote_enc qt q" and m = m
      and i = 0 and j = 0 and s = s and len = n and src = src and dst = dst and dt = QUOTE_ESCAPE
      and strict = strict]
    dequote_escape_step [where q = q, OF _ b] quote_enc_nonempty m assms(3) n
  by auto

section \<open>Round trips\<close>

text \<open>
  C17. Quoting and dequoting with \<^verbatim>\<open>uri\<close> or \<^verbatim>\<open>strict_uri\<close> are inverse for every byte string and every
  separator list, and the dequoting may run in place: if the bytes of the quoted string lie at
  \<open>src\<close> and the destination is not above it, \<^verbatim>\<open>ctable_copyDequoted\<close> returns the length of the
  original string, leaves exactly its bytes at \<open>dst\<close> and changes nothing below \<open>dst\<close>.
\<close>

theorem uri_roundtrip:
  assumes "qt = QUOTE_URI \<or> qt = QUOTE_STRICT_URI" and "holds m src (quoted s qt q)" and "dst \<le> src"
  shows "\<exists>m'. ctable_copyDequoted m dst src (int (length (quoted s qt q))) qt = Some (m', int (length s))
            \<and> holds m' dst s \<and> (\<forall>a<dst. m' a = m a)"
proof -
  have ne: "qt \<noteq> QUOTE_NONE" and b: "base_type qt = QUOTE_URI" using assms(1) by (auto simp: base_type_def)
  let ?n = "length (quoted s qt q)"
  obtain m' where m': "dequote_loop QUOTE_URI (qt = QUOTE_STRICT_URI) dst src ?n m 0 0 = Inr (m', ?n, length s)"
      "holds m' dst s" "\<forall>a<dst. m' a = m a"
    using dequote_loop_uri [OF b _ assms(3), of m q s ?n "qt = QUOTE_STRICT_URI"] assms(2)
    by (auto simp: quoted_eq [OF ne])
  show ?thesis
    by (rule exI [of _ "if length s < ?n \<or> dst \<noteq> src then m'(dst + length s := 0) else m'"])
      (use assms(1) m' in \<open>auto simp: ctable_copyDequoted_def\<close>)
qed

lemma uri_roundtrip_witness:
  "\<exists>m'. ctable_copyDequoted (\<lambda>a. if a = 0 then 37 else if a = 1 then 48 else if a = 2 then 57 else 65) 0 0
          (int (length (quoted [9, 65] QUOTE_URI None))) QUOTE_URI = Some (m', int (length [9 :: byte, 65]))
        \<and> holds m' 0 [9, 65] \<and> (\<forall>a<0. m' a = (0 :: byte))"
  using uri_roundtrip [of QUOTE_URI "\<lambda>a. if a = 0 then 37 else if a = 1 then 48 else if a = 2 then 57 else 65"
      0 "[9, 65]" None 0]
  by (simp add: quoted_def ctable_quoteString_def base_type_def quote_needed_def quote_char_def
      is_strict_def fmt_02x_def hex_char_def)

text \<open>
  C18. What escape quoting gives back: after quoting with \<^verbatim>\<open>escape\<close> and dequoting in place, every
  byte that was passed through or written as a letter escape comes back unchanged, and every byte
  written as an octal escape \<open>d1 d2 d3\<close> comes back as the byte with octal digits \<open>d1 d1 d2\<close>: the
  digit loop reads the first digit twice and never the last.
\<close>

theorem escape_readback_exact:
  assumes "holds m p (quoted s QUOTE_ESCAPE q)"
  shows "\<exists>m'. ctable_dequoteString m p (int (length (quoted s QUOTE_ESCAPE q))) QUOTE_ESCAPE
              = Some (m', int (length s))
            \<and> holds m' p (map (escape_readback QUOTE_ESCAPE q) s)"
proof -
  let ?n = "length (quoted s QUOTE_ESCAPE q)"
  obtain m' where m': "dequote_loop QUOTE_ESCAPE False p p ?n m 0 0 = Inr (m', ?n, length s)"
      "holds m' p (map (escape_readback QUOTE_ESCAPE q) s)"
    using dequote_loop_escape [of QUOTE_ESCAPE m p q s p ?n False] assms
    by (auto simp: quoted_eq base_type_def)
  show ?thesis
    by (rule exI [of _ "if length s < ?n then m'(p + length s := 0) else m'"])
      (use m' in \<open>auto simp: ctable_dequoteString_def ctable_copyDequoted_def\<close>)
qed

lemma escape_readback_exact_witness:
  "\<exists>m'. ctable_dequoteString (\<lambda>a. [92, 48, 48, 49, 65 :: byte] ! a) 0 (int (length (quoted [1, 65] QUOTE_ESCAPE None)))
          QUOTE_ESCAPE = Some (m', int (length [1 :: byte, 65]))
        \<and> holds m' 0 [0, 65]"
proof -
  have q: "quoted [1, 65] QUOTE_ESCAPE None = [92, 48, 48, 49, 65]"
    by code_simp
  have r: "map (escape_readback QUOTE_ESCAPE None) [1, 65] = [0, 65]"
    by code_simp
  have h: "holds (\<lambda>a. [92, 48, 48, 49, 65 :: byte] ! a) 0 (quoted [1, 65] QUOTE_ESCAPE None)"
    by (simp add: q)
  from escape_readback_exact [OF h] show ?thesis by (simp only: r)
qed

lemma dequote_loop_identity:
  "dt \<noteq> QUOTE_URI \<Longrightarrow> dt \<noteq> QUOTE_ESCAPE \<Longrightarrow> i \<le> len \<Longrightarrow>
     dequote_loop dt strict p p len m i i = Inr (m, len, len)"
proof (induction "len - i" arbitrary: i)
  case 0
  then show ?case by (simp add: dequote_loop.simps)
next
  case (Suc n)
  then show ?case by (subst dequote_loop.simps) (simp add: fun_upd_idem)
qed

text \<open>
  The type \<^verbatim>\<open>strict_escape\<close> never dequotes: whatever the string, \<^verbatim>\<open>ctable_dequoteString\<close>
  returns its length and leaves every byte as it was, because the branch that recognises the
  backslash looks at a variable from which \<open>strict_escape\<close> was never stripped.
\<close>

theorem strict_escape_not_decoded:
  "ctable_dequoteString m p (int n) QUOTE_STRICT_ESCAPE = Some (m, int n)"
  by (simp add: ctable_dequoteString_def ctable_copyDequoted_def dequote_loop_identity)

section \<open>What quoted text may contain\<close>

lemma quote_enc_safe:
  assumes "qt \<noteq> QUOTE_NONE" and "base_type qt = QUOTE_ESCAPE \<Longrightarrow> c \<noteq> 0" and "x \<in> set (quote_enc qt q c)"
  shows "x \<in> set (quote_alphabet qt) \<or> (x = c \<and> \<not> quote_hit qt q c)"
proof (cases "quote_hit qt q c")
  case True
  then show ?thesis
    using base_type_cases [OF assms(1)] assms(2, 3) fmt_02x_facts(1) [of c] fmt_03o_facts [of c]
      escape_special_facts(3) [of c]
    by (auto simp: quote_enc_def quote_alphabet_def uri_alphabet_def escape_alphabet_def
        split: option.splits)
next
  case False
  then show ?thesis using assms(3) by (simp add: quote_enc_def)
qed



lemma quote_emit_length: "length (quote_emit (base_type qt) c) \<le> maxExpansion qt"
  by (cases "base_type qt") (auto simp: maxExpansion_def fmt_02x_def fmt_03o_def split: option.splits)


end
