(* ===== verification/Ethers.thy ===== *)
theory Ethers
  imports Prelude
begin

text \<open>
  \<^verbatim>\<open>ctables/ethers.c\<close>: the fallback parser and printer of MAC addresses.  The parser is modelled
  with the three ways it can end: an address, \<^verbatim>\<open>NULL\<close>, or behaviour the C standard leaves
  undefined, namely reading behind the terminating NUL, writing \<^verbatim>\<open>octet[6]\<close> or overflowing the
  signed \<^verbatim>\<open>group\<close>.
\<close>

definition ETHER_ADDR_LEN :: nat where
  [simp]: "ETHER_ADDR_LEN = 6"

record ether_addr =
  octet :: "byte list"

datatype ether_result = Ether_OK ether_addr | Ether_NULL | Ether_Fault

section \<open>The parser\<close>

text \<open>The digit cases of the switch: the next \<^verbatim>\<open>group\<close>, or \<open>None\<close> for a character that is no digit.\<close>

definition ether_digit :: "int \<Rightarrow> byte \<Rightarrow> int option" where
  "ether_digit grp c =
     (if 97 \<le> c \<and> c \<le> 102 then Some (grp * 16 + uint c - 97 + 10)
      else if 65 \<le> c \<and> c \<le> 70 then Some (grp * 16 + uint c - 65 + 10)
      else if 48 \<le> c \<and> c \<le> 57 then Some (grp * 16 + uint c - 48)
      else None)"

text \<open>
  The separator case: range check, then one or two octets are stored; \<open>None\<close> is the return of
  \<^verbatim>\<open>NULL\<close>, and a store behind the array is reported by the flag.
\<close>

definition ether_store :: "bool \<Rightarrow> int \<Rightarrow> nat \<Rightarrow> byte list \<Rightarrow> (bool \<times> nat \<times> byte list) option" where
  "ether_store twobyte grp i oct =
     (if twobyte
      then if grp \<ge> 2 ^ 16 then None
           else Some (Suc i < ETHER_ADDR_LEN, i + 2,
                      oct[i := word_of_int (grp div 256), Suc i := word_of_int (grp mod 256)])
      else if grp \<ge> 2 ^ 8 then None
           else Some (i < ETHER_ADDR_LEN, i + 1, oct[i := word_of_int (grp mod 256)]))"

text \<open>
  The \<^verbatim>\<open>while\<close> loop.  At the end of the list the terminating NUL is read, which acts as a
  separator; if the address is not complete then, the next round reads behind the string.
\<close>

fun ether_loop :: "cstring \<Rightarrow> bool \<Rightarrow> int \<Rightarrow> nat \<Rightarrow> byte list \<Rightarrow> ether_result" where
  "ether_loop [] twobyte grp i oct =
     (case ether_store twobyte grp i oct of
        None \<Rightarrow> Ether_NULL
      | Some (inside, i', oct') \<Rightarrow>
          if inside \<and> i' \<ge> ETHER_ADDR_LEN then Ether_OK \<lparr>octet = oct'\<rparr> else Ether_Fault)"
| "ether_loop (c # s) twobyte grp i oct =
     (case ether_digit grp c of
        Some grp' \<Rightarrow> if grp * 16 + uint c \<ge> 2 ^ 31 then Ether_Fault
                       else ether_loop s twobyte grp' i oct
      | None \<Rightarrow>
          if c = 46 \<or> c = 58 \<or> c = 45
          then let twobyte' = (twobyte \<or> c = 46)
               in (case ether_store twobyte' grp i oct of
                     None \<Rightarrow> Ether_NULL
                   | Some (inside, i', oct') \<Rightarrow>
                       if \<not> inside then Ether_Fault
                       else if i' \<ge> ETHER_ADDR_LEN then Ether_NULL
                       else ether_loop s twobyte' 0 i' oct')
          else Ether_NULL)"

definition ether_aton :: "cstring \<Rightarrow> ether_result" where
  "ether_aton s = ether_loop s False 0 0 (replicate ETHER_ADDR_LEN 0)"

section \<open>The printer\<close>

definition ether_hex :: "byte \<Rightarrow> byte" where
  "ether_hex d = cchar [48, 49, 50, 51, 52, 53, 54, 55, 56, 57, 65, 66, 67, 68, 69, 70] (unat d)"

text \<open>One round of the loop of \<^verbatim>\<open>ether_ntoa\<close>; the last round stores the terminating NUL instead of a colon.\<close>

definition ether_ntoa :: "ether_addr \<Rightarrow> cstring" where
  "ether_ntoa a =
     concat (map (\<lambda>i. [ether_hex (drop_bit 4 (octet a ! i AND 240)), ether_hex (octet a ! i AND 15)]
                       @ (if i < ETHER_ADDR_LEN - 1 then [58] else []))
       [0..<ETHER_ADDR_LEN])"

section \<open>Groups of hexadecimal digits\<close>

definition hex_group :: "cstring \<Rightarrow> bool" where
  "hex_group g \<longleftrightarrow> list_all c_isxdigit g"

definition group_value :: "cstring \<Rightarrow> int" where
  "group_value g = fold (\<lambda>c v. v * 16 + uint (hex_value c)) g 0"

text \<open>A written address: groups with a separator character between them.\<close>

fun ether_join :: "byte \<Rightarrow> cstring list \<Rightarrow> cstring" where
  "ether_join sep [] = []"
| "ether_join sep [g] = g"
| "ether_join sep (g # gs) = g @ sep # ether_join sep gs"

lemma uint_sub: "y \<le> x \<Longrightarrow> uint (x - y :: byte) = uint x - uint y"
  using uint_sub_lem [of y x] by (simp add: word_le_def)

lemma ether_digit_hex:
  assumes "c_isxdigit c"
  shows "ether_digit grp c = Some (grp * 16 + uint (hex_value c)) \<and> uint (hex_value c) < 16 \<and> uint c \<le> 102"
  using assms
  by (auto simp: c_isxdigit_def hex_value_def ether_digit_def uint_sub word_le_def)

lemma ether_digit_sep: "ether_digit grp 58 = None" "ether_digit grp 45 = None" "ether_digit grp 46 = None"
  by (simp_all add: ether_digit_def)

lemma fold_hex_mono:
  "0 \<le> v \<Longrightarrow> v \<le> fold (\<lambda>c v. v * 16 + uint (hex_value c)) g (v :: int)"
proof (induction g arbitrary: v)
  case Nil
  then show ?case by simp
next
  case (Cons c g)
  have "v \<le> v * 16 + uint (hex_value c)" using Cons.prems by simp
  moreover have "v * 16 + uint (hex_value c) \<le> fold (\<lambda>c v. v * 16 + uint (hex_value c)) g (v * 16 + uint (hex_value c))"
    using Cons.prems by (intro Cons.IH) simp
  ultimately show ?case by simp
qed

lemma ether_loop_digits:
  assumes "hex_group g" "0 \<le> v" "fold (\<lambda>c v. v * 16 + uint (hex_value c)) g v < 2 ^ 16"
  shows "ether_loop (g @ rest) tb v i oct
       = ether_loop rest tb (fold (\<lambda>c v. v * 16 + uint (hex_value c)) g v) i oct"
  using assms
proof (induction g arbitrary: v)
  case Nil
  then show ?case by simp
next
  case (Cons c g)
  have c: "c_isxdigit c" using Cons.prems(1) by (simp add: hex_group_def)
  note d = ether_digit_hex [OF c, of v]
  have "v * 16 + uint (hex_value c) \<le> fold (\<lambda>c v. v * 16 + uint (hex_value c)) (c # g) v"
    using fold_hex_mono [of "v * 16 + uint (hex_value c)" g] Cons.prems(2) by simp
  then have small: "v * 16 + uint (hex_value c) < 2 ^ 16" using Cons.prems(3) by linarith
  have pos: "0 \<le> uint (hex_value c)" by simp
  have "v * 16 < 2 ^ 16" "uint c \<le> 102" using small d pos by linarith+
  then have no: "\<not> v * 16 + uint c \<ge> 2 ^ 31" by simp
  have "ether_loop (g @ rest) tb (v * 16 + uint (hex_value c)) i oct
     = ether_loop rest tb (fold (\<lambda>c v. v * 16 + uint (hex_value c)) g (v * 16 + uint (hex_value c))) i oct"
    using Cons.prems by (intro Cons.IH) (auto simp: hex_group_def)
  then show ?case using d no by simp
qed

lemmas ether_loop_group = ether_loop_digits [where v = 0, simplified, folded group_value_def]

lemma group_value_nonneg: "0 \<le> group_value g"
  using fold_hex_mono [of 0 g] by (simp add: group_value_def)

lemma ether_loop_last:
  "hex_group g \<Longrightarrow> group_value g < 2 ^ 16 \<Longrightarrow>
     ether_loop g tb 0 i oct = ether_loop [] tb (group_value g) i oct"
  using ether_loop_group [of g "[]"] by simp

section \<open>Which strings are read, and as what\<close>

definition octet_group :: "cstring \<Rightarrow> bool" where
  "octet_group g \<longleftrightarrow> hex_group g \<and> group_value g < 2 ^ 8"

definition word_group :: "cstring \<Rightarrow> bool" where
  "word_group g \<longleftrightarrow> hex_group g \<and> group_value g < 2 ^ 16"

definition group_octets :: "cstring \<Rightarrow> byte list" where
  "group_octets g = [word_of_int (group_value g div 256), word_of_int (group_value g mod 256)]"

lemma take_update_snoc:
  "i < length xs \<Longrightarrow> take (Suc i) (xs[i := x]) = take i xs @ [x]"
  by (simp add: take_Suc_conv_app_nth)

lemma take_update_snoc2:
  "Suc i < length xs \<Longrightarrow> take (Suc (Suc i)) (xs[i := x, Suc i := y]) = take i xs @ [x, y]"
  by (simp add: take_Suc_conv_app_nth)

lemma ether_loop_octets:
  assumes "gs \<noteq> []" "list_all octet_group gs" "sep = 58 \<or> sep = 45" "length oct = 6" "i < 6"
  shows "ether_loop (ether_join sep gs) False 0 i oct =
     (if i + length gs = 6 then Ether_OK \<lparr>octet = take i oct @ map (word_of_int \<circ> group_value) gs\<rparr>
      else if i + length gs < 6 then Ether_Fault else Ether_NULL)"
  using assms
proof (induction sep gs arbitrary: i oct rule: ether_join.induct)
  case (1 sep)
  then show ?case by simp
next
  case (2 sep g)
  then have "take 6 (oct[i := x]) = oct[i := x]" for x by simp
  moreover have "i = 5 \<Longrightarrow> take 6 (oct[5 := x]) = take 5 oct @ [x]" for x
    using take_update_snoc [of 5 oct x] 2 by simp
  ultimately show ?case
    using 2 by (auto simp: octet_group_def ether_loop_last ether_store_def group_value_nonneg)
next
  case (3 sep g g' gs)
  have g: "hex_group g" "group_value g < 256" using 3 by (auto simp: octet_group_def)
  have "ether_loop (ether_join sep (g' # gs)) False 0 (Suc i) (oct[i := word_of_int (group_value g)]) =
     (if Suc i + length (g' # gs) = 6
      then Ether_OK \<lparr>octet = take (Suc i) (oct[i := word_of_int (group_value g)])
                              @ map (word_of_int \<circ> group_value) (g' # gs)\<rparr>
      else if Suc i + length (g' # gs) < 6 then Ether_Fault else Ether_NULL)" if "Suc i < 6"
    using 3 that by (intro "3.IH") auto
  then show ?case
    using 3 g by (auto simp: ether_loop_group ether_digit_sep ether_store_def take_update_snoc
        group_value_nonneg)
qed

lemma ether_loop_words:
  assumes "gs \<noteq> []" "list_all word_group gs" "length oct = 6" "i < 6" "even i" "tb \<or> 2 \<le> length gs"
  shows "ether_loop (ether_join 46 gs) tb 0 i oct =
     (if i + 2 * length gs = 6 then Ether_OK \<lparr>octet = take i oct @ concat (map group_octets gs)\<rparr>
      else if i + 2 * length gs < 6 then Ether_Fault else Ether_NULL)"
  using assms
proof (induction "46 :: byte" gs arbitrary: i oct tb rule: ether_join.induct)
  case 1
  then show ?case by simp
next
  case (2 g)
  have "i = 4 \<Longrightarrow> oct[4 := x, 5 := y] = take 4 oct @ [x, y]" for x y
    using take_update_snoc2 [of 4 oct x y] 2 by simp
  moreover have "i = 4 \<or> i < 4" "Suc i < 6" using \<open>i < 6\<close> \<open>even i\<close> by presburger+
  ultimately show ?case
    using 2 by (auto simp: word_group_def ether_loop_last ether_store_def group_octets_def)
next
  case (3 g g' gs)
  let ?v = "group_value g"
  let ?o = "oct[i := word_of_int (?v div 256), Suc i := word_of_int (?v mod 256)]"
  have g: "hex_group g" "?v < 65536" using 3 by (auto simp: word_group_def)
  have i: "Suc i < 6" "Suc (Suc i) < 6 \<or> i = 4" using \<open>i < 6\<close> \<open>even i\<close> by presburger+
  have "ether_loop (ether_join 46 (g' # gs)) True 0 (Suc (Suc i)) ?o =
     (if Suc (Suc i) + 2 * length (g' # gs) = 6
      then Ether_OK \<lparr>octet = take (Suc (Suc i)) ?o @ concat (map group_octets (g' # gs))\<rparr>
      else if Suc (Suc i) + 2 * length (g' # gs) < 6 then Ether_Fault else Ether_NULL)" if "Suc (Suc i) < 6"
    using 3 that by (intro "3.hyps") auto
  then show ?case
    using 3 g i by (auto simp: ether_loop_group ether_digit_sep ether_store_def take_update_snoc2
        group_octets_def)
qed

text \<open>
  C22. \<^verbatim>\<open>ether_aton\<close> on the usual notation: hexadecimal groups below 256, in either case and of any
  width, joined by colons or by dashes.  Six groups are read as the six octets; more are refused;
  but fewer make the function read behind the terminating NUL of the string.
\<close>

theorem ether_aton_octets:
  assumes "gs \<noteq> []" and "list_all octet_group gs" and "sep = 58 \<or> sep = 45"
  shows "ether_aton (ether_join sep gs) =
     (if length gs = 6 then Ether_OK \<lparr>octet = map (word_of_int \<circ> group_value) gs\<rparr>
      else if length gs < 6 then Ether_Fault else Ether_NULL)"
  using assms by (simp add: ether_aton_def ether_loop_octets)

lemma ether_aton_octets_witness:
  "ether_aton (ether_join 58 [[48], [65, 98]]) = Ether_Fault"
  using ether_aton_octets [of "[[48], [65, 98]]" 58]
  by (simp add: octet_group_def hex_group_def group_value_def c_isxdigit_def hex_value_def)

text \<open>
  The dotted notation: two or more groups below 65536 joined by dots, each read as two octets,
  high byte first.  Three groups make an address, more are refused, and two make the function read
  behind the string.
\<close>

theorem ether_aton_words:
  assumes "2 \<le> length gs" and "list_all word_group gs"
  shows "ether_aton (ether_join 46 gs) =
     (if length gs = 3 then Ether_OK \<lparr>octet = concat (map group_octets gs)\<rparr>
      else if length gs < 3 then Ether_Fault else Ether_NULL)"
proof -
  have "gs \<noteq> []" using assms(1) by auto
  then show ?thesis using assms by (simp add: ether_aton_def ether_loop_words)
qed

lemma ether_aton_words_witness:
  "ether_aton (ether_join 46 [[49, 48, 50], [48], [102, 70]]) = Ether_OK \<lparr>octet = [1, 2, 0, 0, 0, 255]\<rparr>"
  using ether_aton_words [of "[[49, 48, 50], [48], [102, 70]]"]
  by (simp add: word_group_def group_octets_def hex_group_def group_value_def c_isxdigit_def hex_value_def)

lemma ether_hex_nibble:
  assumes "d < 16"
  shows "c_isxdigit (ether_hex d) \<and> hex_value (ether_hex d) = d"
  by (rule small_byte_exhaust [where n = 16]) (use assms in simp, simp, code_simp)

lemma ether_hex_digit:
  "c_isxdigit (ether_hex (drop_bit 4 (c AND 240))) \<and> c_isxdigit (ether_hex (c AND 15)) \<and>
   group_value [ether_hex (drop_bit 4 (c AND 240)), ether_hex (c AND 15)] = uint c"
proof -
  have hi: "drop_bit 4 (c AND 240) = drop_bit 4 c"
  proof (rule bit_word_eqI)
    fix n assume "n < LENGTH(8)"
    have *: "(240 :: byte) = push_bit 4 (mask 4)" by code_simp
    show "bit (drop_bit 4 (c AND 240)) n = bit (drop_bit 4 c) n"
      unfolding * using bit_imp_le_length [of c "4 + n"]
      by (auto simp: bit_drop_bit_eq bit_and_iff bit_push_bit_iff bit_mask_iff)
  qed
  have *: "(15 :: byte) = mask 4" by code_simp
  have lo: "c AND 15 = take_bit 4 c"
    unfolding * by (rule take_bit_eq_mask [symmetric])
  have "uint (drop_bit 4 c) = uint c div 16" "uint (take_bit 4 c) = uint c mod 16"
    by (simp_all add: unsigned_drop_bit_eq unsigned_take_bit_eq drop_bit_eq_div take_bit_eq_mod
        uint_div uint_mod)
  moreover have "drop_bit 4 c < 16" "take_bit 4 c < 16"
    using calculation uint_lt2p [of c] by (auto simp: word_less_def)
  ultimately show ?thesis
    unfolding hi lo using ether_hex_nibble by (auto simp: group_value_def)
qed

lemma length_six: "length xs = 6 \<longleftrightarrow> (\<exists>a b c d e f. xs = [a, b, c, d, e, f])"
  by (auto simp: numeral_eq_Suc length_Suc_conv)

text \<open>
  C21. Printing and parsing an address are inverse: \<^verbatim>\<open>ether_aton\<close> reads back every address that
  \<^verbatim>\<open>ether_ntoa\<close> wrote.
\<close>

theorem ether_roundtrip:
  assumes "length (octet a) = ETHER_ADDR_LEN"
  shows "ether_aton (ether_ntoa a) = Ether_OK a"
proof -
  let ?g = "\<lambda>c. [ether_hex (drop_bit 4 (c AND 240)), ether_hex (c AND 15)]"
  have ok: "octet_group (?g c)" "word_of_int (group_value (?g c)) = c" for c
    using ether_hex_digit [of c] uint_lt2p [of c]
    by (auto simp: octet_group_def hex_group_def)
  have "ether_ntoa a = ether_join 58 (map ?g (octet a))"
    using assms by (auto simp: length_six ether_ntoa_def upt_conv_Cons)
  moreover have "list_all octet_group (map ?g (octet a))" using ok(1) by (simp add: list_all_iff)
  moreover have "map (word_of_int \<circ> group_value) (map ?g (octet a)) = octet a"
    using ok(2) by (simp add: map_idI)
  moreover have "map ?g (octet a) \<noteq> []" using assms by auto
  ultimately show ?thesis
    using ether_loop_octets [of "map ?g (octet a)" 58 "replicate 6 0" 0] assms
    by (simp add: ether_aton_def)
qed

lemma ether_roundtrip_witness:
  "ether_aton (ether_ntoa \<lparr>octet = [0, 1, 171, 255, 16, 9]\<rparr>) = Ether_OK \<lparr>octet = [0, 1, 171, 255, 16, 9]\<rparr>"
  by (rule ether_roundtrip) simp

end
