(* ===== verification/QSort.thy ===== *)
theory QSort
  imports Prelude
begin

text \<open>
  \<^verbatim>\<open>ctables/ctable_qsort.c\<close>: the sort that orders the rows a search collected.  An array of
  elements of size \<^verbatim>\<open>es\<close> is a list, and a pointer into it the index of its element, so that
  \<^verbatim>\<open>p + es\<close> is the next index; the code sorts the segment of \<open>n\<close> elements that starts at \<open>lo\<close>
  (\<^verbatim>\<open>a\<close>) of one array, in place.  The comparison function, with its thunk argument applied, is a
  parameter.  How \<^verbatim>\<open>swapfunc\<close> moves the bytes of two elements (by \<^verbatim>\<open>long\<close> or by \<^verbatim>\<open>char\<close>) is not
  modelled: an exchange is one step.
\<close>

section \<open>The code\<close>

definition swap :: "'a list \<Rightarrow> nat \<Rightarrow> nat \<Rightarrow> 'a list" where
  "swap xs i j = xs[i := xs ! j, j := xs ! i]"

text \<open>\<^verbatim>\<open>vecswap\<close>: element by element, upwards.\<close>

fun vecswap :: "'a list \<Rightarrow> nat \<Rightarrow> nat \<Rightarrow> nat \<Rightarrow> 'a list" where
  "vecswap xs i j 0 = xs"
| "vecswap xs i j (Suc r) = vecswap (swap xs i j) (Suc i) (Suc j) r"

definition med3 :: "'a cmp_t \<Rightarrow> 'a list \<Rightarrow> nat \<Rightarrow> nat \<Rightarrow> nat \<Rightarrow> nat" where
  "med3 cmp xs a b c =
     (if cmp (xs ! a) (xs ! b) < 0
      then (if cmp (xs ! b) (xs ! c) < 0 then b else if cmp (xs ! a) (xs ! c) < 0 then c else a)
      else (if cmp (xs ! b) (xs ! c) > 0 then b else if cmp (xs ! a) (xs ! c) < 0 then a else c))"

text \<open>The insertion sort, which occurs twice in the code with the same text.\<close>

fun insert_down :: "'a cmp_t \<Rightarrow> nat \<Rightarrow> nat \<Rightarrow> 'a list \<Rightarrow> 'a list" where
  "insert_down cmp lo 0 xs = xs"
| "insert_down cmp lo (Suc pl) xs =
     (if Suc pl > lo \<and> cmp (xs ! pl) (xs ! Suc pl) > 0
      then insert_down cmp lo pl (swap xs (Suc pl) pl) else xs)"

definition insertion_sort :: "'a cmp_t \<Rightarrow> nat \<Rightarrow> nat \<Rightarrow> 'a list \<Rightarrow> 'a list" where
  "insertion_sort cmp lo n xs = fold (insert_down cmp lo) [Suc lo..<lo + n] xs"

text \<open>The choice of the pivot: the middle, the median of three, or the median of three medians.\<close>

definition choose_pivot :: "'a cmp_t \<Rightarrow> nat \<Rightarrow> nat \<Rightarrow> 'a list \<Rightarrow> nat" where
  "choose_pivot cmp lo n xs =
     (let pm = lo + n div 2
      in if n > 7
         then let pl = lo; pn = lo + (n - 1)
              in if n > 40
                 then let d = n div 8;
                          pl' = med3 cmp xs pl (pl + d) (pl + 2 * d);
                          pm' = med3 cmp xs (pm - d) pm (pm + d);
                          pn' = med3 cmp xs (pn - 2 * d) (pn - d) pn
                      in med3 cmp xs pl' pm' pn'
                 else med3 cmp xs pl pm pn
         else pm)"

text \<open>
  The two scanning loops of the partition and the loop around them.  The state holds the array, the
  four pointers and \<^verbatim>\<open>swap_cnt\<close>.  (\<^verbatim>\<open>pc\<close> is never 0 where it is decremented, because
  \<^verbatim>\<open>pb\<close> starts behind \<^verbatim>\<open>a\<close>; the test of it in \<open>scan_down\<close> is there because an index, unlike
  a pointer, cannot go below 0.)
\<close>

record 'a part =
  arr :: "'a list"
  pa :: nat
  pb :: nat
  pc :: nat
  pd :: nat
  swap_cnt :: bool

function scan_up :: "'a cmp_t \<Rightarrow> nat \<Rightarrow> 'a part \<Rightarrow> 'a part" where
  "scan_up cmp lo s =
     (if pb s \<le> pc s \<and> cmp (arr s ! pb s) (arr s ! lo) \<le> 0
      then scan_up cmp lo
             (if cmp (arr s ! pb s) (arr s ! lo) = 0
              then s\<lparr>arr := swap (arr s) (pa s) (pb s), pa := Suc (pa s), swap_cnt := True, pb := Suc (pb s)\<rparr>
              else s\<lparr>pb := Suc (pb s)\<rparr>)
      else s)"
  by pat_completeness auto
termination by (relation "measure (\<lambda>(_, _, s). Suc (pc s) - pb s)") auto

function scan_down :: "'a cmp_t \<Rightarrow> nat \<Rightarrow> 'a part \<Rightarrow> 'a part" where
  "scan_down cmp lo s =
     (if pb s \<le> pc s \<and> 0 < pc s \<and> cmp (arr s ! pc s) (arr s ! lo) \<ge> 0
      then scan_down cmp lo
             (if cmp (arr s ! pc s) (arr s ! lo) = 0
              then s\<lparr>arr := swap (arr s) (pc s) (pd s), pd := pd s - 1, swap_cnt := True, pc := pc s - 1\<rparr>
              else s\<lparr>pc := pc s - 1\<rparr>)
      else s)"
  by pat_completeness auto
termination by (relation "measure (\<lambda>(_, _, s). pc s)") auto

declare scan_up.simps [simp del] scan_down.simps [simp del]

lemma scan_up_pc [simp]: "pc (scan_up cmp lo s) = pc s" "pd (scan_up cmp lo s) = pd s"
  by (induction cmp lo s rule: scan_up.induct; subst scan_up.simps; simp)+

lemma scan_up_pb: "pb s \<le> pb (scan_up cmp lo s)"
proof (induction cmp lo s rule: scan_up.induct)
  case (1 cmp lo s)
  then show ?case by (subst scan_up.simps) (force split: if_splits)
qed

lemma scan_down_pb [simp]: "pb (scan_down cmp lo s) = pb s" "pa (scan_down cmp lo s) = pa s"
  by (induction cmp lo s rule: scan_down.induct; subst scan_down.simps; simp)+

lemma scan_down_pc: "pc (scan_down cmp lo s) \<le> pc s"
proof (induction cmp lo s rule: scan_down.induct)
  case (1 cmp lo s)
  then show ?case by (subst scan_down.simps) (force split: if_splits)
qed

function partition_loop :: "'a cmp_t \<Rightarrow> nat \<Rightarrow> 'a part \<Rightarrow> 'a part" where
  "partition_loop cmp lo s =
     (let s1 = scan_down cmp lo (scan_up cmp lo s)
      in if pb s1 > pc s1 then s1
         else partition_loop cmp lo
                (s1\<lparr>arr := swap (arr s1) (pb s1) (pc s1), swap_cnt := True,
                    pb := Suc (pb s1), pc := pc s1 - 1\<rparr>))"
  by pat_completeness auto
termination
proof (relation "measure (\<lambda>(_, _, s). Suc (pc s) - pb s)", goal_cases)
  case (2 cmp lo s s1)
  have "pb s \<le> pb s1" "pc s1 \<le> pc s"
    using scan_up_pb [of s cmp lo] scan_down_pc [of cmp lo "scan_up cmp lo s"] 2(1) by simp_all
  then show ?case using 2(2) by simp
qed simp

declare partition_loop.simps [simp del]

text \<open>Induction rules for the loops: what every round preserves holds at the end.\<close>

lemma scan_up_inv:
  assumes "P s"
    and "\<And>s. \<lbrakk>P s; pb s \<le> pc s; cmp (arr s ! pb s) (arr s ! lo) = 0\<rbrakk> \<Longrightarrow>
      P (s\<lparr>arr := swap (arr s) (pa s) (pb s), pa := Suc (pa s), swap_cnt := True, pb := Suc (pb s)\<rparr>)"
    and "\<And>s. \<lbrakk>P s; pb s \<le> pc s; cmp (arr s ! pb s) (arr s ! lo) < 0\<rbrakk> \<Longrightarrow> P (s\<lparr>pb := Suc (pb s)\<rparr>)"
  shows "P (scan_up cmp lo s)"
  using assms
proof (induction cmp lo s rule: scan_up.induct)
  case (1 cmp lo s)
  show ?case
  proof (cases "pb s \<le> pc s \<and> cmp (arr s ! pb s) (arr s ! lo) \<le> 0")
    case True
    then show ?thesis
      using "1.IH" [OF True] "1.prems" by (subst scan_up.simps) (auto split: if_splits)
  next
    case False
    then show ?thesis using "1.prems"(1) by (subst scan_up.simps) auto
  qed
qed

lemma scan_up_stop:
  "\<not> (pb (scan_up cmp lo s) \<le> pc s
      \<and> cmp (arr (scan_up cmp lo s) ! pb (scan_up cmp lo s)) (arr (scan_up cmp lo s) ! lo) \<le> 0)"
proof (induction cmp lo s rule: scan_up.induct)
  case (1 cmp lo s)
  show ?case
  proof (cases "pb s \<le> pc s \<and> cmp (arr s ! pb s) (arr s ! lo) \<le> 0")
    case True
    then show ?thesis
      using "1.IH" [OF True] by (simp add: scan_up.simps [of cmp lo s] split: if_splits)
  next
    case False
    then have "scan_up cmp lo s = s" by (subst scan_up.simps) auto
    then show ?thesis using False by simp
  qed
qed

lemma scan_down_inv:
  assumes "P s"
    and "\<And>s. \<lbrakk>P s; pb s \<le> pc s; 0 < pc s; cmp (arr s ! pc s) (arr s ! lo) = 0\<rbrakk> \<Longrightarrow>
      P (s\<lparr>arr := swap (arr s) (pc s) (pd s), pd := pd s - 1, swap_cnt := True, pc := pc s - 1\<rparr>)"
    and "\<And>s. \<lbrakk>P s; pb s \<le> pc s; 0 < pc s; cmp (arr s ! pc s) (arr s ! lo) > 0\<rbrakk> \<Longrightarrow> P (s\<lparr>pc := pc s - 1\<rparr>)"
  shows "P (scan_down cmp lo s)"
  using assms
proof (induction cmp lo s rule: scan_down.induct)
  case (1 cmp lo s)
  show ?case
  proof (cases "pb s \<le> pc s \<and> 0 < pc s \<and> cmp (arr s ! pc s) (arr s ! lo) \<ge> 0")
    case True
    then show ?thesis
      using "1.IH" [OF True] "1.prems" by (subst scan_down.simps) (auto split: if_splits)
  next
    case False
    then show ?thesis using "1.prems"(1) by (subst scan_down.simps) auto
  qed
qed

lemma scan_down_stop:
  "\<not> (pb s \<le> pc (scan_down cmp lo s) \<and> 0 < pc (scan_down cmp lo s)
      \<and> cmp (arr (scan_down cmp lo s) ! pc (scan_down cmp lo s)) (arr (scan_down cmp lo s) ! lo) \<ge> 0)"
proof (induction cmp lo s rule: scan_down.induct)
  case (1 cmp lo s)
  show ?case
  proof (cases "pb s \<le> pc s \<and> 0 < pc s \<and> cmp (arr s ! pc s) (arr s ! lo) \<ge> 0")
    case True
    then show ?thesis
      using "1.IH" [OF True] by (simp add: scan_down.simps [of cmp lo s] split: if_splits)
  next
    case False
    then have "scan_down cmp lo s = s" by (subst scan_down.simps) auto
    then show ?thesis using False by simp
  qed
qed

lemma partition_loop_inv:
  assumes "P s"
    and "\<And>s. P s \<Longrightarrow> P (scan_down cmp lo (scan_up cmp lo s))"
    and "\<And>s s1. \<lbrakk>s1 = scan_down cmp lo (scan_up cmp lo s); P s; P s1; pb s1 \<le> pc s1\<rbrakk> \<Longrightarrow>
      P (s1\<lparr>arr := swap (arr s1) (pb s1) (pc s1), swap_cnt := True, pb := Suc (pb s1), pc := pc s1 - 1\<rparr>)"
  shows "P (partition_loop cmp lo s)"
  using assms
proof (induction cmp lo s rule: partition_loop.induct)
  case (1 cmp lo s)
  define s1 where "s1 = scan_down cmp lo (scan_up cmp lo s)"
  have s1: "P s1" unfolding s1_def using "1.prems" by blast
  show ?case
  proof (cases "pb s1 > pc s1")
    case True
    then show ?thesis using s1 by (subst partition_loop.simps) (simp flip: s1_def)
  next
    case False
    then have "P (s1\<lparr>arr := swap (arr s1) (pb s1) (pc s1), swap_cnt := True, pb := Suc (pb s1), pc := pc s1 - 1\<rparr>)"
      using "1.prems"(3) [OF s1_def "1.prems"(1) s1] by simp
    then have "P (partition_loop cmp lo
        (s1\<lparr>arr := swap (arr s1) (pb s1) (pc s1), swap_cnt := True, pb := Suc (pb s1), pc := pc s1 - 1\<rparr>))"
      using "1.IH" [OF s1_def False] "1.prems" by blast
    then show ?thesis using False by (subst partition_loop.simps) (simp flip: s1_def)
  qed
qed

lemma partition_loop_end: "pc (partition_loop cmp lo s) < pb (partition_loop cmp lo s)"
proof (induction cmp lo s rule: partition_loop.induct)
  case (1 cmp lo s)
  show ?case
  proof (cases "pc (scan_down cmp lo (scan_up cmp lo s)) < pb (scan_down cmp lo (scan_up cmp lo s))")
    case True
    then show ?thesis by (simp add: partition_loop.simps [of cmp lo s])
  next
    case False
    then show ?thesis using "1.IH" [OF refl False] by (simp add: partition_loop.simps [of cmp lo s] Let_def)
  qed
qed

definition part_start :: "nat \<Rightarrow> nat \<Rightarrow> 'a list \<Rightarrow> 'a part" where
  "part_start lo n xs = \<lparr>arr = xs, pa = Suc lo, pb = Suc lo, pc = lo + (n - 1), pd = lo + (n - 1), swap_cnt = False\<rparr>"

text \<open>
  The pointers stay inside the segment whatever the comparison function answers, so the two
  segments that are sorted next are shorter than the one at hand.
\<close>

definition inside :: "nat \<Rightarrow> nat \<Rightarrow> 'a part \<Rightarrow> bool" where
  "inside lo hi s \<longleftrightarrow> lo < pa s \<and> pa s \<le> pb s \<and> pb s \<le> hi \<and> lo \<le> pc s \<and> pc s \<le> pd s \<and> pd s < hi
     \<and> pb s \<le> Suc (Suc (pc s))"

lemma inside_scan_up: "inside lo hi s \<Longrightarrow> inside lo hi (scan_up cmp lo s)"
  by (erule scan_up_inv) (auto simp: inside_def)

lemma inside_scan_down: "inside lo hi s \<Longrightarrow> inside lo hi (scan_down cmp lo s)"
  by (erule scan_down_inv) (auto simp: inside_def)

lemma inside_partition: "inside lo hi s \<Longrightarrow> inside lo hi (partition_loop cmp lo s)"
  by (erule partition_loop_inv)
    (auto intro!: inside_scan_down inside_scan_up, auto simp: inside_def)

lemma inside_start: "7 \<le> n \<Longrightarrow> inside lo (lo + n) (part_start lo n xs)"
  by (simp add: inside_def part_start_def)

lemma part_sizes:
  assumes "7 \<le> n" "s = partition_loop cmp lo (part_start lo n xs)"
  shows "pb s - pa s < n" "pd s - pc s < n"
  using inside_partition [OF inside_start [OF assms(1), of lo xs], of cmp] assms(2)
  by (auto simp: inside_def)

text \<open>The two vector exchanges that bring the elements equal to the pivot into the middle.\<close>

definition swap_middle :: "nat \<Rightarrow> nat \<Rightarrow> 'a part \<Rightarrow> 'a list" where
  "swap_middle lo pn s =
     (let r1 = min (pa s - lo) (pb s - pa s);
          xs1 = vecswap (arr s) lo (pb s - r1) r1;
          r2 = min (pd s - pc s) (pn - pd s - 1)
      in vecswap xs1 (pb s) (pn - r2) r2)"

text \<open>\<^verbatim>\<open>ctable_qsort_r\<close>; the jump back to \<^verbatim>\<open>loop\<close> is a second recursive call.\<close>

function ctable_qsort_r :: "'a cmp_t \<Rightarrow> nat \<Rightarrow> nat \<Rightarrow> 'a list \<Rightarrow> 'a list" where
  "ctable_qsort_r cmp lo n xs =
     (if n < 7 then insertion_sort cmp lo n xs
      else let s = partition_loop cmp lo (part_start lo n (swap xs lo (choose_pivot cmp lo n xs)))
           in if \<not> swap_cnt s then insertion_sort cmp lo n (arr s)
              else let pn = lo + n;
                       xs2 = swap_middle lo pn s;
                       r = pb s - pa s;
                       xs3 = (if r > 1 then ctable_qsort_r cmp lo r xs2 else xs2);
                       r' = pd s - pc s
                   in if r' > 1 then ctable_qsort_r cmp (pn - r') r' xs3 else xs3)"
  by pat_completeness auto
termination
  by (relation "measure (\<lambda>(_, _, n, _). n)") (auto simp: not_less intro!: part_sizes [OF _ refl])

declare ctable_qsort_r.simps [simp del]

section \<open>Exchanges inside a segment\<close>

lemma length_swap [simp]: "length (swap xs i j) = length xs"
  by (simp add: swap_def)

lemma swap_nth [simp]:
  "i < length xs \<Longrightarrow> j < length xs \<Longrightarrow> swap xs i j ! k = (if k = j then xs ! i else if k = i then xs ! j else xs ! k)"
  by (auto simp: swap_def nth_list_update)

lemma mset_swap_eq [simp]: "i < length xs \<Longrightarrow> j < length xs \<Longrightarrow> mset (swap xs i j) = mset xs"
  by (simp add: swap_def mset_swap)

text \<open>Two arrays that differ by exchanges of positions inside \<open>[lo, hi)\<close>.\<close>

inductive exchanged :: "nat \<Rightarrow> nat \<Rightarrow> 'a list \<Rightarrow> 'a list \<Rightarrow> bool" for lo hi where
  exch_refl [simp, intro]: "exchanged lo hi xs xs"
| exch_step: "\<lbrakk>exchanged lo hi xs ys; lo \<le> i; i < hi; lo \<le> j; j < hi; hi \<le> length ys\<rbrakk>
    \<Longrightarrow> exchanged lo hi xs (swap ys i j)"

inductive_cases exchangedE: "exchanged lo hi xs ys"

lemma exchanged_swap:
  "\<lbrakk>lo \<le> i; i < hi; lo \<le> j; j < hi; hi \<le> length xs\<rbrakk> \<Longrightarrow> exchanged lo hi xs (swap xs i j)"
  by (rule exchanged.exch_step [OF exchanged.exch_refl])

lemma exchanged_length: "exchanged lo hi xs ys \<Longrightarrow> length ys = length xs"
  by (induction rule: exchanged.induct) auto

lemma exchanged_mset: "exchanged lo hi xs ys \<Longrightarrow> mset ys = mset xs"
  by (induction rule: exchanged.induct) auto

lemma exchanged_outside: "exchanged lo hi xs ys \<Longrightarrow> k < lo \<or> hi \<le> k \<Longrightarrow> ys ! k = xs ! k"
  by (induction rule: exchanged.induct) auto

lemma exchanged_trans: "exchanged lo hi ys zs \<Longrightarrow> exchanged lo hi xs ys \<Longrightarrow> exchanged lo hi xs zs"
  by (induction rule: exchanged.induct) (auto intro: exchanged.exch_step)

lemma exchanged_mono: "exchanged lo hi xs ys \<Longrightarrow> lo' \<le> lo \<Longrightarrow> hi \<le> hi' \<Longrightarrow> hi' \<le> length xs \<Longrightarrow> exchanged lo' hi' xs ys"
  by (induction rule: exchanged.induct)
    (auto intro!: exchanged.exch_step dest: exchanged_length)

text \<open>What holds of every element of the segment still does afterwards.\<close>

lemma exchanged_all:
  "exchanged lo hi xs ys \<Longrightarrow> \<forall>k. lo \<le> k \<and> k < hi \<longrightarrow> P (xs ! k) \<Longrightarrow> lo \<le> k \<Longrightarrow> k < hi \<Longrightarrow> P (ys ! k)"
  by (induction arbitrary: k rule: exchanged.induct) auto

lemma vecswap_exchanged:
  "\<lbrakk>lo \<le> i; i + r \<le> hi; lo \<le> j; j + r \<le> hi; hi \<le> length xs\<rbrakk> \<Longrightarrow> exchanged lo hi xs (vecswap xs i j r)"
proof (induction xs i j r rule: vecswap.induct)
  case (2 xs i j r)
  then show ?case by (auto intro: exchanged_trans [OF _ exchanged_swap])
qed simp

lemma length_vecswap [simp]: "length (vecswap xs i j r) = length xs"
  by (induction xs i j r rule: vecswap.induct) auto

lemma vecswap_nth:
  "\<lbrakk>i + r \<le> j; j + r \<le> length xs\<rbrakk> \<Longrightarrow> vecswap xs i j r ! k =
     (if i \<le> k \<and> k < i + r then xs ! (j + (k - i))
      else if j \<le> k \<and> k < j + r then xs ! (i + (k - j)) else xs ! k)"
proof (induction xs i j r rule: vecswap.induct)
  case (2 xs i j r)
  then show ?case
    by (auto simp: Suc_diff_le not_less_eq_eq le_Suc_eq intro!: arg_cong [where f = "(!) xs"])
qed auto

text \<open>Exchanging the shorter of two adjacent blocks with the far end of the other swaps the blocks.\<close>

lemma vecswap_blocks:
  assumes "i \<le> m" "m \<le> h" "h \<le> length xs" and r: "r = min (m - i) (h - m)"
    and P: "\<And>k. i \<le> k \<Longrightarrow> k < m \<Longrightarrow> P (xs ! k)" and Q: "\<And>k. m \<le> k \<Longrightarrow> k < h \<Longrightarrow> Q (xs ! k)"
  shows "i \<le> k \<Longrightarrow> k < i + (h - m) \<Longrightarrow> Q (vecswap xs i (h - r) r ! k)"
    and "i + (h - m) \<le> k \<Longrightarrow> k < h \<Longrightarrow> P (vecswap xs i (h - r) r ! k)"
    and "k < i \<or> h \<le> k \<Longrightarrow> vecswap xs i (h - r) r ! k = xs ! k"
    and "exchanged i h xs (vecswap xs i (h - r) r)"
proof -
  have b: "i + r \<le> h - r" "h - r + r \<le> length xs" using assms(1-4) by linarith+
  note nth = vecswap_nth [OF b]
  show "i \<le> k \<Longrightarrow> k < i + (h - m) \<Longrightarrow> Q (vecswap xs i (h - r) r ! k)"
    using assms(1-4) unfolding nth by (cases "m - i \<le> h - m") (auto intro!: Q)
  show "i + (h - m) \<le> k \<Longrightarrow> k < h \<Longrightarrow> P (vecswap xs i (h - r) r ! k)"
    using assms(1-4) unfolding nth by (cases "m - i \<le> h - m") (auto intro!: P)
  show "k < i \<or> h \<le> k \<Longrightarrow> vecswap xs i (h - r) r ! k = xs ! k"
    using b unfolding nth by auto
  show "exchanged i h xs (vecswap xs i (h - r) r)"
    by (rule vecswap_exchanged) (use assms in auto)
qed

section \<open>Insertion sort, for any comparison function\<close>

lemma insert_down_exchanged:
  "pl < hi \<Longrightarrow> hi \<le> length xs \<Longrightarrow> lo \<le> pl \<Longrightarrow> exchanged lo hi xs (insert_down cmp lo pl xs)"
proof (induction pl arbitrary: xs)
  case (Suc pl)
  show ?case
  proof (cases "Suc pl > lo \<and> cmp (xs ! pl) (xs ! Suc pl) > 0")
    case True
    then have "exchanged lo hi (swap xs (Suc pl) pl) (insert_down cmp lo pl (swap xs (Suc pl) pl))"
      using Suc.prems by (intro Suc.IH) auto
    moreover have "exchanged lo hi xs (swap xs (Suc pl) pl)"
      using Suc.prems True by (intro exchanged_swap) auto
    ultimately show ?thesis using True by (simp add: exchanged_trans)
  next
    case False
    then show ?thesis by (subst insert_down.simps) auto
  qed
qed simp

declare insert_down.simps [simp del]

lemma insertion_sort_snoc:
  "insertion_sort cmp lo (Suc (Suc n)) xs = insert_down cmp lo (lo + Suc n) (insertion_sort cmp lo (Suc n) xs)"
  by (simp add: insertion_sort_def)

lemma insertion_sort_small [simp]: "insertion_sort cmp lo 0 xs = xs" "insertion_sort cmp lo (Suc 0) xs = xs"
  by (simp_all add: insertion_sort_def)

lemma insertion_sort_exchanged:
  "lo + n \<le> hi \<Longrightarrow> hi \<le> length xs \<Longrightarrow> exchanged lo hi xs (insertion_sort cmp lo n xs)"
proof (induction n)
  case (Suc n)
  show ?case
  proof (cases n)
    case (Suc k)
    have "exchanged lo hi xs (insertion_sort cmp lo n xs)" using Suc.IH Suc.prems by simp
    moreover from this have "length (insertion_sort cmp lo n xs) = length xs" by (rule exchanged_length)
    ultimately show ?thesis
      using Suc Suc.prems by (auto simp: insertion_sort_snoc intro!: exchanged_trans [OF insert_down_exchanged])
  qed simp
qed simp

section \<open>The sort only rearranges its segment, for any comparison function\<close>

lemma med3_cases: "med3 cmp xs a b c = a \<or> med3 cmp xs a b c = b \<or> med3 cmp xs a b c = c"
  by (simp add: med3_def)

lemma choose_pivot_inside:
  assumes "7 \<le> n"
  shows "lo \<le> choose_pivot cmp lo n xs" "choose_pivot cmp lo n xs < lo + n"
proof -
  have pick: "lo \<le> med3 cmp xs a b c \<and> med3 cmp xs a b c < lo + n"
    if "lo \<le> a \<and> a < lo + n" "lo \<le> b \<and> b < lo + n" "lo \<le> c \<and> c < lo + n" for a b c
    using med3_cases [of cmp xs a b c] that by auto
  have "8 * (n div 8) \<le> n" "2 * (n div 2) \<le> n" "n < 2 * (n div 2) + 2" "n div 8 \<le> n div 2" by auto
  then have "lo \<le> choose_pivot cmp lo n xs \<and> choose_pivot cmp lo n xs < lo + n"
    using assms by (auto simp: choose_pivot_def Let_def intro!: pick [THEN conjunct1] pick [THEN conjunct2])
  then show "lo \<le> choose_pivot cmp lo n xs" "choose_pivot cmp lo n xs < lo + n" by auto
qed

lemma partition_exchanged:
  assumes "inside lo hi s" "hi \<le> length (arr s)"
  shows "exchanged lo hi (arr s) (arr (partition_loop cmp lo s))"
proof -
  let ?P = "\<lambda>t. inside lo hi t \<and> exchanged lo hi (arr s) (arr t) \<and> hi \<le> length (arr t)"
  have up: "?P (scan_up cmp lo t)" if "?P t" for t
    by (rule scan_up_inv [where P = ?P, OF that]) (auto simp: inside_def intro!: exchanged.exch_step)
  have down: "?P (scan_down cmp lo t)" if "?P t" for t
    by (rule scan_down_inv [where P = ?P, OF that]) (auto simp: inside_def intro!: exchanged.exch_step)
  have "?P (partition_loop cmp lo s)"
  proof (rule partition_loop_inv [where P = ?P], goal_cases)
    case (3 t t1)
    then show ?case by (auto simp: inside_def intro!: exchanged.exch_step)
  qed (use assms up down in auto)
  then show ?thesis by simp
qed

lemma swap_middle_exchanged:
  assumes "inside lo hi s" "hi \<le> length (arr s)"
  shows "exchanged lo hi (arr s) (swap_middle lo hi s)"
proof -
  define r1 where "r1 = min (pa s - lo) (pb s - pa s)"
  define r2 where "r2 = min (pd s - pc s) (hi - pd s - 1)"
  define xs1 where "xs1 = vecswap (arr s) lo (pb s - r1) r1"
  have ex1: "exchanged lo hi (arr s) xs1" unfolding xs1_def
    by (rule vecswap_exchanged) (use assms in \<open>auto simp: inside_def r1_def min_def\<close>)
  have "exchanged lo hi xs1 (vecswap xs1 (pb s) (hi - r2) r2)"
  proof (cases "r2 = 0")
    case False
    then have "pb s + r2 \<le> hi" "lo \<le> hi - r2"
      using assms(1) by (auto simp: inside_def r2_def min_def split: if_splits)
    then show ?thesis using assms exchanged_length [OF ex1]
      by (intro vecswap_exchanged) (auto simp: inside_def r2_def)
  qed simp
  then show ?thesis
    using ex1 exchanged_trans unfolding swap_middle_def xs1_def r1_def r2_def Let_def by blast
qed

text \<open>One level of the sort up to its recursive calls.\<close>

lemma qsort_prepare:
  assumes "7 \<le> n" "lo + n \<le> length xs"
    and "s = partition_loop cmp lo (part_start lo n (swap xs lo (choose_pivot cmp lo n xs)))"
  shows "inside lo (lo + n) s" "exchanged lo (lo + n) xs (arr s)" "lo + n \<le> length (arr s)"
proof -
  note start = inside_start [OF assms(1), of lo "swap xs lo (choose_pivot cmp lo n xs)"]
  show "inside lo (lo + n) s" using inside_partition [OF start] assms(3) by simp
  have "exchanged lo (lo + n) xs (swap xs lo (choose_pivot cmp lo n xs))"
    using choose_pivot_inside [OF assms(1)] assms by (intro exchanged_swap) auto
  moreover have "exchanged lo (lo + n) (swap xs lo (choose_pivot cmp lo n xs)) (arr s)"
    using partition_exchanged [OF start, of cmp] assms by (simp add: part_start_def)
  ultimately show *: "exchanged lo (lo + n) xs (arr s)" by (blast intro: exchanged_trans)
  show "lo + n \<le> length (arr s)" using exchanged_length [OF *] assms(2) by simp
qed

lemma qsort_exchanged:
  "lo + n \<le> length xs \<Longrightarrow> exchanged lo (lo + n) xs (ctable_qsort_r cmp lo n xs)"
proof (induction cmp lo n xs rule: ctable_qsort_r.induct)
  case (1 cmp lo n xs)
  define s where "s = partition_loop cmp lo (part_start lo n (swap xs lo (choose_pivot cmp lo n xs)))"
  consider "n < 7" | "7 \<le> n" "\<not> swap_cnt s" | "7 \<le> n" "swap_cnt s" by linarith
  then show ?case
  proof cases
    case 1
    then show ?thesis using "1.prems" by (subst ctable_qsort_r.simps) (simp add: insertion_sort_exchanged)
  next
    case 2
    note p = qsort_prepare [OF 2(1) "1.prems" s_def]
    have "exchanged lo (lo + n) (arr s) (insertion_sort cmp lo n (arr s))"
      using p by (intro insertion_sort_exchanged) auto
    then show ?thesis using p(2) 2
      by (subst ctable_qsort_r.simps) (simp add: exchanged_trans flip: s_def)
  next
    case 3
    note p = qsort_prepare [OF 3(1) "1.prems" s_def]
    define xs2 where "xs2 = swap_middle lo (lo + n) s"
    define r where "r = pb s - pa s"
    define xs3 where "xs3 = (if r > 1 then ctable_qsort_r cmp lo r xs2 else xs2)"
    define r' where "r' = pd s - pc s"
    have sz: "lo + r \<le> lo + n" "r' \<le> n" using p(1) by (auto simp: inside_def r_def r'_def)
    have ex2: "exchanged lo (lo + n) xs xs2"
      using swap_middle_exchanged [OF p(1, 3)] p(2) exchanged_trans unfolding xs2_def by blast
    have len2: "lo + n \<le> length xs2" using exchanged_length [OF ex2] "1.prems" by simp
    have ex3: "exchanged lo (lo + r) xs2 xs3"
      using "1.IH"(1) [OF _ s_def _ refl xs2_def r_def] 3 len2 sz by (simp add: xs3_def)
    then have len3: "lo + n \<le> length xs3" using len2 exchanged_length by metis
    have "exchanged (lo + n - r') (lo + n) xs3 (if r' > 1 then ctable_qsort_r cmp (lo + n - r') r' xs3 else xs3)"
      using "1.IH"(2) [OF _ s_def _ refl xs2_def r_def xs3_def r'_def] 3 len3 sz by simp
    then have "exchanged lo (lo + n) xs3 (if r' > 1 then ctable_qsort_r cmp (lo + n - r') r' xs3 else xs3)"
      using len3 sz by (auto intro: exchanged_mono)
    moreover have "exchanged lo (lo + n) xs2 xs3" using ex3 sz len2 by (auto intro: exchanged_mono)
    ultimately have "exchanged lo (lo + n) xs (if r' > 1 then ctable_qsort_r cmp (lo + n - r') r' xs3 else xs3)"
      using ex2 by (blast intro: exchanged_trans)
    moreover have "ctable_qsort_r cmp lo n xs = (if r' > 1 then ctable_qsort_r cmp (lo + n - r') r' xs3 else xs3)"
      using 3 by (subst ctable_qsort_r.simps)
        (simp add: Let_def xs3_def xs2_def r_def r'_def flip: s_def)
    ultimately show ?thesis by simp
  qed
qed

section \<open>Sortedness, for a comparison function that is a preorder\<close>

context comparator
begin

definition sorted_seg :: "nat \<Rightarrow> nat \<Rightarrow> 'a list \<Rightarrow> bool" where
  "sorted_seg lo hi xs \<longleftrightarrow> (\<forall>i j. lo \<le> i \<and> i < j \<and> j < hi \<longrightarrow> cmp (xs ! i) (xs ! j) \<le> 0)"

lemma insert_down_sorted:
  assumes "\<And>i j. \<lbrakk>lo \<le> i; i < j; j \<le> pm; j \<noteq> pl\<rbrakk> \<Longrightarrow> cmp (xs ! i) (xs ! j) \<le> 0"
    and "lo \<le> pl" "pl \<le> pm" "pm < length xs"
  shows "sorted_seg lo (Suc pm) (insert_down cmp lo pl xs)"
  using assms
proof (induction pl arbitrary: xs)
  case 0
  then show ?case by (auto simp: sorted_seg_def less_Suc_eq_le insert_down.simps)
next
  case (Suc pl)
  show ?case
  proof (cases "Suc pl > lo \<and> cmp (xs ! pl) (xs ! Suc pl) > 0")
    case True
    then have "sorted_seg lo (Suc pm) (insert_down cmp lo pl (swap xs (Suc pl) pl))"
      using Suc.prems total [of "xs ! pl" "xs ! Suc pl"]
      by (intro Suc.IH) auto
    then show ?thesis using True by (simp add: insert_down.simps)
  next
    case False
    have "cmp (xs ! i) (xs ! Suc pl) \<le> 0" if "lo \<le> i" "i < Suc pl" for i
    proof (cases "i = pl")
      case True
      then show ?thesis using False that by auto
    next
      case i: False
      then have "cmp (xs ! i) (xs ! pl) \<le> 0" using Suc.prems that by auto
      then show ?thesis using False that i trans by (metis less_SucI less_le_trans not_less)
    qed
    then have "cmp (xs ! i) (xs ! j) \<le> 0" if "lo \<le> i" "i < j" "j \<le> pm" for i j
      using Suc.prems(1) that by (cases "j = Suc pl") auto
    then show ?thesis
      using False by (subst insert_down.simps) (auto simp: sorted_seg_def less_Suc_eq_le)
  qed
qed

lemma insertion_sort_sorted:
  "lo + n \<le> length xs \<Longrightarrow> sorted_seg lo (lo + n) (insertion_sort cmp lo n xs)"
proof (induction n)
  case 0
  then show ?case by (simp add: sorted_seg_def)
next
  case (Suc n)
  show ?case
  proof (cases n)
    case 0
    then show ?thesis by (auto simp: sorted_seg_def)
  next
    case (Suc k)
    have "length (insertion_sort cmp lo n xs) = length xs"
      by (rule exchanged_length [OF insertion_sort_exchanged]) (use Suc.prems in auto)
    then have "sorted_seg lo (Suc (lo + n)) (insert_down cmp lo (lo + n) (insertion_sort cmp lo n xs))"
      using Suc.IH Suc.prems by (intro insert_down_sorted) (auto simp: sorted_seg_def)
    then show ?thesis using Suc by (simp add: insertion_sort_snoc)
  qed
qed

text \<open>The partition: equal elements at both ends, smaller and larger ones next to them.\<close>

definition part_inv :: "nat \<Rightarrow> nat \<Rightarrow> 'a part \<Rightarrow> bool" where
  "part_inv lo hi s \<longleftrightarrow> inside lo hi s \<and> hi \<le> length (arr s) \<and> pb s \<le> Suc (pc s) \<and>
     (\<forall>k. lo \<le> k \<and> k < pa s \<longrightarrow> cmp (arr s ! k) (arr s ! lo) = 0) \<and>
     (\<forall>k. pa s \<le> k \<and> k < pb s \<longrightarrow> cmp (arr s ! k) (arr s ! lo) < 0) \<and>
     (\<forall>k. pc s < k \<and> k \<le> pd s \<longrightarrow> cmp (arr s ! k) (arr s ! lo) > 0) \<and>
     (\<forall>k. pd s < k \<and> k < hi \<longrightarrow> cmp (arr s ! k) (arr s ! lo) = 0)"

lemma part_inv_up: "part_inv lo hi s \<Longrightarrow> part_inv lo hi (scan_up cmp lo s)"
proof (erule scan_up_inv, goal_cases)
  case (1 s)
  then show ?case by (auto simp: part_inv_def inside_def less_Suc_eq)
next
  case (2 s)
  then show ?case by (auto simp: part_inv_def inside_def less_Suc_eq)
qed

lemma part_inv_step_down:
  assumes "part_inv lo hi s" "pb s \<le> pc s"
  shows "cmp (arr s ! pc s) (arr s ! lo) = 0 \<Longrightarrow>
      part_inv lo hi (s\<lparr>arr := swap (arr s) (pc s) (pd s), pd := pd s - 1, swap_cnt := True, pc := pc s - 1\<rparr>)"
    and "cmp (arr s ! pc s) (arr s ! lo) > 0 \<Longrightarrow> part_inv lo hi (s\<lparr>pc := pc s - 1\<rparr>)"
proof -
  have "0 < pc s" "0 < pd s" using assms by (auto simp: part_inv_def inside_def)
  then obtain c d where cd: "pc s = Suc c" "pd s = Suc d" by (auto simp: gr0_conv_Suc)
  have split: "c < k \<longleftrightarrow> k = Suc c \<or> Suc c < k" "d < k \<longleftrightarrow> k = Suc d \<or> Suc d < k" for k by linarith+
  show "cmp (arr s ! pc s) (arr s ! lo) = 0 \<Longrightarrow>
      part_inv lo hi (s\<lparr>arr := swap (arr s) (pc s) (pd s), pd := pd s - 1, swap_cnt := True, pc := pc s - 1\<rparr>)"
    and "cmp (arr s ! pc s) (arr s ! lo) > 0 \<Longrightarrow> part_inv lo hi (s\<lparr>pc := pc s - 1\<rparr>)"
    using assms by (auto simp: part_inv_def inside_def less_Suc_eq_le cd split)
qed

lemma part_inv_down: "part_inv lo hi s \<Longrightarrow> part_inv lo hi (scan_down cmp lo s)"
  by (erule scan_down_inv) (use part_inv_step_down in simp_all)

text \<open>When both scans have stopped before they crossed, the elements they stopped at are exchanged.\<close>

lemma scans_stopped:
  assumes "part_inv lo hi s" "s1 = scan_down cmp lo (scan_up cmp lo s)" "pb s1 \<le> pc s1"
  shows "cmp (arr s1 ! pb s1) (arr s1 ! lo) > 0" "cmp (arr s1 ! pc s1) (arr s1 ! lo) < 0"
proof -
  let ?P = "\<lambda>s. part_inv lo hi s \<and> (pb s \<le> pc s \<longrightarrow> cmp (arr s ! pb s) (arr s ! lo) > 0)"
  have "?P (scan_down cmp lo (scan_up cmp lo s))"
  proof (rule scan_down_inv [where P = ?P], goal_cases)
    case 1
    then show ?case using part_inv_up [OF assms(1)] scan_up_stop [of cmp lo s] by auto
  next
    case (2 s)
    then have "pb s \<noteq> pc s" by auto
    moreover from this 2 have "pb s < pd s" "lo < pb s" "hi \<le> length (arr s)" "pd s < hi" "pc s \<le> pd s"
      by (auto simp: part_inv_def inside_def)
    ultimately show ?case using 2 part_inv_down [of lo hi s] part_inv_step_down [of lo hi s] by auto
  next
    case (3 s)
    then show ?case using part_inv_step_down [of lo hi s] by auto
  qed
  then show "cmp (arr s1 ! pb s1) (arr s1 ! lo) > 0" using assms(2, 3) by simp
  have "0 < pc s1" using assms part_inv_up [OF assms(1)] by (auto simp: part_inv_def inside_def)
  then show "cmp (arr s1 ! pc s1) (arr s1 ! lo) < 0"
    using scan_down_stop [of "scan_up cmp lo s" cmp lo] assms(2, 3) by auto
qed

lemma part_inv_partition: "part_inv lo hi s \<Longrightarrow> part_inv lo hi (partition_loop cmp lo s)"
proof (erule partition_loop_inv, goal_cases)
  case (1 s)
  then show ?case by (intro part_inv_down part_inv_up)
next
  case (2 s s1)
  note stop = scans_stopped [OF 2(2, 1, 4)]
  have "pb s1 \<noteq> pc s1" using stop by auto
  then obtain c where c: "pc s1 = Suc c" "pb s1 \<le> c" using 2(4) by (cases "pc s1") auto
  then show ?case
    using 2(3) stop by (auto simp: part_inv_def inside_def less_Suc_eq Suc_le_eq)
qed

text \<open>The order of the array after the equal blocks have been moved to the middle.\<close>

definition arranged :: "nat \<Rightarrow> nat \<Rightarrow> nat \<Rightarrow> nat \<Rightarrow> 'a \<Rightarrow> 'a list \<Rightarrow> bool" where
  "arranged lo l g hi v xs \<longleftrightarrow> lo \<le> l \<and> l \<le> g \<and> g \<le> hi \<and> hi \<le> length xs \<and>
     (\<forall>k. lo \<le> k \<and> k < l \<longrightarrow> cmp (xs ! k) v < 0) \<and>
     (\<forall>k. l \<le> k \<and> k < g \<longrightarrow> cmp (xs ! k) v = 0) \<and>
     (\<forall>k. g \<le> k \<and> k < hi \<longrightarrow> cmp (xs ! k) v > 0)"

lemma arranged_middle:
  assumes inv: "part_inv lo hi s" and stop: "pc s < pb s"
  shows "arranged lo (lo + (pb s - pa s)) (hi - (pd s - pc s)) hi (arr s ! lo) (swap_middle lo hi s)"
proof -
  define r1 where r1: "r1 = min (pa s - lo) (pb s - pa s)"
  define r2 where r2: "r2 = min (pd s - pc s) (hi - pd s - 1)"
  define xs1 where xs1: "xs1 = vecswap (arr s) lo (pb s - r1) r1"
  define xs2 where xs2: "xs2 = vecswap xs1 (pb s) (hi - r2) r2"
  let ?v = "arr s ! lo"
  have ix: "lo < pa s" "pa s \<le> pb s" "pb s \<le> Suc (pd s)" "Suc (pd s) \<le> hi" "hi \<le> length (arr s)"
    "pb s = Suc (pc s)" "pb s \<le> length (arr s)"
    using inv stop by (auto simp: part_inv_def inside_def)
  note b1 = vecswap_blocks [where P = "\<lambda>x. cmp x ?v = 0" and Q = "\<lambda>x. cmp x ?v < 0" and i = lo
      and m = "pa s" and h = "pb s" and xs = "arr s", OF less_imp_le [OF ix(1)] ix(2, 7) r1, folded xs1]
  have lt: "cmp (xs1 ! k) ?v < 0" if "lo \<le> k" "k < lo + (pb s - pa s)" for k
    by (rule b1(1)) (use inv that in \<open>auto simp: part_inv_def\<close>)
  have eq: "cmp (xs1 ! k) ?v = 0" if "lo + (pb s - pa s) \<le> k" "k < pb s" for k
    by (rule b1(2)) (use inv that in \<open>auto simp: part_inv_def\<close>)
  have same: "xs1 ! k = arr s ! k" if "pb s \<le> k" for k
    by (rule b1(3)) (use inv that in \<open>auto simp: part_inv_def\<close>)
  have ex1: "exchanged lo (pb s) (arr s) xs1"
    by (rule b1(4)) (use inv in \<open>auto simp: part_inv_def\<close>)
  have len: "hi \<le> length xs1" using exchanged_length [OF ex1] ix by simp
  have r2': "r2 = min (Suc (pd s) - pb s) (hi - Suc (pd s))" using r2 ix by simp
  note b2 = vecswap_blocks [where P = "\<lambda>x. cmp x ?v > 0" and Q = "\<lambda>x. cmp x ?v = 0" and i = "pb s"
      and m = "Suc (pd s)" and h = hi and xs = xs1, OF ix(3, 4) len r2', folded xs2]
  have P: "cmp (xs1 ! k) ?v > 0" if "pb s \<le> k" "k < Suc (pd s)" for k
    using inv that same ix by (auto simp: part_inv_def)
  have Q: "cmp (xs1 ! k) ?v = 0" if "Suc (pd s) \<le> k" "k < hi" for k
    using inv that same ix by (auto simp: part_inv_def)
  have mid: "cmp (xs2 ! k) ?v = 0" if "pb s \<le> k" "k < pb s + (hi - Suc (pd s))" for k
    by (rule b2(1)) (use that P Q in auto)
  have gt: "cmp (xs2 ! k) ?v > 0" if "pb s + (hi - Suc (pd s)) \<le> k" "k < hi" for k
    by (rule b2(2)) (use that P Q in auto)
  have below: "xs2 ! k = xs1 ! k" if "k < pb s" for k
    by (rule b2(3)) (use that P Q in auto)
  have ex2: "exchanged (pb s) hi xs1 xs2"
    by (rule b2(4)) (use P Q in auto)
  have g: "hi - (pd s - pc s) = pb s + (hi - Suc (pd s))" using ix by simp
  have "cmp (xs2 ! k) ?v = 0" if "lo + (pb s - pa s) \<le> k" "k < hi - (pd s - pc s)" for k
    using that eq [of k] mid [of k] below [of k] unfolding g by (cases "k < pb s") auto
  moreover have "cmp (xs2 ! k) ?v < 0" if "lo \<le> k" "k < lo + (pb s - pa s)" for k
    using that lt [of k] below [of k] ix by simp
  ultimately have "arranged lo (lo + (pb s - pa s)) (hi - (pd s - pc s)) hi ?v xs2"
    using gt len ix exchanged_length [OF ex2] by (auto simp: arranged_def g)
  then show ?thesis by (simp add: swap_middle_def xs2 xs1 r1 r2 Let_def)
qed

text \<open>Sorting the two outer blocks of an arranged segment sorts the segment.\<close>

lemma arranged_sorted:
  assumes "arranged lo l g hi v xs" and "exchanged lo l xs ys" "sorted_seg lo l ys"
    and "exchanged g hi ys zs" "sorted_seg g hi zs"
  shows "sorted_seg lo hi zs"
proof -
  have ix: "lo \<le> l" "l \<le> g" "g \<le> hi" using assms(1) by (auto simp: arranged_def)
  have lt: "cmp (zs ! k) v < 0" if "lo \<le> k" "k < l" for k
    using exchanged_outside [OF assms(4)] that ix
      exchanged_all [OF assms(2), where P = "\<lambda>x. cmp x v < 0"] assms(1)
    by (auto simp: arranged_def)
  have eq: "cmp (zs ! k) v = 0" if "l \<le> k" "k < g" for k
    using exchanged_outside [OF assms(4)] exchanged_outside [OF assms(2)] that ix assms(1)
    by (auto simp: arranged_def)
  have gt: "cmp (zs ! k) v > 0" if "g \<le> k" "k < hi" for k
    using exchanged_outside [OF assms(2)] that ix
      exchanged_all [OF assms(4), where P = "\<lambda>x. cmp x v > 0"] assms(1)
    by (auto simp: arranged_def)
  have via: "cmp a b \<le> 0" if "cmp a v \<le> 0" "cmp b v \<ge> 0" for a b
    using that anti [of b v] eq_sym [of b v] trans [of a v b] by (cases "cmp b v = 0") auto
  show ?thesis unfolding sorted_seg_def
  proof (intro allI impI, elim conjE)
    fix i j assume ij: "lo \<le> i" "i < j" "j < hi"
    consider "j < l" | "g \<le> i" | "i < g" "l \<le> j" by linarith
    then show "cmp (zs ! i) (zs ! j) \<le> 0"
    proof cases
      case 1
      then have "zs ! i = ys ! i" "zs ! j = ys ! j"
        using exchanged_outside [OF assms(4)] ij ix by auto
      then show ?thesis using assms(3) 1 ij by (auto simp: sorted_seg_def)
    next
      case 2
      then show ?thesis using assms(5) ij by (auto simp: sorted_seg_def)
    next
      case 3
      have "cmp (zs ! i) v \<le> 0" using lt [of i] eq [of i] 3 ij by (cases "i < l") auto
      moreover have "cmp (zs ! j) v \<ge> 0" using gt [of j] eq [of j] 3 ij by (cases "j < g") auto
      ultimately show ?thesis by (rule via)
    qed
  qed
qed

lemma partition_arranged:
  assumes "7 \<le> n" "lo + n \<le> length xs"
    and s: "s = partition_loop cmp lo (part_start lo n (swap xs lo (choose_pivot cmp lo n xs)))"
  shows "arranged lo (lo + (pb s - pa s)) (lo + n - (pd s - pc s)) (lo + n) (arr s ! lo) (swap_middle lo (lo + n) s)"
proof (rule arranged_middle)
  have "part_inv lo (lo + n) (part_start lo n (swap xs lo (choose_pivot cmp lo n xs)))"
    using assms(1, 2) inside_start [OF assms(1), of lo]
    by (auto simp: part_inv_def part_start_def less_Suc_eq_le dest: le_antisym)
  then show "part_inv lo (lo + n) s" unfolding s by (rule part_inv_partition)
  show "pc s < pb s" unfolding s by (rule partition_loop_end)
qed

lemma sorted_seg_small: "hi \<le> Suc lo \<Longrightarrow> sorted_seg lo hi xs"
  by (auto simp: sorted_seg_def)

lemma qsort_sorted:
  "lo + n \<le> length xs \<Longrightarrow> sorted_seg lo (lo + n) (ctable_qsort_r cmp lo n xs)"
proof (induction n arbitrary: lo xs rule: less_induct)
  case (less n)
  define s where "s = partition_loop cmp lo (part_start lo n (swap xs lo (choose_pivot cmp lo n xs)))"
  consider "n < 7" | "7 \<le> n" "\<not> swap_cnt s" | "7 \<le> n" "swap_cnt s" by linarith
  then show ?case
  proof cases
    case 1
    then show ?thesis using less.prems by (subst ctable_qsort_r.simps) (simp add: insertion_sort_sorted)
  next
    case 2
    note p = qsort_prepare [OF 2(1) less.prems s_def]
    then show ?thesis using 2
      by (subst ctable_qsort_r.simps) (simp add: insertion_sort_sorted flip: s_def)
  next
    case 3
    note p = qsort_prepare [OF 3(1) less.prems s_def]
    define xs2 where "xs2 = swap_middle lo (lo + n) s"
    define r where "r = pb s - pa s"
    define xs3 where "xs3 = (if r > 1 then ctable_qsort_r cmp lo r xs2 else xs2)"
    define r' where "r' = pd s - pc s"
    let ?xs4 = "if r' > 1 then ctable_qsort_r cmp (lo + n - r') r' xs3 else xs3"
    note arr = partition_arranged [OF 3(1) less.prems s_def, folded xs2_def r_def r'_def]
    have sz: "lo + r \<le> length xs2" "lo + n \<le> length xs2" "r' \<le> n"
      using arr p(1) by (auto simp: arranged_def r'_def inside_def)
    have x3: "sorted_seg lo (lo + r) xs3" "exchanged lo (lo + r) xs2 xs3"
      using less.IH [OF part_sizes(1) [OF 3(1) s_def], of lo xs2] sz
      by (auto simp: xs3_def sorted_seg_small qsort_exchanged simp flip: r_def)
    moreover have "sorted_seg (lo + n - r') (lo + n) ?xs4" "exchanged (lo + n - r') (lo + n) xs3 ?xs4"
      using less.IH [OF part_sizes(2) [OF \<open>7 \<le> n\<close> s_def], of "lo + n - r'" xs3] sz
        qsort_exchanged [of "lo + n - r'" r' xs3 cmp] exchanged_length [OF x3(2)]
      by (auto simp: sorted_seg_small simp flip: r'_def)
    ultimately have "sorted_seg lo (lo + n) ?xs4"
      using arranged_sorted [OF arr] by blast
    moreover have "ctable_qsort_r cmp lo n xs = ?xs4"
      using \<open>7 \<le> n\<close> \<open>swap_cnt s\<close> by (subst ctable_qsort_r.simps)
        (simp add: Let_def xs3_def xs2_def r_def r'_def flip: s_def)
    ultimately show ?thesis by simp
  qed
qed

lemma qsort_sorted_wrt:
  "lo + n \<le> length xs \<Longrightarrow>
     sorted_wrt (\<lambda>a b. cmp a b \<le> 0) (take n (drop lo (ctable_qsort_r cmp lo n xs)))"
  using qsort_sorted [of lo n xs] exchanged_length [OF qsort_exchanged, of lo n xs cmp]
  by (auto simp: sorted_wrt_iff_nth_less sorted_seg_def)

end

section \<open>Properties\<close>

text \<open>
  Whatever the comparison function answers, even one that is no order at all,
  \<^verbatim>\<open>ctable_qsort_r\<close> ends, keeps the multiset of the elements and touches nothing outside the
  segment of \<open>n\<close> elements it was given.
\<close>

theorem qsort_permutes:
  assumes "lo + n \<le> length xs"
  shows "mset (ctable_qsort_r cmp lo n xs) = mset xs \<and> length (ctable_qsort_r cmp lo n xs) = length xs
    \<and> take lo (ctable_qsort_r cmp lo n xs) = take lo xs
    \<and> drop (lo + n) (ctable_qsort_r cmp lo n xs) = drop (lo + n) xs"
proof -
  note ex = qsort_exchanged [OF assms, of cmp]
  show ?thesis
    using exchanged_mset [OF ex] exchanged_length [OF ex] exchanged_outside [OF ex]
    by (auto intro!: nth_equalityI)
qed

lemma qsort_permutes_witness:
  "mset (ctable_qsort_r (\<lambda>a b. 1) 1 3 [4, 3, 2, 1 :: int]) = mset [4, 3, 2, 1]"
  using qsort_permutes [of 1 3 "[4, 3, 2, 1 :: int]" "\<lambda>a b. 1"] by simp

text \<open>
  C23. With a comparison function that is a total preorder (its sign flips with its arguments, and
  it is transitive) the segment comes out sorted: no element compares greater than a later one.
\<close>

theorem qsort_sorts:
  assumes "comparator cmp" and "lo + n \<le> length xs"
  shows "sorted_wrt (\<lambda>a b. cmp a b \<le> 0) (take n (drop lo (ctable_qsort_r cmp lo n xs)))"
  using comparator.qsort_sorted_wrt [OF assms] .

lemma qsort_sorts_witness:
  "sorted_wrt (\<lambda>a b. a - b \<le> (0 :: int)) (take 3 (drop 1 (ctable_qsort_r (\<lambda>a b. a - b) 1 3 [4, 3, 2, 1])))"
proof -
  have "comparator (\<lambda>a b :: int. a - b)" by unfold_locales auto
  from qsort_sorts [OF this, of 1 3 "[4, 3, 2, 1]"] show ?thesis by simp
qed

end
