(* ===== verification/HashTable.thy ===== *)
theory HashTable
  imports Prelude
begin

text \<open>
  \<^verbatim>\<open>ctables/hash/speedtableHash.c\<close>: the string keyed hash table that finds the rows of a table by
  their key.  Entries live in a heap and are chained by their \<^verbatim>\<open>nextPtr\<close>, the buckets are an
  array of pointers; every operation follows and rewrites these pointers as the code does.  Keys are
  stored by value (whether the table owns the key's memory, which the flags decide, is not modelled).
\<close>

section \<open>Data\<close>

record hash_entry =
  nextPtr :: addr
  hkey :: cstring
  hhash :: "32 word"

type_synonym hheap = "addr \<Rightarrow> hash_entry"

record hash_table =
  buckets :: "addr list"
  numBuckets :: int
  numEntries :: int
  rebuildSize :: int
  downShift :: int
  hmask :: int

text \<open>\<^verbatim>\<open>ctable_InitHashTable\<close>.\<close>

definition ctable_InitHashTable :: hash_table where
  "ctable_InitHashTable = \<lparr>buckets = replicate 16 0, numBuckets = 16, numEntries = 0,
     rebuildSize = 16 * 3, downShift = 26, hmask = 15\<rparr>"

text \<open>\<^verbatim>\<open>ctable_DeleteHashTable\<close> frees the buckets, unless they are the ones in the table itself.\<close>

definition ctable_DeleteHashTable :: "hash_table \<Rightarrow> hash_table" where
  "ctable_DeleteHashTable t = (if numBuckets t = 16 then t else t\<lparr>buckets := []\<rparr>)"

section \<open>Hashing and comparing keys\<close>

text \<open>\<^verbatim>\<open>c\<close> is a plain, that is signed, character, and the sum is taken in unsigned 32 bit arithmetic.\<close>

definition HashStringKey :: "cstring \<Rightarrow> 32 word" where
  "HashStringKey key = fold (\<lambda>c result. result + (push_bit 3 result + scast c)) key 0"

definition RANDOM_INDEX :: "hash_table \<Rightarrow> 32 word \<Rightarrow> nat" where
  "RANDOM_INDEX t i = nat (drop_bit (nat (downShift t)) (uint i * 1103515245) AND hmask t)"

fun CompareStringKeys :: "cstring \<Rightarrow> cstring \<Rightarrow> int" where
  "CompareStringKeys [] [] = 0"
| "CompareStringKeys [] (d # ds) = (if 0 \<noteq> d then (if 0 < sint d then -1 else 1) else 0)"
| "CompareStringKeys (c # cs) [] = (if c \<noteq> 0 then (if sint c < 0 then -1 else 1) else 0)"
| "CompareStringKeys (c # cs) (d # ds) =
     (if c \<noteq> d then (if sint c < sint d then -1 else 1)
      else if c = 0 then 0 else CompareStringKeys cs ds)"

section \<open>Operations\<close>

text \<open>The search of one bucket; the result is \<open>None\<close> only if the chain never ends.\<close>

partial_function (option) bucket_find :: "hheap \<Rightarrow> 32 word \<Rightarrow> cstring \<Rightarrow> addr \<Rightarrow> addr option" where
  "bucket_find h hash key hPtr =
     (if hPtr = 0 then Some 0
      else if hash \<noteq> hhash (h hPtr) then bucket_find h hash key (nextPtr (h hPtr))
      else if CompareStringKeys key (hkey (h hPtr)) = 0 then Some hPtr
      else bucket_find h hash key (nextPtr (h hPtr)))"

text \<open>\<^verbatim>\<open>RebuildTable\<close>: the inner loop moves the entries of one old bucket to the heads of the new ones.\<close>

partial_function (option) rehash_chain :: "hash_table \<Rightarrow> hheap \<Rightarrow> addr list \<Rightarrow> addr
    \<Rightarrow> (hheap \<times> addr list) option" where
  "rehash_chain t h bs hPtr =
     (if hPtr = 0 then Some (h, bs)
      else let old = nextPtr (h hPtr); index = RANDOM_INDEX t (hhash (h hPtr))
           in rehash_chain t (h(hPtr := (h hPtr)\<lparr>nextPtr := bs ! index\<rparr>)) (bs[index := hPtr]) old)"

fun rehash_all :: "hash_table \<Rightarrow> addr list \<Rightarrow> hheap \<Rightarrow> addr list \<Rightarrow> (hheap \<times> addr list) option" where
  "rehash_all t [] h bs = Some (h, bs)"
| "rehash_all t (p # ps) h bs = Option.bind (rehash_chain t h bs p) (\<lambda>(h', bs'). rehash_all t ps h' bs')"

definition RebuildTable :: "hheap \<Rightarrow> hash_table \<Rightarrow> (hheap \<times> hash_table) option" where
  "RebuildTable h t =
     (let oldBuckets = buckets t;
          t1 = t\<lparr>numBuckets := numBuckets t * 16, rebuildSize := rebuildSize t * 16,
                 downShift := downShift t - 4, hmask := push_bit 4 (hmask t) + 15\<rparr>
      in map_option (\<lambda>(h', bs). (h', t1\<lparr>buckets := bs\<rparr>))
           (rehash_all t1 oldBuckets h (replicate (nat (numBuckets t1)) 0)))"

text \<open>
  \<^verbatim>\<open>ctable_InitOrStoreHashEntry\<close>: \<open>want\<close> says that \<^verbatim>\<open>newPtr\<close> is not \<^verbatim>\<open>NULL\<close>, and the last component
  of the result is what was stored through it.
\<close>

definition ctable_InitOrStoreHashEntry :: "hheap \<Rightarrow> hash_table \<Rightarrow> cstring \<Rightarrow> addr \<Rightarrow> bool
    \<Rightarrow> (hheap \<times> hash_table \<times> addr \<times> int option) option" where
  "ctable_InitOrStoreHashEntry h t key newEntry want =
     (let hash = HashStringKey key; index = RANDOM_INDEX t hash
      in Option.bind (bucket_find h hash key (buckets t ! index)) (\<lambda>hPtr.
           if hPtr \<noteq> 0 then Some (h, t, hPtr, if want then Some 0 else None)
           else if \<not> want then Some (h, t, 0, None)
           else if newEntry = 0 then Some (h, t, 0, None)
           else let h1 = h(newEntry := \<lparr>nextPtr = buckets t ! index, hkey = key, hhash = hash\<rparr>);
                    t1 = t\<lparr>buckets := (buckets t)[index := newEntry], numEntries := numEntries t + 1\<rparr>
                in if numEntries t1 \<ge> rebuildSize t1
                   then map_option (\<lambda>(h2, t2). (h2, t2, newEntry, Some 1)) (RebuildTable h1 t1)
                   else Some (h1, t1, newEntry, Some 1)))"

definition ctable_InitHashEntry :: "hheap \<Rightarrow> hash_table \<Rightarrow> cstring \<Rightarrow> bool
    \<Rightarrow> (hheap \<times> hash_table \<times> addr \<times> int option) option" where
  "ctable_InitHashEntry h t key want = ctable_InitOrStoreHashEntry h t key 0 want"

definition ctable_StoreHashEntry :: "hheap \<Rightarrow> hash_table \<Rightarrow> cstring \<Rightarrow> addr \<Rightarrow> bool
    \<Rightarrow> (hheap \<times> hash_table \<times> addr \<times> int option) option" where
  "ctable_StoreHashEntry h t key newEntry want = ctable_InitOrStoreHashEntry h t key newEntry want"

definition ctable_FindHashEntry :: "hheap \<Rightarrow> hash_table \<Rightarrow> cstring \<Rightarrow> addr option" where
  "ctable_FindHashEntry h t key = map_option (\<lambda>(h', t', p, new). p) (ctable_InitHashEntry h t key False)"

text \<open>
  \<^verbatim>\<open>ctable_DeleteHashEntry\<close>.  The loop looks for the predecessor; \<open>Some None\<close> is the
  \<^verbatim>\<open>Tcl_Panic\<close> at the end of the chain.
\<close>

partial_function (option) unlink_after :: "hheap \<Rightarrow> addr \<Rightarrow> addr \<Rightarrow> hheap option option" where
  "unlink_after h entryPtr prevPtr =
     (if prevPtr = 0 then Some None
      else if nextPtr (h prevPtr) = entryPtr
           then Some (Some (h(prevPtr := (h prevPtr)\<lparr>nextPtr := nextPtr (h entryPtr)\<rparr>)))
           else unlink_after h entryPtr (nextPtr (h prevPtr)))"

definition ctable_DeleteHashEntry :: "hheap \<Rightarrow> hash_table \<Rightarrow> addr \<Rightarrow> (hheap \<times> hash_table) option option" where
  "ctable_DeleteHashEntry h t entryPtr =
     (let index = RANDOM_INDEX t (hhash (h entryPtr)); bucket = buckets t ! index
      in if bucket = entryPtr
         then Some (Some (h, t\<lparr>buckets := (buckets t)[index := nextPtr (h entryPtr)],
                              numEntries := numEntries t - 1\<rparr>))
         else map_option (map_option (\<lambda>h'. (h', t\<lparr>numEntries := numEntries t - 1\<rparr>)))
                (unlink_after h entryPtr bucket))"

text \<open>The enumeration of all entries.\<close>

record hash_search =
  nextIndex :: nat
  nextEntryPtr :: addr

function ctable_NextHashEntry :: "hheap \<Rightarrow> hash_table \<Rightarrow> hash_search \<Rightarrow> addr \<times> hash_search" where
  "ctable_NextHashEntry h t s =
     (if nextEntryPtr s = 0
      then if int (nextIndex s) \<ge> numBuckets t then (0, s)
           else ctable_NextHashEntry h t
                  (s\<lparr>nextEntryPtr := buckets t ! nextIndex s, nextIndex := Suc (nextIndex s)\<rparr>)
      else (nextEntryPtr s, s\<lparr>nextEntryPtr := nextPtr (h (nextEntryPtr s))\<rparr>))"
  by pat_completeness auto
termination
  by (relation "measure (\<lambda>(h, t, s). nat (numBuckets t) - nextIndex s)") auto

declare ctable_NextHashEntry.simps [simp del]

definition ctable_FirstHashEntry :: "hheap \<Rightarrow> hash_table \<Rightarrow> addr \<times> hash_search" where
  "ctable_FirstHashEntry h t = ctable_NextHashEntry h t \<lparr>nextIndex = 0, nextEntryPtr = 0\<rparr>"

text \<open>\<^verbatim>\<open>for (e = First; e != NULL; e = Next)\<close>, the loop of every caller, collecting what it visits.\<close>

partial_function (option) hash_visit :: "hheap \<Rightarrow> hash_table \<Rightarrow> addr \<times> hash_search \<Rightarrow> addr list option" where
  "hash_visit h t es =
     (if fst es = 0 then Some []
      else Option.bind (hash_visit h t (ctable_NextHashEntry h t (snd es))) (\<lambda>ps. Some (fst es # ps)))"

text \<open>
  \<^verbatim>\<open>ctable_HashStats\<close> without the text it formats and the floating point average: the histogram of
  chain lengths below 10 and the number of longer chains.
\<close>

partial_function (option) chain_length :: "hheap \<Rightarrow> addr \<Rightarrow> nat \<Rightarrow> nat option" where
  "chain_length h hPtr j = (if hPtr = 0 then Some j else chain_length h (nextPtr (h hPtr)) (Suc j))"

fun count_buckets :: "hheap \<Rightarrow> addr list \<Rightarrow> nat list \<Rightarrow> nat \<Rightarrow> (nat list \<times> nat) option" where
  "count_buckets h [] cnt overflow = Some (cnt, overflow)"
| "count_buckets h (p # ps) cnt overflow =
     Option.bind (chain_length h p 0) (\<lambda>j.
       if j < 10 then count_buckets h ps (cnt[j := cnt ! j + 1]) overflow
       else count_buckets h ps cnt (overflow + 1))"

definition ctable_HashStats :: "hheap \<Rightarrow> hash_table \<Rightarrow> (nat list \<times> nat) option" where
  "ctable_HashStats h t = count_buckets h (take (nat (numBuckets t)) (buckets t)) (replicate 10 0) 0"

section \<open>Keys\<close>

lemma CompareStringKeys_eq:
  "0 \<notin> set k \<Longrightarrow> 0 \<notin> set l \<Longrightarrow> CompareStringKeys k l = 0 \<longleftrightarrow> k = l"
  by (induction k l rule: CompareStringKeys.induct) auto

section \<open>The table as chains\<close>

declare set_concat [simp del]

definition nexts :: "hheap \<Rightarrow> addr \<Rightarrow> addr" where
  "nexts h = (\<lambda>p. nextPtr (h p))"

lemma nexts_upd [simp]: "nexts (h(p := e)) = (nexts h)(p := nextPtr e)"
  by (auto simp: nexts_def)

lemma nexts_app: "nexts h p = nextPtr (h p)"
  by (simp add: nexts_def)

declare chain_Cons [simp del]

lemma chain_nexts_Cons [simp]:
  "chain (nexts h) p (q # qs) \<longleftrightarrow> p = q \<and> q \<noteq> 0 \<and> chain (nexts h) (nextPtr (h q)) qs"
  by (simp add: chain_Cons nexts_app)

definition table_chains :: "hash_table \<Rightarrow> hheap \<Rightarrow> addr list \<Rightarrow> addr list list \<Rightarrow> bool" where
  "table_chains t h bs cs \<longleftrightarrow> length cs = length bs \<and> distinct (concat cs) \<and>
     (\<forall>i<length bs. chain (nexts h) (bs ! i) (cs ! i) \<and>
        (\<forall>p\<in>set (cs ! i). RANDOM_INDEX t (hhash (h p)) = i))"

text \<open>The sizing fields after \<open>k\<close> rebuilds, for as long as the shift count is not negative.\<close>

definition sized :: "nat \<Rightarrow> hash_table \<Rightarrow> bool" where
  "sized k t \<longleftrightarrow> k \<le> 6 \<and> numBuckets t = 16 ^ Suc k \<and> rebuildSize t = 48 * 16 ^ k
     \<and> downShift t = 26 - 4 * int k \<and> hmask t = mask (4 * Suc k)"

lemma sized_bounds:
  assumes "sized k t"
  shows "0 \<le> downShift t" "numBuckets t < 2 ^ 31" "rebuildSize t < 2 ^ 31" "hmask t < 2 ^ 31"
proof -
  have k: "k \<in> {0, 1, 2, 3, 4, 5, 6}" using assms by (auto simp: sized_def)
  show "0 \<le> downShift t" "numBuckets t < 2 ^ 31" "rebuildSize t < 2 ^ 31" "hmask t < 2 ^ 31"
    using assms k by (auto simp: sized_def mask_eq_exp_minus_1)
qed

lemma RANDOM_INDEX_bound: "sized k t \<Longrightarrow> RANDOM_INDEX t i < nat (numBuckets t)"
proof -
  assume s: "sized k t"
  let ?x = "drop_bit (nat (downShift t)) (uint i * 1103515245)"
  have "?x AND hmask t = take_bit (4 * Suc k) ?x" using s by (simp add: sized_def take_bit_eq_mask)
  moreover have "take_bit (4 * Suc k) ?x < 2 ^ (4 * Suc k)" by (rule take_bit_int_less_exp)
  moreover have "(2 :: int) ^ (4 * Suc k) = 16 ^ Suc k" by (subst power_mult) simp
  ultimately have "?x AND hmask t < numBuckets t" using s unfolding sized_def by metis
  moreover have "0 \<le> numBuckets t" using s by (simp add: sized_def)
  ultimately show ?thesis by (simp add: RANDOM_INDEX_def nat_less_iff zless_nat_eq_int_zless)
qed

text \<open>The invariant: entry keys are the keys they were stored under, and no key occurs twice.\<close>

definition hash_inv :: "hheap \<Rightarrow> hash_table \<Rightarrow> addr list list \<Rightarrow> bool" where
  "hash_inv h t cs \<longleftrightarrow> table_chains t h (buckets t) cs \<and> (\<exists>k. sized k t)
     \<and> int (length (buckets t)) = numBuckets t
     \<and> numEntries t = int (length (concat cs)) \<and> numEntries t < rebuildSize t
     \<and> (\<forall>p\<in>set (concat cs). hhash (h p) = HashStringKey (hkey (h p)) \<and> 0 \<notin> set (hkey (h p)))
     \<and> inj_on (\<lambda>p. hkey (h p)) (set (concat cs))"

text \<open>The finite map a table stands for.\<close>

definition hash_rep :: "hheap \<times> hash_table \<Rightarrow> (cstring \<rightharpoonup> addr) \<Rightarrow> bool" where
  "hash_rep ht m \<longleftrightarrow> (\<exists>cs. hash_inv (fst ht) (snd ht) cs
     \<and> (\<forall>key p. m key = Some p \<longleftrightarrow> p \<in> set (concat cs) \<and> hkey (fst ht p) = key))"

lemma table_chainsD:
  assumes "table_chains t h bs cs"
  shows "length cs = length bs" "distinct (concat cs)" "i < length bs \<Longrightarrow> chain (nexts h) (bs ! i) (cs ! i)"
    "i < length bs \<Longrightarrow> p \<in> set (cs ! i) \<Longrightarrow> RANDOM_INDEX t (hhash (h p)) = i"
  using assms unfolding table_chains_def by blast+

lemma hash_invD:
  assumes "hash_inv h t cs"
  shows "table_chains t h (buckets t) cs" "int (length (buckets t)) = numBuckets t"
    "numEntries t = int (length (concat cs))" "numEntries t < rebuildSize t"
    "p \<in> set (concat cs) \<Longrightarrow> hhash (h p) = HashStringKey (hkey (h p))"
    "p \<in> set (concat cs) \<Longrightarrow> 0 \<notin> set (hkey (h p))"
    "inj_on (\<lambda>p. hkey (h p)) (set (concat cs))" "\<exists>k. sized k t"
  using assms unfolding hash_inv_def by blast+

lemma bucket_find_chain:
  assumes "chain (nexts h) p ps" "0 \<notin> set key" "\<forall>q\<in>set ps. 0 \<notin> set (hkey (h q))"
    "\<forall>q\<in>set ps. hhash (h q) = HashStringKey (hkey (h q))"
  shows "bucket_find h (HashStringKey key) key p =
    Some (case find (\<lambda>q. hkey (h q) = key) ps of None \<Rightarrow> 0 | Some q \<Rightarrow> q)"
  using assms
proof (induction ps arbitrary: p)
  case Nil
  then show ?case by (simp add: bucket_find.simps)
next
  case (Cons q ps)
  then have "p = q" "q \<noteq> 0" by auto
  then show ?case using Cons
    by (subst bucket_find.simps) (auto simp: CompareStringKeys_eq)
qed

lemma chains_key:
  assumes "hash_inv h t cs" "p \<in> set (concat cs)"
  shows "p \<in> set (cs ! RANDOM_INDEX t (HashStringKey (hkey (h p))))"
    "RANDOM_INDEX t (HashStringKey (hkey (h p))) < length (buckets t)"
proof -
  obtain i where i: "i < length cs" "p \<in> set (cs ! i)" using in_concat_nth [OF assms(2)] by blast
  moreover have len: "length cs = length (buckets t)" and "hhash (h p) = HashStringKey (hkey (h p))"
    and "\<forall>i<length (buckets t). \<forall>p\<in>set (cs ! i). RANDOM_INDEX t (hhash (h p)) = i"
    using assms by (simp_all add: hash_inv_def table_chains_def)
  ultimately have "RANDOM_INDEX t (HashStringKey (hkey (h p))) = i" by metis
  then show "p \<in> set (cs ! RANDOM_INDEX t (HashStringKey (hkey (h p))))"
    "RANDOM_INDEX t (HashStringKey (hkey (h p))) < length (buckets t)" using i len by auto
qed

lemma hash_index: "hash_inv h t cs \<Longrightarrow> RANDOM_INDEX t x < length (buckets t)"
proof -
  assume "hash_inv h t cs"
  then obtain k where "sized k t" "int (length (buckets t)) = numBuckets t" by (auto simp: hash_inv_def)
  then show ?thesis using RANDOM_INDEX_bound [of k t x] by linarith
qed

text \<open>Looking a key up finds the entry the map names, or \<^verbatim>\<open>NULL\<close>.\<close>

lemma bucket_find_inv:
  assumes inv: "hash_inv h t cs" and key: "0 \<notin> set key"
  shows "bucket_find h (HashStringKey key) key (buckets t ! RANDOM_INDEX t (HashStringKey key)) =
    Some (case find (\<lambda>q. hkey (h q) = key) (concat cs) of None \<Rightarrow> 0 | Some q \<Rightarrow> q)"
proof -
  let ?i = "RANDOM_INDEX t (HashStringKey key)"
  have i: "?i < length (buckets t)" "length cs = length (buckets t)"
    using hash_index [OF inv] inv by (auto simp: hash_inv_def table_chains_def)
  have sub: "set (cs ! ?i) \<subseteq> set (concat cs)" using i by (intro set_nth_concat) simp
  have "find (\<lambda>q. hkey (h q) = key) (cs ! ?i) = find (\<lambda>q. hkey (h q) = key) (concat cs)"
  proof (cases "find (\<lambda>q. hkey (h q) = key) (concat cs)")
    case None
    then have "find (\<lambda>q. hkey (h q) = key) (cs ! ?i) = None" using sub by (auto simp: find_None_iff)
    then show ?thesis using None by simp
  next
    case (Some q)
    then have q: "q \<in> set (concat cs)" "hkey (h q) = key" by (auto simp: find_Some_iff)
    then have "q \<in> set (cs ! ?i)" using chains_key(1) [OF inv] by auto
    then obtain q' where q': "find (\<lambda>q. hkey (h q) = key) (cs ! ?i) = Some q'"
      using q(2) by (cases "find (\<lambda>q. hkey (h q) = key) (cs ! ?i)") (auto simp: find_None_iff)
    then have "q' \<in> set (concat cs)" "hkey (h q') = key" using sub by (auto simp: find_Some_iff)
    then have "q' = q" using q inv by (auto simp: hash_inv_def inj_on_def)
    then show ?thesis using Some q' by simp
  qed
  then show ?thesis
    using bucket_find_chain [of h "buckets t ! ?i" "cs ! ?i" key] i sub key inv
    by (auto simp: hash_inv_def table_chains_def)
qed

lemma find_rep:
  assumes "hash_inv h t cs" "\<forall>key p. m key = Some p \<longleftrightarrow> p \<in> set (concat cs) \<and> hkey (h p) = key"
  shows "find (\<lambda>q. hkey (h q) = key) (concat cs) = m key"
proof (cases "find (\<lambda>q. hkey (h q) = key) (concat cs)")
  case None
  then have "m key \<noteq> Some p" for p using assms(2) by (auto simp: find_None_iff)
  then show ?thesis using None by (cases "m key") auto
next
  case (Some q)
  then have "m key = Some q" using assms(2) find_SomeD [OF Some] by simp
  then show ?thesis using Some by simp
qed

section \<open>Inserting and rehashing\<close>

text \<open>Pushing an entry on the head of its bucket, the step that insertion and rehashing share.\<close>

lemma table_chains_push:
  assumes "table_chains t h bs cs" "q \<noteq> 0" "q \<notin> set (concat cs)" "i < length bs"
    and "RANDOM_INDEX t (hhash e) = i" "nextPtr e = bs ! i"
  shows "table_chains t (h(q := e)) (bs[i := q]) (cs[i := q # cs ! i])"
proof -
  have i: "i < length cs" "length cs = length bs" using assms by (simp_all add: table_chains_def)
  have notin: "q \<notin> set (cs ! j)" if "j < length bs" for j
    using set_nth_concat [of j cs] that assms(3) i(2) by auto
  have "mset (concat (cs[i := q # cs ! i])) = mset (q # concat cs)"
    using mset_concat_push [OF i(1)] by simp
  from mset_eq_imp_distinct_iff [OF this] have "distinct (concat (cs[i := q # cs ! i]))"
    using assms by (simp add: table_chains_def)
  moreover have "chain (nexts (h(q := e))) (bs[i := q] ! j) (cs[i := q # cs ! i] ! j)
      \<and> (\<forall>p\<in>set (cs[i := q # cs ! i] ! j). RANDOM_INDEX t (hhash ((h(q := e)) p)) = j)"
    if j: "j < length bs" for j
  proof -
    have "chain (nexts h) (bs ! j) (cs ! j)" "\<forall>p\<in>set (cs ! j). RANDOM_INDEX t (hhash (h p)) = j"
      using assms(1) j by (simp_all add: table_chains_def)
    then show ?thesis using notin [OF j] i j assms by (cases "j = i") (auto simp: chain_Cons)
  qed
  ultimately show ?thesis using i by (simp add: table_chains_def)
qed

definition same_entries :: "hheap \<Rightarrow> hheap \<Rightarrow> bool" where
  "same_entries h h' \<longleftrightarrow> (\<forall>q. hkey (h' q) = hkey (h q) \<and> hhash (h' q) = hhash (h q))"

lemma rehash_chain_correct:
  assumes "table_chains t h bs ns" "chain (nexts h) p ps" "distinct (ps @ concat ns)"
    and ix: "\<And>x. RANDOM_INDEX t x < length bs"
  shows "\<exists>h' bs' ns'. rehash_chain t h bs p = Some (h', bs') \<and> table_chains t h' bs' ns'
    \<and> length bs' = length bs \<and> mset (concat ns') = mset ps + mset (concat ns)
    \<and> same_entries h h' \<and> (\<forall>q. q \<notin> set (concat ns') \<longrightarrow> h' q = h q)"
  using assms(1-3) ix
proof (induction ps arbitrary: h bs ns p)
  case Nil
  then show ?case by (auto simp: rehash_chain.simps same_entries_def)
next
  case (Cons q ps)
  let ?i = "RANDOM_INDEX t (hhash (h p))"
  let ?h = "h(p := (h p)\<lparr>nextPtr := bs ! ?i\<rparr>)" and ?bs = "bs[?i := p]" and ?ns = "ns[?i := p # ns ! ?i]"
  have p: "p = q" "p \<noteq> 0" "p \<notin> set ps" "p \<notin> set (concat ns)" using Cons.prems by auto
  have len: "?i < length ns" using Cons.prems by (simp add: table_chains_def)
  have ms: "mset (concat ?ns) = add_mset p (mset (concat ns))" by (rule mset_concat_push [OF len])
  then have st: "set (concat ?ns) = insert p (set (concat ns))"
    by (metis set_mset_add_mset_insert set_mset_mset)
  have push: "table_chains t ?h ?bs ?ns"
    using Cons.prems p by (intro table_chains_push) auto
  have ch: "chain (nexts ?h) (nextPtr (h p)) ps" using Cons.prems(2) p by auto
  have d: "distinct (ps @ concat ?ns)"
    using Cons.prems(3) p st push by (auto simp: table_chains_def)
  have l: "RANDOM_INDEX t x < length ?bs" for x using Cons.prems(4) by simp
  obtain h' bs' ns' where IH: "rehash_chain t ?h ?bs (nextPtr (h p)) = Some (h', bs')"
    "table_chains t h' bs' ns'" "length bs' = length ?bs" "mset (concat ns') = mset ps + mset (concat ?ns)"
    "same_entries ?h h'" "\<forall>q. q \<notin> set (concat ns') \<longrightarrow> h' q = ?h q"
    using Cons.IH [OF push ch d l] by blast
  have "rehash_chain t h bs p = Some (h', bs')"
    using p(2) IH(1) by (subst rehash_chain.simps) (simp add: Let_def)
  moreover have "same_entries h h'" using IH(5) by (simp add: same_entries_def split: if_splits)
  moreover have ms': "mset (concat ns') = mset (q # ps) + mset (concat ns)" using IH(4) ms p(1) by simp
  moreover have "\<forall>a. a \<notin> set (concat ns') \<longrightarrow> h' a = h a"
    using IH(6) p(1) mset_eq_setD [of "concat ns'" "(q # ps) @ concat ns"] ms' by auto
  ultimately show ?case using IH(2, 3) by auto
qed

lemma rehash_all_correct:
  assumes "table_chains t h bs ns" "list_all2 (chain (nexts h)) os cs" "distinct (concat cs @ concat ns)"
    and ix: "\<And>x. RANDOM_INDEX t x < length bs"
  shows "\<exists>h' bs' ns'. rehash_all t os h bs = Some (h', bs') \<and> table_chains t h' bs' ns'
    \<and> length bs' = length bs \<and> mset (concat ns') = mset (concat cs) + mset (concat ns)
    \<and> same_entries h h'"
  using assms(1-3) ix
proof (induction os arbitrary: cs h bs ns)
  case Nil
  then show ?case by (auto simp: same_entries_def)
next
  case (Cons p os)
  from Cons.prems(2) obtain ps cs' where cs: "cs = ps # cs'" "chain (nexts h) p ps"
    "list_all2 (chain (nexts h)) os cs'"
    by (auto simp: list_all2_Cons1)
  have "distinct (ps @ concat ns)" using Cons.prems(3) cs by auto
  from rehash_chain_correct [OF Cons.prems(1) cs(2) this Cons.prems(4)]
  obtain h' bs' ns' where S: "rehash_chain t h bs p = Some (h', bs')"
    "table_chains t h' bs' ns'" "length bs' = length bs" "mset (concat ns') = mset ps + mset (concat ns)"
    "same_entries h h'" "\<forall>q. q \<notin> set (concat ns') \<longrightarrow> h' q = h q"
    by blast
  have st: "set (concat ns') = set ps \<union> set (concat ns)"
    using mset_eq_setD [of "concat ns'" "ps @ concat ns"] S(4) by simp
  have "set (concat cs') \<inter> set (concat ns') = {}" using Cons.prems(3) st cs by auto
  moreover have "set rs \<subseteq> set (concat cs')" if "rs \<in> set cs'" for rs using that by (auto simp: set_concat)
  ultimately have "\<forall>q\<in>set rs. h' q = h q" if "rs \<in> set cs'" for rs using that S(6) by blast
  then have "chain (nexts h) q rs = chain (nexts h') q rs" if "rs \<in> set cs'" for q rs
    using that by (intro chain_cong) (simp add: nexts_app)
  then have all: "list_all2 (chain (nexts h')) os cs'"
    using cs(3) by (auto simp: list_all2_conv_all_nth)
  have d: "distinct (concat cs' @ concat ns')"
    using Cons.prems(3) st S(2) cs by (auto simp: table_chains_def)
  have "RANDOM_INDEX t x < length bs'" for x using Cons.prems(4) S(3) by simp
  from Cons.IH [OF S(2) all d this] obtain h'' bs'' ns'' where R:
    "rehash_all t os h' bs' = Some (h'', bs'')" "table_chains t h'' bs'' ns''" "length bs'' = length bs'"
    "mset (concat ns'') = mset (concat cs') + mset (concat ns')" "same_entries h' h''"
    by blast
  have "same_entries h h''" using S(5) R(5) by (simp add: same_entries_def)
  then show ?case using S R cs by (auto simp: ac_simps)
qed

lemma RebuildTable_correct:
  assumes tc: "table_chains t h (buckets t) cs" and sz: "sized k t" "k < 6"
    and bl: "int (length (buckets t)) = numBuckets t"
  shows "\<exists>h' t' cs'. RebuildTable h t = Some (h', t') \<and> table_chains t' h' (buckets t') cs' \<and> sized (Suc k) t'
    \<and> int (length (buckets t')) = numBuckets t' \<and> numEntries t' = numEntries t
    \<and> mset (concat cs') = mset (concat cs) \<and> same_entries h h'"
proof -
  define t1 where "t1 = t\<lparr>numBuckets := numBuckets t * 16, rebuildSize := rebuildSize t * 16,
                 downShift := downShift t - 4, hmask := push_bit 4 (hmask t) + 15\<rparr>"
  let ?bs = "replicate (nat (numBuckets t1)) 0 :: addr list"
  let ?ns = "replicate (nat (numBuckets t1)) [] :: addr list list"
  have "hmask t1 = mask (4 * Suc (Suc k))"
    using sz by (simp add: t1_def sized_def mask_eq_exp_minus_1 push_bit_eq_mult power_add algebra_simps)
  then have sz1: "sized (Suc k) t1" using sz by (simp add: t1_def sized_def)
  have ix: "RANDOM_INDEX t1 x < length ?bs" for x using RANDOM_INDEX_bound [OF sz1] by simp
  have empty: "concat ?ns = []" by simp
  have tc1: "table_chains t1 h ?bs ?ns" by (simp add: table_chains_def empty)
  have l2: "list_all2 (chain (nexts h)) (buckets t) cs"
    using tc by (auto simp: table_chains_def list_all2_conv_all_nth)
  have d: "distinct (concat cs @ concat ?ns)" using tc by (simp add: table_chains_def empty)
  obtain h' bs' ns' where R: "rehash_all t1 (buckets t) h ?bs = Some (h', bs')" "table_chains t1 h' bs' ns'"
    "length bs' = length ?bs" "mset (concat ns') = mset (concat cs) + mset (concat ?ns)" "same_entries h h'"
    using rehash_all_correct [OF tc1 l2 d ix] by blast
  have "RebuildTable h t = Some (h', t1\<lparr>buckets := bs'\<rparr>)"
    using R(1) by (simp add: RebuildTable_def Let_def flip: t1_def)
  moreover have "table_chains (t1\<lparr>buckets := bs'\<rparr>) h' bs' ns'"
    using R(2) by (simp add: table_chains_def RANDOM_INDEX_def)
  moreover have "sized (Suc k) (t1\<lparr>buckets := bs'\<rparr>)" using sz1 by (simp add: sized_def)
  moreover have "int (length bs') = numBuckets t1" using R(3) sz1 by (simp add: sized_def)
  moreover have "numEntries t1 = numEntries t" by (simp add: t1_def)
  moreover have "mset (concat ns') = mset (concat cs)" using R(4) empty by simp
  ultimately show ?thesis using R(5)
    by (intro exI [of _ h'] exI [of _ "t1\<lparr>buckets := bs'\<rparr>"] exI [of _ ns']) simp
qed

lemma hash_inv_entries:
  assumes "mset (concat cs') = mset (concat cs)" "same_entries h h'"
  shows "(\<forall>p\<in>set (concat cs'). hhash (h' p) = HashStringKey (hkey (h' p)) \<and> 0 \<notin> set (hkey (h' p)))
      = (\<forall>p\<in>set (concat cs). hhash (h p) = HashStringKey (hkey (h p)) \<and> 0 \<notin> set (hkey (h p)))"
    and "inj_on (\<lambda>p. hkey (h' p)) (set (concat cs')) = inj_on (\<lambda>p. hkey (h p)) (set (concat cs))"
    and "length (concat cs') = length (concat cs)"
  using mset_eq_setD [OF assms(1)] mset_eq_length [OF assms(1)] assms(2)
  by (simp_all add: same_entries_def)

section \<open>The operations against the map\<close>

lemma find_correct:
  assumes "hash_rep (h, t) m" "0 \<notin> set key"
  shows "ctable_FindHashEntry h t key = Some (case m key of None \<Rightarrow> 0 | Some p \<Rightarrow> p)"
proof -
  obtain cs where inv: "hash_inv h t cs" and m: "\<forall>key p. m key = Some p \<longleftrightarrow> p \<in> set (concat cs) \<and> hkey (h p) = key"
    using assms(1) by (auto simp: hash_rep_def)
  show ?thesis
    using bucket_find_inv [OF inv assms(2)] find_rep [OF inv m, of key]
    by (auto simp: ctable_FindHashEntry_def ctable_InitHashEntry_def ctable_InitOrStoreHashEntry_def Let_def
        split: option.splits)
qed

lemma rep_not_null:
  assumes "hash_rep ht m" "m key = Some p"
  shows "p \<noteq> 0"
proof -
  obtain cs where inv: "hash_inv (fst ht) (snd ht) cs" and p: "p \<in> set (concat cs)"
    using assms by (auto simp: hash_rep_def)
  obtain i where i: "i < length cs" "p \<in> set (cs ! i)" using in_concat_nth [OF p] by blast
  note tc = hash_invD(1) [OF inv]
  have "chain (nexts (fst ht)) (buckets (snd ht) ! i) (cs ! i)"
    using table_chainsD(3) [OF tc] table_chainsD(1) [OF tc] i(1) by simp
  from chain_not_null [OF this] i(2) show ?thesis by metis
qed

lemma store_known:
  assumes "hash_rep (h, t) m" "0 \<notin> set key" "m key = Some q"
  shows "ctable_StoreHashEntry h t key p want = Some (h, t, q, if want then Some 0 else None)"
proof -
  obtain cs where inv: "hash_inv h t cs" and m: "\<forall>key p. m key = Some p \<longleftrightarrow> p \<in> set (concat cs) \<and> hkey (h p) = key"
    using assms(1) by (auto simp: hash_rep_def)
  show ?thesis
    using bucket_find_inv [OF inv assms(2)] find_rep [OF inv m, of key] assms(3) rep_not_null [OF assms(1, 3)]
    by (simp add: ctable_StoreHashEntry_def ctable_InitOrStoreHashEntry_def Let_def)
qed

text \<open>The number of entries below which the shift count stays non-negative.\<close>

definition HASH_LIMIT :: int where
  "HASH_LIMIT = 48 * 16 ^ 6"

lemma store_new:
  assumes rep: "hash_rep (h, t) m" and key: "0 \<notin> set key" and new: "m key = None"
    and p: "p \<noteq> 0" "p \<notin> ran m" and lim: "numEntries t + 1 < HASH_LIMIT"
  shows "\<exists>h' t'. ctable_StoreHashEntry h t key p True = Some (h', t', p, Some 1)
    \<and> hash_rep (h', t') (m(key \<mapsto> p)) \<and> numEntries t' = numEntries t + 1"
proof -
  obtain cs where inv: "hash_inv h t cs" and m: "\<forall>key p. m key = Some p \<longleftrightarrow> p \<in> set (concat cs) \<and> hkey (h p) = key"
    using rep by (auto simp: hash_rep_def)
  have pn: "p \<notin> set (concat cs)" using m p(2) by (auto simp: ran_def)
  define i where "i = RANDOM_INDEX t (HashStringKey key)"
  have i: "i < length (buckets t)" unfolding i_def by (rule hash_index [OF inv])
  define e where "e = \<lparr>nextPtr = buckets t ! i, hkey = key, hhash = HashStringKey key\<rparr>"
  define h1 where "h1 = h(p := e)"
  define t1 where "t1 = t\<lparr>buckets := (buckets t)[i := p], numEntries := numEntries t + 1\<rparr>"
  define cs1 where "cs1 = cs[i := p # cs ! i]"
  have bf: "bucket_find h (HashStringKey key) key (buckets t ! i) = Some 0"
    using bucket_find_inv [OF inv key] find_rep [OF inv m, of key] new by (simp add: i_def)
  have len: "i < length cs" "length cs = length (buckets t)"
    using inv i by (simp_all add: hash_inv_def table_chains_def)
  have ms: "mset (concat cs1) = mset (p # concat cs)" unfolding cs1_def using mset_concat_push [OF len(1)] by simp
  have st: "set (concat cs1) = insert p (set (concat cs))" using mset_eq_setD [OF ms] by simp
  have "table_chains t h1 (buckets t1) cs1"
    unfolding h1_def cs1_def t1_def using inv i p pn
    by simp (intro table_chains_push, auto simp: hash_inv_def e_def i_def)
  then have tc1: "table_chains t1 h1 (buckets t1) cs1" by (simp add: table_chains_def RANDOM_INDEX_def t1_def)
  have ent: "\<forall>q\<in>set (concat cs1). hhash (h1 q) = HashStringKey (hkey (h1 q)) \<and> 0 \<notin> set (hkey (h1 q))"
    using inv pn key by (auto simp: st h1_def e_def hash_inv_def)
  have inj: "inj_on (\<lambda>q. hkey (h1 q)) (set (concat cs1))"
  proof -
    have "key \<noteq> hkey (h q)" if "q \<in> set (concat cs)" for q using m new that by (metis option.distinct(1))
    moreover note hash_invD(7) [OF inv]
    moreover have "hkey (h1 q) = (if q = p then key else hkey (h q))" for q by (simp add: h1_def e_def)
    ultimately show ?thesis using pn unfolding st inj_on_def by auto
  qed
  have cnt: "numEntries t1 = int (length (concat cs1))"
    using inv mset_eq_length [OF ms] by (simp add: t1_def hash_inv_def)
  obtain k where k: "sized k t" using inv by (auto simp: hash_inv_def)
  then have k1: "sized k t1" by (simp add: sized_def t1_def)
  have bl: "int (length (buckets t1)) = numBuckets t1" using inv by (simp add: t1_def hash_inv_def)
  have m1: "\<forall>key' q. (m(key \<mapsto> p)) key' = Some q \<longleftrightarrow> q \<in> set (concat cs1) \<and> hkey (h1 q) = key'"
  proof (intro allI)
    fix key' q
    have "m key \<noteq> Some q" using new by simp
    then have "q \<in> set (concat cs) \<Longrightarrow> hkey (h q) \<noteq> key" using m by blast
    then show "(m(key \<mapsto> p)) key' = Some q \<longleftrightarrow> q \<in> set (concat cs1) \<and> hkey (h1 q) = key'"
      using m pn unfolding st h1_def e_def by auto
  qed
  show ?thesis
  proof (cases "numEntries t1 \<ge> rebuildSize t1")
    case False
    have "ctable_StoreHashEntry h t key p True = Some (h1, t1, p, Some 1)"
      using bf p(1) False
      by (simp add: ctable_StoreHashEntry_def ctable_InitOrStoreHashEntry_def Let_def h1_def e_def t1_def flip: i_def)
    moreover have "hash_inv h1 t1 cs1"
      using tc1 k1 bl cnt False ent inj by (auto simp: hash_inv_def)
    ultimately show ?thesis using m1 by (auto simp: hash_rep_def t1_def)
  next
    case True
    have "rebuildSize t \<le> numEntries t + 1" using True by (simp add: t1_def)
    then have "(48 :: int) * 16 ^ k < 48 * 16 ^ 6" using lim k by (simp add: sized_def HASH_LIMIT_def)
    then have "(16 :: int) ^ k < 16 ^ 6" by linarith
    then have k6: "k < 6" by (rule power_less_imp_less_exp [rotated]) simp
    obtain h' t' cs' where R: "RebuildTable h1 t1 = Some (h', t')" "table_chains t' h' (buckets t') cs'"
      "sized (Suc k) t'" "int (length (buckets t')) = numBuckets t'" "numEntries t' = numEntries t1"
      "mset (concat cs') = mset (concat cs1)" "same_entries h1 h'"
      using RebuildTable_correct [OF tc1 k1 k6 bl] by blast
    have "ctable_StoreHashEntry h t key p True = Some (h', t', p, Some 1)"
      using bf p(1) True R(1)
      by (simp add: ctable_StoreHashEntry_def ctable_InitOrStoreHashEntry_def Let_def h1_def e_def t1_def flip: i_def)
    moreover have "hash_inv h' t' cs'"
    proof -
      have "numEntries t < 48 * 16 ^ k" using inv k by (auto simp: hash_inv_def sized_def)
      moreover have "(1 :: int) \<le> 16 ^ k" by simp
      moreover have "rebuildSize t' = 768 * 16 ^ k" using R(3) by (simp add: sized_def)
      moreover have "numEntries t' = numEntries t + 1" using R(5) by (simp add: t1_def)
      ultimately have "numEntries t' < rebuildSize t'" by linarith
      then show ?thesis
        unfolding hash_inv_def using R ent inj cnt hash_inv_entries [OF R(6, 7)] by auto
    qed
    moreover have "\<forall>key' q. (m(key \<mapsto> p)) key' = Some q \<longleftrightarrow> q \<in> set (concat cs') \<and> hkey (h' q) = key'"
      using m1 mset_eq_setD [OF R(6)] R(7) by (simp add: same_entries_def)
    ultimately show ?thesis using R(5) by (auto simp: hash_rep_def t1_def)
  qed
qed

text \<open>Deletion.\<close>

lemma unlink_after_absent:
  "chain (nexts h) p ps \<Longrightarrow> e \<notin> set (tl ps) \<Longrightarrow> e \<noteq> 0 \<Longrightarrow> unlink_after h e p = Some None"
proof (induction ps arbitrary: p)
  case Nil
  then show ?case by (simp add: unlink_after.simps)
next
  case (Cons q ps)
  then have q: "p = q" "q \<noteq> 0" "chain (nexts h) (nextPtr (h q)) ps" by auto
  have "nextPtr (h q) \<noteq> e" using q(3) Cons.prems by (cases ps) auto
  moreover have "unlink_after h e (nextPtr (h q)) = Some None"
  proof (rule Cons.IH [OF q(3) _ Cons.prems(3)])
    show "e \<notin> set (tl ps)" using Cons.prems(2) by (cases ps) auto
  qed
  ultimately show ?case using q by (subst unlink_after.simps) simp
qed

lemma unlink_after_found:
  "chain (nexts h) p (xs @ a # e # ys) \<Longrightarrow> distinct (xs @ a # e # ys) \<Longrightarrow>
     unlink_after h e p = Some (Some (h(a := (h a)\<lparr>nextPtr := nextPtr (h e)\<rparr>)))"
proof (induction xs arbitrary: p)
  case Nil
  then show ?case by (subst unlink_after.simps) auto
next
  case (Cons x xs)
  then have x: "p = x" "x \<noteq> 0" "chain (nexts h) (nextPtr (h x)) (xs @ a # e # ys)" by auto
  have "nextPtr (h x) \<noteq> e" using x(3) Cons.prems(2) by (cases xs) auto
  moreover have "unlink_after h e (nextPtr (h x)) = Some (Some (h(a := (h a)\<lparr>nextPtr := nextPtr (h e)\<rparr>)))"
    using Cons.prems(2) by (intro Cons.IH [OF x(3)]) simp
  ultimately show ?case using x(1, 2) by (subst unlink_after.simps) simp
qed

lemma delete_correct:
  assumes rep: "hash_rep (h, t) m" and mem: "m key = Some p"
  shows "\<exists>h' t'. ctable_DeleteHashEntry h t p = Some (Some (h', t')) \<and> hash_rep (h', t') (m(key := None))
    \<and> numEntries t' = numEntries t - 1"
proof -
  obtain cs where inv: "hash_inv h t cs" and m: "\<forall>key p. m key = Some p \<longleftrightarrow> p \<in> set (concat cs) \<and> hkey (h p) = key"
    using rep by (auto simp: hash_rep_def)
  have p: "p \<in> set (concat cs)" "hkey (h p) = key" using m mem by auto
  define i where "i = RANDOM_INDEX t (hhash (h p))"
  note tc = table_chainsD [OF hash_invD(1) [OF inv]]
  have i: "i < length (buckets t)" "p \<in> set (cs ! i)"
    using chains_key [OF inv p(1)] hash_invD(5) [OF inv p(1)] by (auto simp: i_def)
  obtain xs ys where cs: "cs ! i = xs @ p # ys" using split_list [OF i(2)] by blast
  note ch = tc(3) [OF i(1)]
  have d: "distinct (cs ! i)" using distinct_concat_member [OF tc(2)] i(1) tc(1) by simp
  define cs' where "cs' = cs[i := xs @ ys]"
  have len: "i < length cs" using i tc(1) by simp
  have "mset (concat cs') + mset (cs ! i) = mset (concat cs) + mset (xs @ ys)"
    unfolding cs'_def by (rule mset_concat_update [OF len])
  then have ms: "mset (p # concat cs') = mset (concat cs)" using cs by simp
  have dst: "distinct (p # concat cs')" using mset_eq_imp_distinct_iff [OF ms] tc(2) by simp
  have st: "set (concat cs) = insert p (set (concat cs'))" using mset_eq_setD [OF ms] by simp
  define h' where "h' = (if xs = [] then h else h(last xs := (h (last xs))\<lparr>nextPtr := nextPtr (h p)\<rparr>))"
  define t' where "t' = (if xs = [] then t\<lparr>buckets := (buckets t)[i := nextPtr (h p)], numEntries := numEntries t - 1\<rparr>
      else t\<lparr>numEntries := numEntries t - 1\<rparr>)"
  have same: "same_entries h h'" by (simp add: same_entries_def h'_def)
  have del: "ctable_DeleteHashEntry h t p = Some (Some (h', t'))"
  proof (cases "xs = []")
    case True
    then have "buckets t ! i = p" using ch cs by simp
    then show ?thesis using True by (simp add: ctable_DeleteHashEntry_def Let_def h'_def t'_def flip: i_def)
  next
    case False
    then have xs: "xs = butlast xs @ [last xs]" by simp
    have "buckets t ! i \<noteq> p" using ch cs d False by (cases xs) auto
    moreover have "unlink_after h p (buckets t ! i) = Some (Some h')"
    proof -
      have "cs ! i = butlast xs @ last xs # p # ys"
        using cs xs by (metis append.assoc append_Cons append_Nil)
      then show ?thesis using unlink_after_found ch d False by (simp add: h'_def)
    qed
    ultimately show ?thesis using False
      by (simp add: ctable_DeleteHashEntry_def Let_def t'_def flip: i_def)
  qed
  have ch': "chain (nexts h') (buckets t' ! i) (xs @ ys)"
  proof (cases "xs = []")
    case True
    then show ?thesis using ch cs i by (simp add: h'_def t'_def)
  next
    case False
    then have xs: "xs = butlast xs @ [last xs]" by simp
    have e: "butlast xs @ last xs # zs = xs @ zs" for zs
      using xs by (metis append.assoc append_Cons append_Nil)
    have "chain (nexts h) (buckets t ! i) (butlast xs @ last xs # p # ys)"
      "distinct (butlast xs @ last xs # p # ys)" using ch d cs unfolding e by simp_all
    from chain_unlink [OF this] have "chain ((nexts h)(last xs := nextPtr (h p))) (buckets t ! i) (xs @ ys)"
      unfolding e by (simp add: nexts_app)
    then show ?thesis using False by (simp add: h'_def t'_def)
  qed
  have "chain (nexts h') (buckets t' ! j) (cs' ! j) \<and> (\<forall>q\<in>set (cs' ! j). RANDOM_INDEX t' (hhash (h' q)) = j)"
    if j: "j < length (buckets t')" for j
  proof (cases "j = i")
    case True
    then show ?thesis using ch' len tc(4) [OF i(1)] cs same
      by (auto simp: cs'_def same_entries_def RANDOM_INDEX_def t'_def)
  next
    case False
    have jl: "j < length (buckets t)" using j by (simp add: t'_def split: if_splits)
    have "set (cs ! j) \<inter> set (cs ! i) = {}"
      using distinct_concat_nth [OF tc(2)] False jl i tc(1) by simp
    then have "last xs \<notin> set (cs ! j)" if "xs \<noteq> []" using that cs by auto
    then have "chain (nexts h') (buckets t ! j) (cs ! j)" using tc(3) [OF jl] by (simp add: h'_def)
    then show ?thesis using False tc(4) [OF jl] same
      by (auto simp: cs'_def t'_def same_entries_def RANDOM_INDEX_def)
  qed
  then have "table_chains t' h' (buckets t') cs'"
    using dst tc(1) by (simp add: table_chains_def cs'_def t'_def)
  moreover obtain k where "sized k t" using hash_invD(8) [OF inv] by blast
  then have "sized k t'" by (simp add: sized_def t'_def)
  moreover have "\<forall>q\<in>set (concat cs'). hhash (h' q) = HashStringKey (hkey (h' q)) \<and> 0 \<notin> set (hkey (h' q))"
    using hash_invD(5, 6) [OF inv] same st by (simp add: same_entries_def)
  moreover have "inj_on (\<lambda>q. hkey (h' q)) (set (concat cs'))"
    using hash_invD(7) [OF inv] same st by (simp add: same_entries_def)
  moreover have "numEntries t' = int (length (concat cs'))"
    using hash_invD(3) [OF inv] mset_eq_length [OF ms] by (simp add: t'_def)
  ultimately have "hash_inv h' t' cs'"
    using hash_invD(2, 4) [OF inv] unfolding hash_inv_def t'_def by auto
  moreover have "\<forall>key' q. (m(key := None)) key' = Some q \<longleftrightarrow> q \<in> set (concat cs') \<and> hkey (h' q) = key'"
  proof (intro allI)
    fix key' q
    have "q = p" if "q \<in> set (concat cs)" "hkey (h q) = key"
      using hash_invD(7) [OF inv] that p by (auto simp: inj_on_def)
    then show "(m(key := None)) key' = Some q \<longleftrightarrow> q \<in> set (concat cs') \<and> hkey (h' q) = key'"
      using m p dst same by (auto simp: st same_entries_def)
  qed
  ultimately show ?thesis using del by (auto simp: hash_rep_def t'_def)
qed

section \<open>Enumeration and statistics\<close>

definition visit_state :: "hheap \<Rightarrow> addr list list \<Rightarrow> hash_search \<Rightarrow> addr list \<Rightarrow> bool" where
  "visit_state h cs s rem \<longleftrightarrow> (\<exists>ps. chain (nexts h) (nextEntryPtr s) ps
     \<and> rem = ps @ concat (drop (nextIndex s) cs))"

lemma NextHashEntry_step:
  assumes tc: "table_chains t h (buckets t) cs" and nb: "int (length (buckets t)) = numBuckets t"
    and vs: "visit_state h cs s rem"
  shows "if rem = [] then fst (ctable_NextHashEntry h t s) = 0
    else fst (ctable_NextHashEntry h t s) = hd rem \<and> hd rem \<noteq> 0
      \<and> visit_state h cs (snd (ctable_NextHashEntry h t s)) (tl rem)"
  using vs
proof (induction "length cs - nextIndex s" arbitrary: s)
  case 0
  then have d: "drop (nextIndex s) cs = []" by simp
  have ge: "numBuckets t \<le> int (nextIndex s)" using 0 nb table_chainsD(1) [OF tc] by linarith
  obtain ps where ps: "chain (nexts h) (nextEntryPtr s) ps" "rem = ps"
    using 0(2) by (auto simp: visit_state_def d)
  then show ?case using ge d
    by (cases ps) (auto simp: ctable_NextHashEntry.simps [of h t s] visit_state_def)
next
  case (Suc n)
  then have i: "nextIndex s < length cs" by simp
  obtain ps where ps: "chain (nexts h) (nextEntryPtr s) ps" "rem = ps @ concat (drop (nextIndex s) cs)"
    using Suc(3) by (auto simp: visit_state_def)
  show ?case
  proof (cases ps)
    case (Cons q qs)
    then show ?thesis using ps by (auto simp: ctable_NextHashEntry.simps [of h t s] visit_state_def)
  next
    case Nil
    let ?s = "s\<lparr>nextEntryPtr := buckets t ! nextIndex s, nextIndex := Suc (nextIndex s)\<rparr>"
    have "visit_state h cs ?s rem"
      using ps Nil i table_chainsD(3) [OF tc, of "nextIndex s"] table_chainsD(1) [OF tc]
      by (auto simp: visit_state_def Cons_nth_drop_Suc [symmetric])
    moreover have "n = length cs - nextIndex ?s" using Suc(2) by simp
    ultimately have "if rem = [] then fst (ctable_NextHashEntry h t ?s) = 0
      else fst (ctable_NextHashEntry h t ?s) = hd rem \<and> hd rem \<noteq> 0
        \<and> visit_state h cs (snd (ctable_NextHashEntry h t ?s)) (tl rem)" by (intro Suc(1)) auto
    moreover have "ctable_NextHashEntry h t s = ctable_NextHashEntry h t ?s"
      using ps Nil i nb table_chainsD(1) [OF tc] by (subst ctable_NextHashEntry.simps) simp
    ultimately show ?thesis by simp
  qed
qed

lemma hash_visit_all:
  assumes tc: "table_chains t h (buckets t) cs" and nb: "int (length (buckets t)) = numBuckets t"
  shows "visit_state h cs s rem \<Longrightarrow> hash_visit h t (ctable_NextHashEntry h t s) = Some rem"
proof (induction rem arbitrary: s)
  case Nil
  then show ?case using NextHashEntry_step [OF tc nb Nil] by (subst hash_visit.simps) simp
next
  case (Cons q rem)
  have "hash_visit h t (ctable_NextHashEntry h t (snd (ctable_NextHashEntry h t s))) = Some rem"
    using NextHashEntry_step [OF tc nb Cons.prems] by (intro Cons.IH) simp
  then show ?case using NextHashEntry_step [OF tc nb Cons.prems] by (subst hash_visit.simps) simp
qed

lemma chain_length_chain: "chain (nexts h) p ps \<Longrightarrow> chain_length h p j = Some (j + length ps)"
proof (induction ps arbitrary: p j)
  case (Cons q ps)
  have "chain_length h (nextPtr (h q)) (Suc j) = Some (Suc j + length ps)"
    using Cons.prems by (intro Cons.IH) simp
  then show ?case using Cons.prems by (subst chain_length.simps) simp
qed (simp add: chain_length.simps)

lemma count_buckets_chains:
  "list_all2 (chain (nexts h)) bs cs \<Longrightarrow> length cnt = 10 \<Longrightarrow>
    count_buckets h bs cnt ov = Some
      (map (\<lambda>j. cnt ! j + length (filter (\<lambda>c. length c = j) cs)) [0..<10],
       ov + length (filter (\<lambda>c. 10 \<le> length c) cs))"
proof (induction bs arbitrary: cs cnt ov)
  case Nil
  then show ?case by (auto intro!: nth_equalityI)
next
  case (Cons b bs)
  then obtain c cs' where cs: "cs = c # cs'" "chain (nexts h) b c" "list_all2 (chain (nexts h)) bs cs'"
    by (auto simp: list_all2_Cons1)
  note IH = Cons.IH [OF cs(3)]
  show ?case
    using Cons.prems(2) cs(1) IH [of "cnt[length c := cnt ! length c + 1]" ov] IH [of cnt "ov + 1"]
      chain_length_chain [OF cs(2), of 0]
    by (auto simp: nth_list_update)
qed

lemma histogram_total:
  "(\<Sum>j\<leftarrow>[0..<n]. length (filter (\<lambda>c. length c = j) cs)) + length (filter (\<lambda>c. n \<le> length c) cs) = length cs"
proof (induction n)
  case (Suc n)
  have "length (filter (\<lambda>c. n \<le> length c) cs)
      = length (filter (\<lambda>c. length c = n) cs) + length (filter (\<lambda>c. Suc n \<le> length c) cs)"
    by (induction cs) auto
  then show ?case using Suc by simp
qed simp

section \<open>The table as a key store\<close>

lemma init_rep: "hash_rep (h, ctable_InitHashTable) Map.empty"
proof -
  have "sized 0 ctable_InitHashTable" by (simp add: sized_def ctable_InitHashTable_def mask_eq_exp_minus_1)
  then have "hash_inv h ctable_InitHashTable (replicate 16 [])"
    unfolding hash_inv_def table_chains_def
    by (auto simp: ctable_InitHashTable_def set_concat)
  then show ?thesis by (force simp: hash_rep_def set_concat)
qed

text \<open>What users of a keyed table rely on; the outer option of a result is non-termination or a panic.\<close>

locale key_store =
  fixes rep :: "'s \<Rightarrow> ('k \<rightharpoonup> 'v) \<Rightarrow> bool"
    and count :: "'s \<Rightarrow> int" and cap :: int
    and good :: "'k \<Rightarrow> bool" and valid :: "'v \<Rightarrow> bool"
    and find :: "'s \<Rightarrow> 'k \<Rightarrow> 'v option option"
    and store :: "'s \<Rightarrow> 'k \<Rightarrow> 'v \<Rightarrow> ('s \<times> 'v) option"
    and delete :: "'s \<Rightarrow> 'v \<Rightarrow> 's option"
  assumes find_law: "rep s m \<Longrightarrow> good k \<Longrightarrow> find s k = Some (m k)"
    and store_known_law: "rep s m \<Longrightarrow> good k \<Longrightarrow> m k = Some w \<Longrightarrow> store s k v = Some (s, w)"
    and store_new_law: "rep s m \<Longrightarrow> good k \<Longrightarrow> m k = None \<Longrightarrow> valid v \<Longrightarrow> v \<notin> ran m \<Longrightarrow> count s + 1 < cap \<Longrightarrow>
      \<exists>s'. store s k v = Some (s', v) \<and> rep s' (m(k \<mapsto> v)) \<and> count s' = count s + 1"
    and delete_law: "rep s m \<Longrightarrow> m k = Some v \<Longrightarrow>
      \<exists>s'. delete s v = Some s' \<and> rep s' (m(k := None)) \<and> count s' = count s - 1"

text \<open>Sequences of lookups, insertions and removals by key, on a store and on a map.\<close>

datatype ('k, 'v) key_cmd = Lookup 'k | Insert 'k 'v | Remove 'k

fun store_cmd :: "('s \<Rightarrow> 'k \<Rightarrow> 'v option option) \<Rightarrow> ('s \<Rightarrow> 'k \<Rightarrow> 'v \<Rightarrow> ('s \<times> 'v) option) \<Rightarrow> ('s \<Rightarrow> 'v \<Rightarrow> 's option)
    \<Rightarrow> 's \<Rightarrow> ('k, 'v) key_cmd \<Rightarrow> ('s \<times> 'v option) option" where
  "store_cmd f st d s (Lookup k) = map_option (\<lambda>r. (s, r)) (f s k)"
| "store_cmd f st d s (Insert k v) = map_option (\<lambda>(s', w). (s', Some w)) (st s k v)"
| "store_cmd f st d s (Remove k) =
     Option.bind (f s k) (\<lambda>r. case r of None \<Rightarrow> Some (s, None) | Some v \<Rightarrow> map_option (\<lambda>s'. (s', Some v)) (d s v))"

fun store_run :: "('s \<Rightarrow> 'k \<Rightarrow> 'v option option) \<Rightarrow> ('s \<Rightarrow> 'k \<Rightarrow> 'v \<Rightarrow> ('s \<times> 'v) option) \<Rightarrow> ('s \<Rightarrow> 'v \<Rightarrow> 's option)
    \<Rightarrow> 's \<Rightarrow> ('k, 'v) key_cmd list \<Rightarrow> 'v option list option" where
  "store_run f st d s [] = Some []"
| "store_run f st d s (c # cs) =
     Option.bind (store_cmd f st d s c) (\<lambda>(s', r). map_option ((#) r) (store_run f st d s' cs))"

fun map_cmd :: "('k \<rightharpoonup> 'v) \<Rightarrow> ('k, 'v) key_cmd \<Rightarrow> ('k \<rightharpoonup> 'v) \<times> 'v option" where
  "map_cmd m (Lookup k) = (m, m k)"
| "map_cmd m (Insert k v) = (case m k of Some w \<Rightarrow> (m, Some w) | None \<Rightarrow> (m(k \<mapsto> v), Some v))"
| "map_cmd m (Remove k) = (m(k := None), m k)"

fun map_run :: "('k \<rightharpoonup> 'v) \<Rightarrow> ('k, 'v) key_cmd list \<Rightarrow> 'v option list" where
  "map_run m [] = []"
| "map_run m (c # cs) = snd (map_cmd m c) # map_run (fst (map_cmd m c)) cs"

text \<open>The caller's obligations: proper keys, and an entry that is inserted is not in the table yet.\<close>

fun cmd_ok :: "('k \<Rightarrow> bool) \<Rightarrow> ('v \<Rightarrow> bool) \<Rightarrow> ('k \<rightharpoonup> 'v) \<Rightarrow> ('k, 'v) key_cmd \<Rightarrow> bool" where
  "cmd_ok good valid m (Lookup k) = good k"
| "cmd_ok good valid m (Insert k v) = (good k \<and> valid v \<and> v \<notin> ran m)"
| "cmd_ok good valid m (Remove k) = good k"

fun cmds_ok :: "('k \<Rightarrow> bool) \<Rightarrow> ('v \<Rightarrow> bool) \<Rightarrow> ('k \<rightharpoonup> 'v) \<Rightarrow> ('k, 'v) key_cmd list \<Rightarrow> bool" where
  "cmds_ok good valid m [] = True"
| "cmds_ok good valid m (c # cs) = (cmd_ok good valid m c \<and> cmds_ok good valid (fst (map_cmd m c)) cs)"

context key_store
begin

lemma store_cmd_simulates:
  assumes "rep s m" "cmd_ok good valid m c" "count s + 1 < cap"
  shows "\<exists>s'. store_cmd find store delete s c = Some (s', snd (map_cmd m c)) \<and> rep s' (fst (map_cmd m c))
    \<and> count s' \<le> count s + 1"
proof (cases c)
  case (Lookup k)
  then show ?thesis using assms find_law by simp
next
  case (Insert k v)
  show ?thesis
  proof (cases "m k")
    case None
    then show ?thesis using store_new_law [OF assms(1) _ None _ _ assms(3), of v] assms(2) Insert by auto
  next
    case (Some w)
    then show ?thesis using store_known_law [OF assms(1) _ Some, of v] assms Insert by auto
  qed
next
  case (Remove k)
  show ?thesis
  proof (cases "m k")
    case None
    then show ?thesis using find_law [OF assms(1)] assms Remove by (auto simp: fun_upd_idem)
  next
    case (Some v)
    then show ?thesis using find_law [OF assms(1)] delete_law [OF assms(1) Some] assms Remove by auto
  qed
qed

lemma store_run_simulates:
  "\<lbrakk>rep s m; cmds_ok good valid m cs; count s + int (length cs) < cap\<rbrakk>
    \<Longrightarrow> store_run find store delete s cs = Some (map_run m cs)"
proof (induction cs arbitrary: s m)
  case (Cons c cs)
  obtain s' where s': "store_cmd find store delete s c = Some (s', snd (map_cmd m c))" "rep s' (fst (map_cmd m c))"
    "count s' \<le> count s + 1"
    using store_cmd_simulates [OF Cons.prems(1), of c] Cons.prems by auto
  have "store_run find store delete s' cs = Some (map_run (fst (map_cmd m c)) cs)"
    using Cons.prems s' by (intro Cons.IH) auto
  then show ?case using s' by simp
qed simp

end

text \<open>The hash table as such a store: the generated table code calls the three operations like this.\<close>

definition ht_find :: "hheap \<times> hash_table \<Rightarrow> cstring \<Rightarrow> addr option option" where
  "ht_find s key = map_option (\<lambda>p. if p = 0 then None else Some p) (ctable_FindHashEntry (fst s) (snd s) key)"

definition ht_store :: "hheap \<times> hash_table \<Rightarrow> cstring \<Rightarrow> addr \<Rightarrow> ((hheap \<times> hash_table) \<times> addr) option" where
  "ht_store s key p = map_option (\<lambda>(h', t', q, new). ((h', t'), q)) (ctable_StoreHashEntry (fst s) (snd s) key p True)"

definition ht_delete :: "hheap \<times> hash_table \<Rightarrow> addr \<Rightarrow> (hheap \<times> hash_table) option" where
  "ht_delete s p = Option.bind (ctable_DeleteHashEntry (fst s) (snd s) p) id"

definition nul_free :: "cstring \<Rightarrow> bool" where
  "nul_free key \<longleftrightarrow> 0 \<notin> set key"

definition not_null :: "addr \<Rightarrow> bool" where
  "not_null p \<longleftrightarrow> p \<noteq> 0"

interpretation ht: key_store hash_rep "\<lambda>s. numEntries (snd s)" HASH_LIMIT nul_free not_null ht_find ht_store ht_delete
proof (unfold_locales, goal_cases)
  case (1 s m k)
  then show ?case using find_correct [of "fst s" "snd s" m k] rep_not_null [of s m k]
    by (auto simp: ht_find_def nul_free_def split: option.splits)
next
  case (2 s m k w v)
  then show ?case using store_known [of "fst s" "snd s" m k w v True] by (simp add: ht_store_def nul_free_def)
next
  case (3 s m k v)
  then obtain h' t' where "ctable_StoreHashEntry (fst s) (snd s) k v True = Some (h', t', v, Some 1)"
    "hash_rep (h', t') (m(k \<mapsto> v))" "numEntries t' = numEntries (snd s) + 1"
    using store_new [of "fst s" "snd s" m k v] by (auto simp: nul_free_def not_null_def)
  then show ?case by (auto simp: ht_store_def)
next
  case (4 s m k v)
  then obtain h' t' where "ctable_DeleteHashEntry (fst s) (snd s) v = Some (Some (h', t'))"
    "hash_rep (h', t') (m(k := None))" "numEntries t' = numEntries (snd s) - 1"
    using delete_correct [of "fst s" "snd s" m k v] by auto
  then show ?case by (auto simp: ht_delete_def)
qed

section \<open>Properties\<close>

text \<open>A heap to apply the theorems to.\<close>

definition blank_heap :: hheap where
  "blank_heap = (\<lambda>p. \<lparr>nextPtr = 0, hkey = [], hhash = 0\<rparr>)"

text \<open>
  C24. A hash table behaves as a finite map: starting from \<^verbatim>\<open>ctable_InitHashTable\<close>, every sequence of
  lookups, insertions and removals (short of the 805306368 entries at which the shift count would
  become negative) terminates without a panic and answers exactly as the map does, through
  every rehashing.
\<close>

theorem hash_table_is_map:
  assumes "cmds_ok nul_free not_null Map.empty cmds" and "int (length cmds) < HASH_LIMIT"
  shows "store_run ht_find ht_store ht_delete (h, ctable_InitHashTable) cmds = Some (map_run Map.empty cmds)"
proof (rule ht.store_run_simulates)
  show "hash_rep (h, ctable_InitHashTable) Map.empty" by (rule init_rep)
qed (use assms in \<open>auto simp: ctable_InitHashTable_def\<close>)

lemma hash_table_is_map_witness:
  "store_run ht_find ht_store ht_delete (blank_heap, ctable_InitHashTable)
     [Insert [65] 8, Insert [66] 16, Insert [65] 24, Remove [65], Lookup [65], Lookup [66]]
   = Some [Some 8, Some 16, Some 8, Some 8, None, Some 16]"
  using hash_table_is_map [of "[Insert [65] 8, Insert [66] 16, Insert [65] 24, Remove [65], Lookup [65], Lookup [66]]" blank_heap]
  by (simp add: nul_free_def not_null_def HASH_LIMIT_def)

text \<open>
  Every size: storing an entry under a new key, also when it triggers \<^verbatim>\<open>RebuildTable\<close>, keeps the
  whole invariant (chains are disjoint, every entry is in the bucket its hash selects, the counters
  are exact, no 32 bit field overflows) and extends the map by exactly that key.
\<close>

theorem store_preserves:
  assumes "hash_rep (h, t) m" and "0 \<notin> set key" and "m key = None" and "p \<noteq> 0" and "p \<notin> ran m"
    and "numEntries t + 1 < HASH_LIMIT"
  shows "\<exists>h' t' k. ctable_StoreHashEntry h t key p True = Some (h', t', p, Some 1)
    \<and> hash_rep (h', t') (m(key \<mapsto> p)) \<and> sized k t' \<and> numBuckets t' < 2 ^ 31 \<and> rebuildSize t' < 2 ^ 31 \<and> 0 \<le> downShift t'"
proof -
  obtain h' t' where R: "ctable_StoreHashEntry h t key p True = Some (h', t', p, Some 1)"
    "hash_rep (h', t') (m(key \<mapsto> p))"
    using store_new [OF assms] by blast
  then obtain k where "sized k t'" by (auto simp: hash_rep_def hash_inv_def)
  then show ?thesis using R sized_bounds by blast
qed

lemma store_preserves_witness:
  "\<exists>h' t' k. ctable_StoreHashEntry blank_heap ctable_InitHashTable [65] 8 True = Some (h', t', 8, Some 1)
    \<and> hash_rep (h', t') [[65] \<mapsto> 8] \<and> sized k t' \<and> numBuckets t' < 2 ^ 31 \<and> rebuildSize t' < 2 ^ 31 \<and> 0 \<le> downShift t'"
  by (rule store_preserves [OF init_rep]) (auto simp: HASH_LIMIT_def ctable_InitHashTable_def)

text \<open>
  C25. The enumeration with \<^verbatim>\<open>ctable_FirstHashEntry\<close> and \<^verbatim>\<open>ctable_NextHashEntry\<close> ends after
  \<^verbatim>\<open>numEntries\<close> steps and returns every entry of the table exactly once.
\<close>

theorem hash_enumeration:
  assumes "hash_rep (h, t) m"
  shows "\<exists>ps. hash_visit h t (ctable_FirstHashEntry h t) = Some ps \<and> distinct ps \<and> set ps = ran m
    \<and> int (length ps) = numEntries t"
proof -
  obtain cs where inv: "hash_inv h t cs" and m: "\<forall>key p. m key = Some p \<longleftrightarrow> p \<in> set (concat cs) \<and> hkey (h p) = key"
    using assms by (auto simp: hash_rep_def)
  have "visit_state h cs \<lparr>nextIndex = 0, nextEntryPtr = 0\<rparr> (concat cs)" by (simp add: visit_state_def)
  then have "hash_visit h t (ctable_FirstHashEntry h t) = Some (concat cs)"
    unfolding ctable_FirstHashEntry_def by (rule hash_visit_all [OF hash_invD(1, 2) [OF inv]])
  moreover have "set (concat cs) = ran m" using m by (auto simp: ran_def)
  ultimately show ?thesis using hash_invD(3) [OF inv] table_chainsD(2) [OF hash_invD(1) [OF inv]] by auto
qed

lemma hash_enumeration_witness:
  "\<exists>ps. hash_visit blank_heap ctable_InitHashTable (ctable_FirstHashEntry blank_heap ctable_InitHashTable) = Some ps
    \<and> distinct ps \<and> set ps = ran (Map.empty :: cstring \<rightharpoonup> addr) \<and> int (length ps) = numEntries ctable_InitHashTable"
  by (rule hash_enumeration [OF init_rep])

text \<open>
  Deleting an entry that is not in the table is caught: \<^verbatim>\<open>ctable_DeleteHashEntry\<close> walks the
  bucket its hash selects to the end and panics, instead of corrupting a chain or looping.
\<close>

theorem delete_absent_panics:
  assumes "hash_rep (h, t) m" and "p \<notin> ran m" and "p \<noteq> 0"
  shows "ctable_DeleteHashEntry h t p = Some None"
proof -
  obtain cs where inv: "hash_inv h t cs" and m: "\<forall>key p. m key = Some p \<longleftrightarrow> p \<in> set (concat cs) \<and> hkey (h p) = key"
    using assms(1) by (auto simp: hash_rep_def)
  have pn: "p \<notin> set (concat cs)" using assms(2) m by (auto simp: ran_def)
  let ?i = "RANDOM_INDEX t (hhash (h p))"
  have i: "?i < length (buckets t)" by (rule hash_index [OF inv])
  note tc = table_chainsD [OF hash_invD(1) [OF inv]]
  have "p \<notin> set (cs ! ?i)" using set_nth_concat [of ?i cs] pn i tc(1) by auto
  then have "p \<notin> set (tl (cs ! ?i))" "buckets t ! ?i \<noteq> p"
    using tc(3) [OF i] assms(3) by (cases "cs ! ?i"; auto)+
  then show ?thesis
    using unlink_after_absent [OF tc(3) [OF i]] assms(3) by (simp add: ctable_DeleteHashEntry_def Let_def)
qed

lemma delete_absent_panics_witness:
  "ctable_DeleteHashEntry blank_heap ctable_InitHashTable 8 = Some None"
  by (rule delete_absent_panics [OF init_rep]) auto

text \<open>
  The statistics: \<^verbatim>\<open>ctable_HashStats\<close> counts every bucket exactly once, by the number of entries
  chained in it.
\<close>

theorem hash_stats_total:
  assumes "hash_rep (h, t) m"
  shows "\<exists>cnt ov. ctable_HashStats h t = Some (cnt, ov) \<and> int (sum_list cnt + ov) = numBuckets t"
proof -
  obtain cs where inv: "hash_inv h t cs" using assms by (auto simp: hash_rep_def)
  note tc = table_chainsD [OF hash_invD(1) [OF inv]]
  have "list_all2 (chain (nexts h)) (buckets t) cs" using tc by (auto simp: list_all2_conv_all_nth)
  from count_buckets_chains [OF this, of "replicate 10 0" 0]
  have "ctable_HashStats h t = Some (map (\<lambda>j. length (filter (\<lambda>c. length c = j) cs)) [0..<10],
      length (filter (\<lambda>c. 10 \<le> length c) cs))"
    using hash_invD(2) [OF inv] by (simp add: ctable_HashStats_def)
  moreover note histogram_total [of cs 10]
  ultimately show ?thesis using tc(1) hash_invD(2) [OF inv] by (metis length_map)
qed

lemma hash_stats_total_witness:
  "\<exists>cnt ov. ctable_HashStats blank_heap ctable_InitHashTable = Some (cnt, ov)
    \<and> int (sum_list cnt + ov) = numBuckets ctable_InitHashTable"
  by (rule hash_stats_total [OF init_rep])

end
