(* ===== verification/LinkedLists.thy ===== *)
theory LinkedLists
  imports Prelude
begin

text \<open>
  \<^verbatim>\<open>ctables/ctable_lists.c\<close>: the doubly linked lists that chain the rows of a table (list 0) and the
  rows of equal key in an index (list \<open>i > 0\<close>).  Every row carries one node per list.  A \<^verbatim>\<open>prev\<close>
  pointer does not point to a row but to the memory word that points to this row: the \<^verbatim>\<open>next\<close> field
  of the predecessor, or the word that holds the head of the list.  Both are slots here.

  Each operation is the sequence of its memory writes, in the order of the code, because shared
  tables are read by other processes without a lock while the master runs these operations.
\<close>

section \<open>Memory\<close>

datatype slot = HeadCell addr | NextCell addr nat

record list_mem =
  lnext :: "addr \<Rightarrow> nat \<Rightarrow> addr"
  lprev :: "addr \<Rightarrow> nat \<Rightarrow> slot option"
  lhead :: "addr \<Rightarrow> nat \<Rightarrow> slot option"
  cell :: "addr \<Rightarrow> addr"

datatype lwrite = SetNext addr nat addr | SetPrev addr nat "slot option" | SetHead addr nat "slot option"
  | SetCell addr addr

definition upd2 :: "('a \<Rightarrow> 'b \<Rightarrow> 'c) \<Rightarrow> 'a \<Rightarrow> 'b \<Rightarrow> 'c \<Rightarrow> 'a \<Rightarrow> 'b \<Rightarrow> 'c" where
  "upd2 f a b v = (\<lambda>x y. if x = a \<and> y = b then v else f x y)"

lemma upd2_apply [simp]: "upd2 f a b v x y = (if x = a \<and> y = b then v else f x y)"
  by (simp add: upd2_def)

fun lwrite_to :: "lwrite \<Rightarrow> list_mem \<Rightarrow> list_mem" where
  "lwrite_to (SetNext r i v) m = m\<lparr>lnext := upd2 (lnext m) r i v\<rparr>"
| "lwrite_to (SetPrev r i v) m = m\<lparr>lprev := upd2 (lprev m) r i v\<rparr>"
| "lwrite_to (SetHead r i v) m = m\<lparr>lhead := upd2 (lhead m) r i v\<rparr>"
| "lwrite_to (SetCell c v) m = m\<lparr>cell := (cell m)(c := v)\<rparr>"

definition run_writes :: "lwrite list \<Rightarrow> list_mem \<Rightarrow> list_mem" where
  "run_writes ws m = fold lwrite_to ws m"

lemma run_writes_simps [simp]:
  "run_writes [] m = m" "run_writes (w # ws) m = run_writes ws (lwrite_to w m)"
  by (simp_all add: run_writes_def)

fun read_slot :: "list_mem \<Rightarrow> slot \<Rightarrow> addr" where
  "read_slot m (HeadCell c) = cell m c"
| "read_slot m (NextCell r i) = lnext m r i"

fun set_slot :: "slot \<Rightarrow> addr \<Rightarrow> lwrite" where
  "set_slot (HeadCell c) v = SetCell c v"
| "set_slot (NextCell r i) v = SetNext r i v"

section \<open>Operations\<close>

text \<open>The two ways an operation can fail: the sanity check of a debugging build, and a \<^verbatim>\<open>NULL\<close> pointer.\<close>

datatype list_error = Panic | NullPointer

definition ctable_ListInit :: "addr \<Rightarrow> lwrite list" where
  "ctable_ListInit listPtr = [SetCell listPtr 0]"

definition ctable_ListEmpty :: "addr \<Rightarrow> bool" where
  "ctable_ListEmpty l \<longleftrightarrow> l = 0"

definition ctable_ListRemove :: "bool \<Rightarrow> list_mem \<Rightarrow> addr \<Rightarrow> nat \<Rightarrow> list_error + lwrite list" where
  "ctable_ListRemove sanity m row i =
     (case lprev m row i of
        None \<Rightarrow> Inl (if sanity then Panic else NullPointer)
      | Some p \<Rightarrow> Inr
          ((if lnext m row i \<noteq> 0 then [SetPrev (lnext m row i) i (Some p)] else [])
           @ [set_slot p (lnext m row i), SetPrev row i None]))"

definition ctable_ListRemoveMightBeTheLastOne :: "bool \<Rightarrow> list_mem \<Rightarrow> addr \<Rightarrow> nat
    \<Rightarrow> list_error + (lwrite list \<times> bool)" where
  "ctable_ListRemoveMightBeTheLastOne sanity m row i =
     (case lprev m row i of
        None \<Rightarrow> Inl (if sanity then Panic else NullPointer)
      | Some p \<Rightarrow> Inr
          (if lnext m row i \<noteq> 0
           then ([SetPrev (lnext m row i) i (Some p), set_slot p (lnext m row i), SetPrev row i None], False)
           else ([set_slot p (lnext m row i), SetPrev row i None], True)))"

definition ctable_ListInsertHead :: "bool \<Rightarrow> list_mem \<Rightarrow> addr \<Rightarrow> addr \<Rightarrow> nat \<Rightarrow> list_error + lwrite list" where
  "ctable_ListInsertHead sanity m listPtr row i =
     (if sanity \<and> lprev m row i \<noteq> None then Inl Panic
      else Inr ([SetPrev row i (Some (HeadCell listPtr)), SetHead row i (Some (HeadCell listPtr)),
                 SetNext row i (cell m listPtr)]
             @ (if cell m listPtr \<noteq> 0 then [SetPrev (cell m listPtr) i (Some (NextCell row i))] else [])
             @ [SetCell listPtr row]))"

definition ctable_ListInsertBefore :: "list_mem \<Rightarrow> addr \<Rightarrow> addr \<Rightarrow> nat \<Rightarrow> list_error + lwrite list" where
  "ctable_ListInsertBefore m row1 row2 i =
     (case lprev m row1 i of
        None \<Rightarrow> Inl NullPointer
      | Some row1prev \<Rightarrow> Inr
          [SetHead row2 i (lhead m row1 i), SetPrev row2 i (lprev m row1 i), SetNext row2 i row1,
           SetPrev row1 i (Some (NextCell row2 i)), set_slot row1prev row2])"

definition ctable_ListInsertAfter :: "list_mem \<Rightarrow> addr \<Rightarrow> addr \<Rightarrow> nat \<Rightarrow> lwrite list" where
  "ctable_ListInsertAfter m row1 row2 i =
     [SetHead row2 i (lhead m row1 i), SetPrev row2 i (Some (NextCell row1 i)), SetNext row2 i (lnext m row1 i)]
     @ (if lnext m row1 i \<noteq> 0 then [SetPrev (lnext m row1 i) i (Some (NextCell row2 i))] else [])
     @ [SetNext row1 i row2]"

section \<open>Lists in memory\<close>

text \<open>The rows a reader meets when it follows \<^verbatim>\<open>next\<close> from a slot, and the full list structure.\<close>

fun reads :: "list_mem \<Rightarrow> nat \<Rightarrow> slot \<Rightarrow> addr list \<Rightarrow> bool" where
  "reads m i s [] \<longleftrightarrow> read_slot m s = 0"
| "reads m i s (r # rs) \<longleftrightarrow> read_slot m s = r \<and> r \<noteq> 0 \<and> reads m i (NextCell r i) rs"

fun backs :: "list_mem \<Rightarrow> nat \<Rightarrow> slot \<Rightarrow> addr list \<Rightarrow> bool" where
  "backs m i s [] \<longleftrightarrow> True"
| "backs m i s (r # rs) \<longleftrightarrow> lprev m r i = Some s \<and> backs m i (NextCell r i) rs"

definition is_list :: "list_mem \<Rightarrow> addr \<Rightarrow> nat \<Rightarrow> addr list \<Rightarrow> bool" where
  "is_list m c i rs \<longleftrightarrow> reads m i (HeadCell c) rs \<and> backs m i (HeadCell c) rs \<and> distinct rs
     \<and> (\<forall>r\<in>set rs. lhead m r i = Some (HeadCell c))"

lemma reads_not_null: "reads m i s rs \<Longrightarrow> 0 \<notin> set rs"
  by (induction rs arbitrary: s) auto

lemma reads_unique: "reads m i s rs \<Longrightarrow> reads m i s rs' \<Longrightarrow> rs = rs'"
proof (induction rs arbitrary: s rs')
  case Nil
  then show ?case by (cases rs') auto
next
  case (Cons r rs)
  then show ?case by (cases rs') auto
qed

lemma reads_cong:
  "\<lbrakk>reads m i s rs; read_slot m' s = read_slot m s; \<And>r. r \<in> set rs \<Longrightarrow> lnext m' r i = lnext m r i\<rbrakk>
    \<Longrightarrow> reads m' i s rs"
  by (induction rs arbitrary: s) auto

lemma backs_cong:
  "\<lbrakk>backs m i s rs; \<And>r. r \<in> set rs \<Longrightarrow> lprev m' r i = lprev m r i\<rbrakk> \<Longrightarrow> backs m' i s rs"
  by (induction rs arbitrary: s) auto

fun last_slot :: "nat \<Rightarrow> slot \<Rightarrow> addr list \<Rightarrow> slot" where
  "last_slot i s [] = s"
| "last_slot i s (r # rs) = last_slot i (NextCell r i) rs"

lemma last_slot_cases: "last_slot i s rs = (if rs = [] then s else NextCell (last rs) i)"
  by (induction rs arbitrary: s) auto

lemma reads_tail: "reads m i s (xs @ ys) \<Longrightarrow> reads m i (last_slot i s xs) ys"
  by (induction xs arbitrary: s) auto

lemma backs_append: "backs m i s (xs @ ys) \<longleftrightarrow> backs m i s xs \<and> backs m i (last_slot i s xs) ys"
  by (induction xs arbitrary: s) auto

text \<open>Redirecting the slot in front of the tail of a list replaces the tail.\<close>

lemma reads_redirect:
  assumes "reads m i s (xs @ ys)" "distinct (xs @ ys)"
    and "read_slot m' (last_slot i s xs) = hd (zs @ [0])"
    and "\<And>r. r \<in> set (butlast xs) \<Longrightarrow> lnext m' r i = lnext m r i"
    and "xs \<noteq> [] \<Longrightarrow> read_slot m' s = read_slot m s"
    and "zs \<noteq> [] \<Longrightarrow> hd zs \<noteq> 0 \<and> reads m' i (NextCell (hd zs) i) (tl zs)"
  shows "reads m' i s (xs @ zs)"
  using assms
proof (induction xs arbitrary: s)
  case Nil
  then show ?case by (cases zs) auto
next
  case (Cons x xs)
  have x: "read_slot m s = x" "x \<noteq> 0" "reads m i (NextCell x i) (xs @ ys)" using Cons.prems(1) by auto
  have d: "distinct (xs @ ys)" and s: "read_slot m' s = x" using Cons.prems(2, 5) x by auto
  have nx: "lnext m' r i = lnext m r i" if "r \<in> set (butlast xs)" for r
    using Cons.prems(4) [of r] that by (cases "xs = []") auto
  have "read_slot m' (NextCell x i) = read_slot m (NextCell x i)" if "xs \<noteq> []"
    using Cons.prems(4) [of x] that by simp
  moreover have "read_slot m' (last_slot i (NextCell x i) xs) = hd (zs @ [0])" using Cons.prems(3) by simp
  ultimately have "reads m' i (NextCell x i) (xs @ zs)"
    using Cons.IH [OF x(3) d] nx Cons.prems(6) by simp
  then show ?case using s x by simp
qed

section \<open>The operations on lists\<close>

text \<open>A list that an operation does not touch: another head, or another list number, disjoint rows.\<close>

definition unchanged_for :: "addr \<Rightarrow> nat \<Rightarrow> addr set \<Rightarrow> list_mem \<Rightarrow> list_mem \<Rightarrow> bool" where
  "unchanged_for c i R m m' \<longleftrightarrow> (\<forall>c'. c' \<noteq> c \<longrightarrow> cell m' c' = cell m c')
     \<and> (\<forall>r j. j \<noteq> i \<or> r \<notin> R \<longrightarrow> lnext m' r j = lnext m r j \<and> lprev m' r j = lprev m r j \<and> lhead m' r j = lhead m r j)"

lemma other_list_kept:
  assumes "unchanged_for c i R m m'" "is_list m c' j rs" "c' \<noteq> c" "j \<noteq> i \<or> set rs \<inter> R = {}"
  shows "is_list m' c' j rs"
proof -
  have f: "lnext m' r j = lnext m r j \<and> lprev m' r j = lprev m r j \<and> lhead m' r j = lhead m r j"
    if "r \<in> set rs" for r
    using assms(1, 4) that by (auto simp: unchanged_for_def)
  have "reads m' j (HeadCell c') rs"
    by (rule reads_cong) (use assms f in \<open>auto simp: is_list_def unchanged_for_def\<close>)
  moreover have "backs m' j (HeadCell c') rs"
    by (rule backs_cong) (use assms f in \<open>auto simp: is_list_def\<close>)
  ultimately show ?thesis using assms(2) f by (auto simp: is_list_def)
qed

text \<open>What every insertion amounts to: \<open>row\<close> is linked in behind the slot \<open>p\<close>.\<close>

lemma insert_at:
  assumes il: "is_list m c i (xs @ ys)" and row: "row \<noteq> 0" "row \<notin> set (xs @ ys)"
    and p: "p = last_slot i (HeadCell c) xs"
    and n': "\<And>r j. lnext m' r j = (if r = row \<and> j = i then hd (ys @ [0])
        else if NextCell r j = p then row else lnext m r j)"
    and c': "\<And>a. cell m' a = (if HeadCell a = p then row else cell m a)"
    and p': "\<And>r j. lprev m' r j = (if r = row \<and> j = i then Some p
        else if ys \<noteq> [] \<and> r = hd ys \<and> j = i then Some (NextCell row i) else lprev m r j)"
    and h': "\<And>r j. lhead m' r j = (if r = row \<and> j = i then Some (HeadCell c) else lhead m r j)"
  shows "is_list m' c i (xs @ row # ys) \<and> unchanged_for c i (insert row (set (xs @ ys))) m m'"
proof -
  let ?s = "HeadCell c"
  have rd: "reads m i ?s (xs @ ys)" and bk: "backs m i ?s xs" "backs m i p ys"
    and d: "distinct (xs @ ys)" and hd: "\<forall>r\<in>set (xs @ ys). lhead m r i = Some ?s"
    using il p by (auto simp: is_list_def backs_append)
  have lx: "xs \<noteq> [] \<Longrightarrow> last xs \<in> set xs" by simp
  have pslot: "p \<noteq> NextCell row i" using row lx by (auto simp: p last_slot_cases)
  have "reads m' i ?s (xs @ row # ys)"
  proof (rule reads_redirect [OF rd d])
    show "read_slot m' (last_slot i ?s xs) = hd ((row # ys) @ [0])"
      using pslot by (cases p) (auto simp: n' c' simp flip: p)
    show "lnext m' r i = lnext m r i" if "r \<in> set (butlast xs)" for r
    proof -
      have "xs = butlast xs @ [last xs]" using that by (cases xs) auto
      then have "r \<noteq> last xs" using d that by (metis distinct_append distinct_butlast not_distinct_conv_prefix)
      then show ?thesis using that row by (auto simp: n' p last_slot_cases dest: in_set_butlastD)
    qed
    show "read_slot m' ?s = read_slot m ?s" if "xs \<noteq> []" using that by (simp add: c' p last_slot_cases)
    show "hd (row # ys) \<noteq> 0 \<and> reads m' i (NextCell (hd (row # ys)) i) (tl (row # ys))"
    proof (cases ys)
      case Nil
      then show ?thesis using row by (simp add: n')
    next
      case (Cons y ys')
      then have "reads m i (NextCell y i) ys'" "y \<noteq> 0" using reads_tail [OF rd] by auto
      moreover have "lnext m' r i = lnext m r i" if "r \<in> set ys" for r
        using that d row lx by (auto simp: n' p last_slot_cases disjoint_iff)
      ultimately have "reads m' i (NextCell y i) ys'" using Cons by (auto elim!: reads_cong)
      then show ?thesis using Cons row \<open>y \<noteq> 0\<close> by (simp add: n')
    qed
  qed
  moreover have "backs m' i ?s (xs @ row # ys)"
  proof -
    have "backs m' i ?s xs"
      by (rule backs_cong [OF bk(1)]) (use d row in \<open>auto simp: p' dest: hd_in_set\<close>)
    moreover have "backs m' i p (row # ys)"
      using bk(2) d row by (cases ys) (auto simp: p' elim!: backs_cong)
    ultimately show ?thesis by (simp add: backs_append p)
  qed
  moreover have "distinct (xs @ row # ys)" using d row by auto
  moreover have "\<forall>r\<in>set (xs @ row # ys). lhead m' r i = Some ?s" using hd row by (auto simp: h')
  ultimately have "is_list m' c i (xs @ row # ys)" by (simp only: is_list_def)
  moreover have "unchanged_for c i (insert row (set (xs @ ys))) m m'"
    unfolding unchanged_for_def n' c' p' h' using lx by (auto simp: p last_slot_cases)
  ultimately show ?thesis ..
qed

lemma insert_head_list:
  assumes il: "is_list m c i rs" and row: "row \<noteq> 0" "row \<notin> set rs" "lprev m row i = None \<or> \<not> sanity"
  shows "\<exists>ws. ctable_ListInsertHead sanity m c row i = Inr ws \<and> is_list (run_writes ws m) c i (row # rs)
    \<and> unchanged_for c i (insert row (set rs)) m (run_writes ws m)"
proof -
  have cell: "cell m c = hd (rs @ [0])" using il by (cases rs) (auto simp: is_list_def)
  have nn: "rs \<noteq> [] \<Longrightarrow> hd rs \<noteq> 0 \<and> hd rs \<noteq> row" using il row by (cases rs) (auto simp: is_list_def)
  let ?ws = "[SetPrev row i (Some (HeadCell c)), SetHead row i (Some (HeadCell c)), SetNext row i (cell m c)]
     @ (if cell m c \<noteq> 0 then [SetPrev (cell m c) i (Some (NextCell row i))] else []) @ [SetCell c row]"
  have "is_list (run_writes ?ws m) c i ([] @ row # rs)
      \<and> unchanged_for c i (insert row (set ([] @ rs))) m (run_writes ?ws m)"
    by (rule insert_at) (use il row nn in \<open>auto simp: cell hd_append\<close>)
  moreover have "ctable_ListInsertHead sanity m c row i = Inr ?ws"
    using row by (auto simp: ctable_ListInsertHead_def)
  ultimately show ?thesis by auto
qed

lemma insert_before_list:
  assumes il: "is_list m c i (xs @ row1 # ys)" and row: "row2 \<noteq> 0" "row2 \<notin> set (xs @ row1 # ys)"
  shows "\<exists>ws. ctable_ListInsertBefore m row1 row2 i = Inr ws \<and> is_list (run_writes ws m) c i (xs @ row2 # row1 # ys)
    \<and> unchanged_for c i (insert row2 (set (xs @ row1 # ys))) m (run_writes ws m)"
proof -
  let ?p = "last_slot i (HeadCell c) xs"
  have pv: "lprev m row1 i = Some ?p" "lhead m row1 i = Some (HeadCell c)"
    using il by (auto simp: is_list_def backs_append)
  have np: "?p \<noteq> NextCell row2 i" using row by (auto simp: last_slot_cases)
  let ?ws = "[SetHead row2 i (lhead m row1 i), SetPrev row2 i (lprev m row1 i), SetNext row2 i row1,
           SetPrev row1 i (Some (NextCell row2 i)), set_slot ?p row2]"
  have "is_list (run_writes ?ws m) c i (xs @ row2 # row1 # ys)
      \<and> unchanged_for c i (insert row2 (set (xs @ row1 # ys))) m (run_writes ?ws m)"
    by (rule insert_at [OF il row refl]) (use np row pv in \<open>cases ?p; auto\<close>)+
  then show ?thesis by (simp add: ctable_ListInsertBefore_def pv)
qed

lemma insert_after_list:
  assumes il: "is_list m c i (xs @ row1 # ys)" and row: "row2 \<noteq> 0" "row2 \<notin> set (xs @ row1 # ys)"
  shows "is_list (run_writes (ctable_ListInsertAfter m row1 row2 i) m) c i (xs @ row1 # row2 # ys)
    \<and> unchanged_for c i (insert row2 (set (xs @ row1 # ys))) m (run_writes (ctable_ListInsertAfter m row1 row2 i) m)"
proof -
  have rd: "reads m i (HeadCell c) ((xs @ [row1]) @ ys)" and hd1: "lhead m row1 i = Some (HeadCell c)"
    using il by (auto simp: is_list_def)
  then have nx: "lnext m row1 i = hd (ys @ [0])"
    using reads_tail [OF rd] by (cases ys) (auto simp: last_slot_cases)
  have nn: "ys \<noteq> [] \<Longrightarrow> hd ys \<noteq> 0 \<and> hd ys \<noteq> row2" using reads_not_null [OF rd] row by (cases ys) auto
  have il': "is_list m c i ((xs @ [row1]) @ ys)" using il by simp
  have "is_list (run_writes (ctable_ListInsertAfter m row1 row2 i) m) c i ((xs @ [row1]) @ row2 # ys)
    \<and> unchanged_for c i (insert row2 (set ((xs @ [row1]) @ ys))) m (run_writes (ctable_ListInsertAfter m row1 row2 i) m)"
    by (rule insert_at [OF il' _ _ refl])
      (use row nn hd1 in \<open>auto simp: ctable_ListInsertAfter_def nx last_slot_cases hd_append\<close>)
  then show ?thesis by simp
qed

lemma remove_might_be_last:
  "ctable_ListRemoveMightBeTheLastOne sanity m row i =
     map_sum id (\<lambda>ws. (ws, lnext m row i = 0)) (ctable_ListRemove sanity m row i)"
  by (auto simp: ctable_ListRemoveMightBeTheLastOne_def ctable_ListRemove_def split: option.splits)

lemma remove_list:
  assumes "is_list m c i (xs @ row # ys)"
  shows "\<exists>ws. ctable_ListRemove sanity m row i = Inr ws \<and> is_list (run_writes ws m) c i (xs @ ys)
    \<and> lprev (run_writes ws m) row i = None \<and> unchanged_for c i (set (xs @ row # ys)) m (run_writes ws m)"
proof -
  let ?s = "HeadCell c"
  let ?p = "last_slot i ?s xs"
  have rd: "reads m i ?s (xs @ row # ys)" and bk: "backs m i ?s xs" "lprev m row i = Some ?p"
      "backs m i (NextCell row i) ys"
    and d: "distinct (xs @ row # ys)" and hd: "\<forall>r\<in>set (xs @ row # ys). lhead m r i = Some ?s"
    using assms by (auto simp: is_list_def backs_append)
  have ys: "lnext m row i = hd (ys @ [0])" using reads_tail [OF rd] by (cases ys) auto
  let ?ws = "(if lnext m row i \<noteq> 0 then [SetPrev (lnext m row i) i (Some ?p)] else [])
     @ [set_slot ?p (lnext m row i), SetPrev row i None]"
  define m' where "m' = run_writes ?ws m"
  have op: "ctable_ListRemove sanity m row i = Inr ?ws" using bk(2) by (simp add: ctable_ListRemove_def)
  have n': "lnext m' r j = (if NextCell r j = ?p then hd (ys @ [0]) else lnext m r j)" for r j
    using ys by (cases ?p) (auto simp: m'_def)
  have c': "cell m' a = (if HeadCell a = ?p then hd (ys @ [0]) else cell m a)" for a
    using ys by (cases ?p) (auto simp: m'_def)
  have p': "lprev m' r j = (if r = row \<and> j = i then None
      else if ys \<noteq> [] \<and> r = hd ys \<and> j = i then Some ?p else lprev m r j)" for r j
    using ys reads_not_null [OF rd] by (cases ?p; cases ys) (auto simp: m'_def)
  have h': "lhead m' r j = lhead m r j" for r j
    by (cases ?p) (auto simp: m'_def)
  have sl: "read_slot m' ?p = hd (ys @ [0])" by (cases ?p) (auto simp: n' c')
  have "reads m' i ?s (xs @ ys)"
  proof (rule reads_redirect [OF rd d sl])
    show "lnext m' r i = lnext m r i" if "r \<in> set (butlast xs)" for r
    proof -
      have "xs = butlast xs @ [last xs]" using that by (cases xs) auto
      then have "r \<noteq> last xs" using d that by (metis distinct_append distinct_butlast not_distinct_conv_prefix)
      then show ?thesis using that by (auto simp: n' last_slot_cases split: if_splits)
    qed
    show "read_slot m' ?s = read_slot m ?s" if "xs \<noteq> []" using that by (simp add: c' last_slot_cases)
    show "hd ys \<noteq> 0 \<and> reads m' i (NextCell (hd ys) i) (tl ys)" if ne: "ys \<noteq> []"
    proof -
      obtain y ys' where y: "ys = y # ys'" using ne by (cases ys) auto
      have "reads m i (NextCell y i) ys'" "y \<noteq> 0" using reads_tail [OF rd] y by auto
      moreover have "lnext m' r i = lnext m r i" if "r \<in> set ys" for r
        using that d last_in_set [of xs] by (auto simp: n' last_slot_cases disjoint_iff)
      ultimately show ?thesis using y by (auto elim!: reads_cong)
    qed
  qed
  moreover have "backs m' i ?s (xs @ ys)"
  proof -
    have "backs m' i ?s xs" by (rule backs_cong [OF bk(1)]) (use d in \<open>auto simp: p' dest: hd_in_set\<close>)
    moreover have "backs m' i ?p ys"
      using bk(3) d by (cases ys) (auto simp: p' elim!: backs_cong)
    ultimately show ?thesis by (simp add: backs_append)
  qed
  ultimately have "is_list m' c i (xs @ ys)" using d hd h' by (auto simp: is_list_def)
  moreover have "unchanged_for c i (set (xs @ row # ys)) m m'"
    unfolding unchanged_for_def n' c' p' h' by (auto simp: last_slot_cases split: if_splits)
  ultimately show ?thesis using op p' by (simp add: m'_def)
qed

section \<open>Readers between the writes\<close>

text \<open>A write that a reader of the rows \<open>R\<close> in list \<open>i\<close> cannot notice.\<close>

fun harmless :: "nat \<Rightarrow> addr set \<Rightarrow> lwrite \<Rightarrow> bool" where
  "harmless i R (SetNext r j v) \<longleftrightarrow> r \<notin> R \<or> j \<noteq> i"
| "harmless i R (SetCell c v) \<longleftrightarrow> False"
| "harmless i R _ \<longleftrightarrow> True"

lemma harmless_reads:
  "\<forall>w\<in>set ws. harmless i (set rs) w \<Longrightarrow> reads m i (HeadCell c) rs \<Longrightarrow> reads (run_writes ws m) i (HeadCell c) rs"
proof (induction ws arbitrary: m)
  case (Cons w ws)
  have "reads (lwrite_to w m) i (HeadCell c) rs"
    using Cons.prems by (cases w) (auto elim!: reads_cong)
  then show ?case using Cons by simp
qed simp

lemma harmless_reads_at:
  "\<forall>w\<in>set ws. harmless i (insert r (set rs)) w \<Longrightarrow> reads m i (NextCell r i) rs \<Longrightarrow> reads (run_writes ws m) i (NextCell r i) rs"
proof (induction ws arbitrary: m)
  case (Cons w ws)
  have "reads (lwrite_to w m) i (NextCell r i) rs"
    using Cons.prems by (cases w) (auto elim!: reads_cong)
  then show ?case using Cons by simp
qed simp

lemma publish_last:
  assumes "\<forall>w\<in>set ws. harmless i (set rs) w" "reads m i (HeadCell c) rs"
    and "reads (run_writes (ws @ [w]) m) i (HeadCell c) rs'"
  shows "reads (run_writes (take k (ws @ [w])) m) i (HeadCell c) rs
    \<or> reads (run_writes (take k (ws @ [w])) m) i (HeadCell c) rs'"
proof (cases "k \<le> length ws")
  case True
  then have "\<forall>w\<in>set (take k ws). harmless i (set rs) w" using assms(1) by (auto dest: in_set_takeD)
  then show ?thesis using harmless_reads [OF _ assms(2)] True by simp
next
  case False
  then show ?thesis using assms(3) by simp
qed

text \<open>
  \<^verbatim>\<open>ctable_ListInsertHead\<close> puts the row in front: the list that results is a proper doubly linked
  list of the new row and the old rows (forward links, back links through slots and head pointers),
  and every other list in memory is left as it was.
\<close>

theorem insert_head_correct:
  assumes "is_list m c i rs" and "row \<noteq> 0" and "row \<notin> set rs" and "lprev m row i = None"
  shows "\<exists>ws. ctable_ListInsertHead sanity m c row i = Inr ws
    \<and> is_list (run_writes ws m) c i (row # rs)
    \<and> (\<forall>c' j rs'. is_list m c' j rs' \<and> c' \<noteq> c \<and> (j \<noteq> i \<or> set rs' \<inter> insert row (set rs) = {})
          \<longrightarrow> is_list (run_writes ws m) c' j rs')"
proof -
  obtain ws where "ctable_ListInsertHead sanity m c row i = Inr ws" "is_list (run_writes ws m) c i (row # rs)"
    "unchanged_for c i (insert row (set rs)) m (run_writes ws m)"
    using insert_head_list [OF assms(1-3), of sanity] assms(4) by auto
  then show ?thesis using other_list_kept by blast
qed

definition empty_mem :: list_mem where
  "empty_mem = \<lparr>lnext = (\<lambda>r i. 0), lprev = (\<lambda>r i. None), lhead = (\<lambda>r i. None), cell = (\<lambda>c. 0)\<rparr>"

lemma empty_mem_list [simp]: "is_list empty_mem c i []"
  by (simp add: is_list_def empty_mem_def)

lemma insert_head_correct_witness:
  "\<exists>ws. ctable_ListInsertHead True empty_mem 1 8 2 = Inr ws \<and> is_list (run_writes ws empty_mem) 1 2 [8]"
proof -
  have "lprev empty_mem 8 2 = None" by (simp add: empty_mem_def)
  then show ?thesis using insert_head_correct [of empty_mem 1 2 "[]" 8 True] by auto
qed

text \<open>
  \<^verbatim>\<open>ctable_ListRemove\<close> takes a row out of any place in its list: what is left is a proper list of
  the other rows in their order, the row is marked as being in no list, and
  \<^verbatim>\<open>ctable_ListRemoveMightBeTheLastOne\<close> does the same and reports whether the row was at the end.
\<close>

theorem remove_correct:
  assumes "is_list m c i (xs @ row # ys)"
  shows "\<exists>ws. ctable_ListRemove sanity m row i = Inr ws
    \<and> ctable_ListRemoveMightBeTheLastOne sanity m row i = Inr (ws, ys = [])
    \<and> is_list (run_writes ws m) c i (xs @ ys) \<and> lprev (run_writes ws m) row i = None
    \<and> (\<forall>c' j rs'. is_list m c' j rs' \<and> c' \<noteq> c \<and> (j \<noteq> i \<or> set rs' \<inter> set (xs @ row # ys) = {})
          \<longrightarrow> is_list (run_writes ws m) c' j rs')"
proof -
  obtain ws where ws: "ctable_ListRemove sanity m row i = Inr ws" "is_list (run_writes ws m) c i (xs @ ys)"
    "lprev (run_writes ws m) row i = None" "unchanged_for c i (set (xs @ row # ys)) m (run_writes ws m)"
    using remove_list [OF assms, of sanity] by auto
  have "reads m i (NextCell row i) ys" using assms reads_tail [of m i "HeadCell c" xs "row # ys"]
    by (auto simp: is_list_def)
  then have "lnext m row i = 0 \<longleftrightarrow> ys = []" by (cases ys) auto
  then have "ctable_ListRemoveMightBeTheLastOne sanity m row i = Inr (ws, ys = [])"
    using ws(1) by (simp add: remove_might_be_last)
  then show ?thesis using ws other_list_kept by blast
qed

definition two_rows :: list_mem where
  "two_rows = run_writes [SetNext 8 2 16, SetPrev 8 2 (Some (HeadCell 1)), SetPrev 16 2 (Some (NextCell 8 2)),
     SetHead 8 2 (Some (HeadCell 1)), SetHead 16 2 (Some (HeadCell 1)), SetCell 1 8] empty_mem"

lemma two_rows_list: "is_list two_rows 1 2 [8, 16]"
  by (simp add: two_rows_def is_list_def empty_mem_def)

lemma remove_correct_witness:
  "\<exists>ws. ctable_ListRemove True two_rows 16 2 = Inr ws \<and> is_list (run_writes ws two_rows) 1 2 [8]"
  using remove_correct [of two_rows 1 2 "[8]" 16 "[]" True] two_rows_list by auto

text \<open>
  C26. Concurrent readers of an insertion: after any number of the writes of
  \<^verbatim>\<open>ctable_ListInsertHead\<close>, a reader that walks from the head of the list finds either
  exactly the old rows or exactly the old rows behind the new one, never a broken list.
\<close>

theorem insert_head_readers:
  assumes "is_list m c i rs" and "row \<noteq> 0" and "row \<notin> set rs"
    and "ctable_ListInsertHead sanity m c row i = Inr ws"
  shows "reads (run_writes (take k ws) m) i (HeadCell c) rs
    \<or> reads (run_writes (take k ws) m) i (HeadCell c) (row # rs)"
proof -
  let ?pre = "[SetPrev row i (Some (HeadCell c)), SetHead row i (Some (HeadCell c)), SetNext row i (cell m c)]
     @ (if cell m c \<noteq> 0 then [SetPrev (cell m c) i (Some (NextCell row i))] else [])"
  have ok: "lprev m row i = None \<or> \<not> sanity" and ws: "ws = ?pre @ [SetCell c row]"
    using assms(4) by (auto simp: ctable_ListInsertHead_def split: if_splits)
  have "is_list (run_writes ws m) c i (row # rs)" using insert_head_list [OF assms(1-3) ok] assms(4) by auto
  then have "reads (run_writes (?pre @ [SetCell c row]) m) i (HeadCell c) (row # rs)"
    unfolding ws by (simp add: is_list_def)
  moreover have "\<forall>w\<in>set ?pre. harmless i (set rs) w" using assms(3) by auto
  ultimately show ?thesis using publish_last assms(1) unfolding ws is_list_def by blast
qed

lemma insert_head_readers_witness:
  "reads (run_writes (take 4 [SetPrev 24 2 (Some (HeadCell 1)), SetHead 24 2 (Some (HeadCell 1)),
      SetNext 24 2 8, SetPrev 8 2 (Some (NextCell 24 2)), SetCell 1 24]) two_rows) 2 (HeadCell 1) [8, 16]
   \<or> reads (run_writes (take 4 [SetPrev 24 2 (Some (HeadCell 1)), SetHead 24 2 (Some (HeadCell 1)),
      SetNext 24 2 8, SetPrev 8 2 (Some (NextCell 24 2)), SetCell 1 24]) two_rows) 2 (HeadCell 1) [24, 8, 16]"
  by (rule insert_head_readers [OF two_rows_list, of 24 True])
    (simp_all add: ctable_ListInsertHead_def two_rows_def empty_mem_def)

text \<open>
  C27. Concurrent readers of a removal: after any number of the writes of \<^verbatim>\<open>ctable_ListRemove\<close> a
  reader that starts at the head finds exactly the old or exactly the new rows, and a reader that
  stands on the removed row still reaches exactly the rows behind it.
\<close>

theorem remove_readers:
  assumes "is_list m c i (xs @ row # ys)" and "ctable_ListRemove sanity m row i = Inr ws"
  shows "(reads (run_writes (take k ws) m) i (HeadCell c) (xs @ row # ys)
      \<or> reads (run_writes (take k ws) m) i (HeadCell c) (xs @ ys))
    \<and> reads (run_writes (take k ws) m) i (NextCell row i) ys"
proof -
  let ?p = "last_slot i (HeadCell c) xs" and ?n = "lnext m row i"
  let ?pre = "if ?n \<noteq> 0 then [SetPrev ?n i (Some ?p)] else []"
  have il: "reads m i (HeadCell c) (xs @ row # ys)" "lprev m row i = Some ?p" "distinct (xs @ row # ys)"
    using assms(1) by (auto simp: is_list_def backs_append)
  then have ws: "ws = (?pre @ [set_slot ?p ?n]) @ [SetPrev row i None]"
    using assms(2) by (simp add: ctable_ListRemove_def)
  have pre: "\<forall>w\<in>set ?pre. harmless i R w" for R by auto
  have "is_list (run_writes ws m) c i (xs @ ys)" using remove_list [OF assms(1), of sanity] assms(2) by auto
  then have "reads (run_writes ws m) i (HeadCell c) (xs @ ys)" by (simp add: is_list_def)
  then have new: "reads (run_writes (?pre @ [set_slot ?p ?n]) m) i (HeadCell c) (xs @ ys)"
    unfolding ws by (cases ?p) (auto simp: run_writes_def elim!: reads_cong)
  note two = publish_last [OF pre il(1) new]
  have head: "reads (run_writes (take k ws) m) i (HeadCell c) (xs @ row # ys)
      \<or> reads (run_writes (take k ws) m) i (HeadCell c) (xs @ ys)"
  proof (cases "k \<le> length (?pre @ [set_slot ?p ?n])")
    case True
    then show ?thesis using two [of k] unfolding ws by (simp only: take_append) simp
  next
    case False
    then have "take k ws = ws" unfolding ws by simp
    then show ?thesis using \<open>reads (run_writes ws m) i (HeadCell c) (xs @ ys)\<close> by simp
  qed
  have "reads m i (NextCell row i) ys" using reads_tail [OF il(1)] by simp
  then have "reads (run_writes (take k ws) m) i (NextCell row i) ys"
  proof (cases "xs = []")
    case True
    then show ?thesis using \<open>reads m i (NextCell row i) ys\<close> unfolding ws
      by (auto simp: take_Cons split: nat.splits elim!: reads_cong)
  next
    case False
    then have "last xs \<notin> insert row (set ys)" using il(3) last_in_set [of xs] by (auto simp: disjoint_iff)
    then have "\<forall>w\<in>set (take k ws). harmless i (insert row (set ys)) w"
      unfolding ws using False by (auto simp: last_slot_cases dest!: in_set_takeD split: if_splits)
    then show ?thesis using harmless_reads_at \<open>reads m i (NextCell row i) ys\<close> by blast
  qed
  then show ?thesis using head by simp
qed

lemma remove_readers_witness:
  "reads (run_writes (take 1 [SetPrev 16 2 (Some (HeadCell 1)), SetCell 1 16, SetPrev 8 2 None]) two_rows)
     2 (NextCell 8 2) [16]"
  using remove_readers [of two_rows 1 2 "[]" 8 "[16]" True _ 1] two_rows_list
  by (simp add: ctable_ListRemove_def two_rows_def empty_mem_def)

text \<open>
  \<^verbatim>\<open>ctable_ListInsertBefore\<close> and \<^verbatim>\<open>ctable_ListInsertAfter\<close> link a row in on either side of
  another one, anywhere in a list, and leave a proper list.
\<close>

theorem insert_beside_correct:
  assumes "is_list m c i (xs @ row1 # ys)" and "row2 \<noteq> 0" and "row2 \<notin> set (xs @ row1 # ys)"
  shows "(\<exists>ws. ctable_ListInsertBefore m row1 row2 i = Inr ws
        \<and> is_list (run_writes ws m) c i (xs @ row2 # row1 # ys))
    \<and> is_list (run_writes (ctable_ListInsertAfter m row1 row2 i) m) c i (xs @ row1 # row2 # ys)"
  using insert_before_list [OF assms] insert_after_list [OF assms] by auto

lemma insert_beside_correct_witness:
  "is_list (run_writes (ctable_ListInsertAfter two_rows 8 24 2) two_rows) 1 2 [8, 24, 16]"
  using insert_beside_correct [of two_rows 1 2 "[]" 8 "[16]" 24] two_rows_list by simp

end
