(* ===== verification/Rand.thy ===== *)
theory Rand
  imports Prelude
begin

text \<open>
  \<^verbatim>\<open>ctables/skiplists/jsw_rand.c\<close>, the Mersenne twister that feeds the skip lists, and \<^verbatim>\<open>rlevel\<close> of
  \<^verbatim>\<open>jsw_slib.c\<close>, which turns its bits into node heights.  \<^verbatim>\<open>unsigned long\<close> and \<^verbatim>\<open>size_t\<close> have 64
  bits.
\<close>

type_synonym ulong = "64 word"

record rand_state =
  rx :: "ulong list"
  rnext :: nat

abbreviation N :: nat where "N \<equiv> 624"
abbreviation M :: nat where "M \<equiv> 397"

definition A :: ulong where "A = 0x9908b0df"
definition U :: ulong where "U = 0x80000000"
definition L :: ulong where "L = 0x7fffffff"

section \<open>Seeding\<close>

definition seed_step :: "nat \<Rightarrow> ulong list \<Rightarrow> ulong list" where
  "seed_step i x = x[i := (1812433253 * (x ! (i - 1) XOR drop_bit 30 (x ! (i - 1))) + of_nat i) AND 0xffffffff]"

text \<open>\<^verbatim>\<open>jsw_seed\<close> leaves \<^verbatim>\<open>next\<close> alone.\<close>

definition jsw_seed :: "ulong \<Rightarrow> rand_state \<Rightarrow> rand_state" where
  "jsw_seed s st = st\<lparr>rx := fold seed_step [1..<N] ((rx st)[0 := s AND 0xffffffff])\<rparr>"

section \<open>Drawing\<close>

definition twist :: "ulong \<Rightarrow> ulong \<Rightarrow> ulong \<Rightarrow> ulong" where
  "twist hi lo mid =
     (let y = (hi AND U) OR (lo AND L); a = (if y AND 1 \<noteq> 0 then A else 0)
      in mid XOR drop_bit 1 y XOR a)"

definition refill_step :: "nat \<Rightarrow> ulong list \<Rightarrow> ulong list" where
  "refill_step i x = x[i := twist (x ! i) (x ! (i + 1)) (x ! ((i + M) mod N))]"

definition refill :: "ulong list \<Rightarrow> ulong list" where
  "refill x = (let x' = fold refill_step [0..<N - 1] x
               in x'[N - 1 := twist (x' ! (N - 1)) (x' ! 0) (x' ! (M - 1))])"

definition temper :: "ulong \<Rightarrow> ulong" where
  "temper y0 =
     (let y1 = y0 XOR drop_bit 11 y0;
          y2 = y1 XOR (push_bit 7 y1 AND 0x9d2c5680);
          y3 = y2 XOR (push_bit 15 y2 AND 0xefc60000)
      in y3 XOR drop_bit 18 y3)"

definition jsw_rand :: "rand_state \<Rightarrow> ulong \<times> rand_state" where
  "jsw_rand st =
     (let st' = (if rnext st = N then \<lparr>rx = refill (rx st), rnext = 0\<rparr> else st)
      in (temper (rx st' ! rnext st'), st'\<lparr>rnext := Suc (rnext st')\<rparr>))"

section \<open>Node heights\<close>

text \<open>The static variables of \<^verbatim>\<open>rlevel\<close> and the generator behind them.\<close>

record level_state =
  lbits :: ulong
  lreset :: nat
  lrand :: rand_state

definition draw_bits :: "level_state \<Rightarrow> level_state" where
  "draw_bits s =
     (if lreset s = 0
      then (let (y, r) = jsw_rand (lrand s) in \<lparr>lbits = y, lreset = 31, lrand = r\<rparr>)
      else s)"

partial_function (option) rlevel_loop :: "level_state \<Rightarrow> nat \<Rightarrow> (nat \<times> level_state) option" where
  "rlevel_loop s h =
     (let s1 = draw_bits s;
          found = lbits s1 AND 1 \<noteq> 0;
          s2 = s1\<lparr>lbits := drop_bit 1 (lbits s1), lreset := lreset s1 - 1\<rparr>
      in if found then Some (Suc h, s2) else rlevel_loop s2 (Suc h))"

definition rlevel :: "nat \<Rightarrow> level_state \<Rightarrow> (nat \<times> level_state) option" where
  "rlevel maxh s = Option.bind (rlevel_loop s 0) (\<lambda>(h, s'). Some (if h \<ge> maxh then maxh - 1 else h, s'))"

section \<open>32 bit values in 64 bit words\<close>

definition fits32 :: "ulong \<Rightarrow> bool" where
  "fits32 y \<longleftrightarrow> take_bit 32 y = y"

lemma fits32_iff: "fits32 y \<longleftrightarrow> (\<forall>n. bit y n \<longrightarrow> n < 32)"
proof
  assume "fits32 y"
  then have "bit (take_bit 32 y) n = bit y n" for n by (simp add: fits32_def)
  then show "\<forall>n. bit y n \<longrightarrow> n < 32" by (simp add: bit_take_bit_iff) blast
next
  assume "\<forall>n. bit y n \<longrightarrow> n < 32"
  then show "fits32 y" unfolding fits32_def by (intro bit_word_eqI) (auto simp: bit_take_bit_iff)
qed

lemma fits32_uint: "fits32 y \<longleftrightarrow> uint y < 2 ^ 32"
proof -
  have "fits32 y \<longleftrightarrow> take_bit 32 (uint y) = uint y"
    by (simp add: fits32_def word_uint_eq_iff unsigned_take_bit_eq)
  then show ?thesis by (simp add: take_bit_int_eq_self_iff)
qed

lemma fits32_ops:
  "fits32 a \<Longrightarrow> fits32 b \<Longrightarrow> fits32 (a XOR b)" "fits32 a \<Longrightarrow> fits32 b \<Longrightarrow> fits32 (a OR b)"
  "fits32 a \<Longrightarrow> fits32 (a AND b)" "fits32 b \<Longrightarrow> fits32 (a AND b)" "fits32 a \<Longrightarrow> fits32 (drop_bit n a)"
  by (auto simp: fits32_iff bit_simps)

lemma fits32_const: "fits32 0" "fits32 A" "fits32 U" "fits32 L" "fits32 0xffffffff" "fits32 0x9d2c5680"
  "fits32 0xefc60000"
  by (simp_all add: fits32_uint A_def U_def L_def)

definition rand_ok :: "rand_state \<Rightarrow> bool" where
  "rand_ok st \<longleftrightarrow> length (rx st) = N \<and> (\<forall>y\<in>set (rx st). fits32 y) \<and> rnext st \<le> N"

lemma fits32_twist: "fits32 a \<Longrightarrow> fits32 b \<Longrightarrow> fits32 c \<Longrightarrow> fits32 (twist a b c)"
  by (auto simp: twist_def Let_def intro!: fits32_ops fits32_const)

lemma fits32_temper: "fits32 y \<Longrightarrow> fits32 (temper y)"
  unfolding temper_def Let_def by (intro fits32_ops(1) fits32_ops(4, 5) fits32_const)

lemma fold_keeps:
  assumes "P x" "\<And>i x. i \<in> set is \<Longrightarrow> P x \<Longrightarrow> P (f i x)"
  shows "P (fold f is x)"
  using assms by (induction "is" arbitrary: x) auto

lemma seed_ok:
  assumes "length (rx st) = N" "rnext st \<le> N"
  shows "rand_ok (jsw_seed s st)"
proof -
  let ?P = "\<lambda>k x. length x = N \<and> (\<forall>j<k. fits32 (x ! j))"
  have "?P k (fold seed_step [1..<k] ((rx st)[0 := s AND 0xffffffff]))" if "1 \<le> k" "k \<le> N" for k
    using that
  proof (induction k rule: nat_induct_at_least)
    case base
    then show ?case using assms by (auto intro!: fits32_ops fits32_const)
  next
    case (Suc k)
    then show ?case
      by (auto simp: seed_step_def nth_list_update less_Suc_eq intro!: fits32_ops(4) fits32_const)
  qed
  from this [of N] show ?thesis using assms
    by (auto simp: rand_ok_def jsw_seed_def in_set_conv_nth)
qed

lemma refill_ok:
  assumes "length x = N" "\<forall>y\<in>set x. fits32 y"
  shows "length (refill x) = N" "\<forall>y\<in>set (refill x). fits32 y"
proof -
  let ?P = "\<lambda>x. length x = N \<and> (\<forall>y\<in>set x. fits32 y)"
  have P: "?P (fold refill_step [0..<N - 1] x)"
  proof (rule fold_keeps)
    fix i x assume i: "i \<in> set [0..<N - 1]" and x: "?P x"
    then have "(i + M) mod N < N" by simp
    then have "fits32 (twist (x ! i) (x ! (i + 1)) (x ! ((i + M) mod N)))"
      using i x by (intro fits32_twist) auto
    then show "?P (refill_step i x)"
      using x by (auto simp: refill_step_def dest!: set_update_subset_insert [THEN subsetD])
  qed (use assms in simp)
  then have "fits32 (twist (fold refill_step [0..<N - 1] x ! (N - 1)) (fold refill_step [0..<N - 1] x ! 0)
      (fold refill_step [0..<N - 1] x ! (M - 1)))"
    by (intro fits32_twist) auto
  then show "length (refill x) = N" "\<forall>y\<in>set (refill x). fits32 y"
    using P by (auto simp: refill_def Let_def dest!: set_update_subset_insert [THEN subsetD])
qed

lemma rand_keeps: "rand_ok st \<Longrightarrow> rand_ok (snd (jsw_rand st)) \<and> fits32 (fst (jsw_rand st))"
  using refill_ok [of "rx st"]
  by (auto simp: jsw_rand_def rand_ok_def Let_def intro!: fits32_temper)

lemma draw_keeps: "rand_ok (lrand s) \<Longrightarrow> rand_ok (lrand (draw_bits s)) \<and> 0 < lreset (draw_bits s)"
  using rand_keeps [of "lrand s"] by (auto simp: draw_bits_def split: prod.splits)

text \<open>
  The generator never leaves its range: from a seeded state every draw returns a 32 bit number,
  indexes inside the state vector, and keeps the state a vector of 624 numbers of 32 bits.
\<close>

theorem jsw_rand_bounds:
  assumes "length (rx st) = N" and "rnext st \<le> N"
  shows "rand_ok (jsw_seed s st)
    \<and> (\<forall>st'. rand_ok st' \<longrightarrow> uint (fst (jsw_rand st')) < 2 ^ 32 \<and> rand_ok (snd (jsw_rand st')))"
  using seed_ok [OF assms] rand_keeps by (simp add: fits32_uint)

lemma jsw_rand_bounds_witness:
  "rand_ok (jsw_seed 42 \<lparr>rx = replicate N 0, rnext = 0\<rparr>)"
  using jsw_rand_bounds [of "\<lparr>rx = replicate N 0, rnext = 0\<rparr>" 42] by simp

lemma rlevel_loop_range: "rlevel_loop s h0 = Some r \<Longrightarrow> h0 < fst r"
proof (induction s h0 r rule: rlevel_loop.raw_induct [rotated, consumes 1, case_names 1])
  case (1 loop s h0 r)
  show ?case
  proof (cases "lbits (draw_bits s) AND 1 \<noteq> 0")
    case True
    then show ?thesis using 1(2) by (auto simp: Let_def)
  next
    case False
    then have "Suc h0 < fst r" using 1 by (simp add: Let_def)
    then show ?thesis by simp
  qed
qed

lemma and_1_bit: "y AND 1 \<noteq> 0 \<longleftrightarrow> bit (y :: ulong) 0"
  by (simp add: and_one_eq odd_iff_mod_2_eq_one bit_0)

lemma rlevel_range: "2 \<le> maxh \<Longrightarrow> rlevel maxh s = Some (h, s') \<Longrightarrow> 1 \<le> h \<and> h < maxh"
  using rlevel_loop_range [of s 0] by (auto simp: rlevel_def split: Option.bind_splits)

text \<open>How many zero bits precede the first one determines the height.\<close>

lemma rlevel_loop_bits:
  assumes "bit (lbits s) j" "\<forall>k<j. \<not> bit (lbits s) k" "j < lreset s"
  shows "\<exists>s'. rlevel_loop s h = Some (h + j + 1, s') \<and> lrand s' = lrand s"
  using assms
proof (induction j arbitrary: s h)
  case 0
  have "lbits s AND 1 \<noteq> 0" using 0 unfolding and_1_bit by simp
  then show ?case using 0 by (subst rlevel_loop.simps) (simp add: draw_bits_def)
next
  case (Suc j)
  let ?s = "s\<lparr>lbits := drop_bit 1 (lbits s), lreset := lreset s - 1\<rparr>"
  have z: "lbits s AND 1 = 0" using Suc.prems(2) and_1_bit [of "lbits s"] by blast
  have "\<exists>s'. rlevel_loop ?s (Suc h) = Some (Suc h + j + 1, s') \<and> lrand s' = lrand ?s"
    using Suc.prems by (intro Suc.IH) (auto simp: bit_drop_bit_eq)
  then show ?case using z Suc.prems(3) by (subst rlevel_loop.simps) (simp add: draw_bits_def)
qed

text \<open>
  C28. Every height \<^verbatim>\<open>rlevel\<close> returns lies between 1 and \<open>max - 1\<close>, and while a one is among the
  \<^verbatim>\<open>reset\<close> bits that are left of the current random word, the function returns, without a new
  draw, one more than the number of zero bits before it (capped): heights have the geometric
  distribution of the bits.
\<close>

theorem rlevel_heights:
  assumes "2 \<le> maxh"
  shows "(\<forall>h s'. rlevel maxh s = Some (h, s') \<longrightarrow> 1 \<le> h \<and> h < maxh)
    \<and> (\<forall>j. bit (lbits s) j \<and> (\<forall>k<j. \<not> bit (lbits s) k) \<and> j < lreset s \<longrightarrow>
          (\<exists>s'. rlevel maxh s = Some (min (Suc j) (maxh - 1), s') \<and> lrand s' = lrand s))"
proof (intro conjI allI impI)
  fix h s' assume "rlevel maxh s = Some (h, s')"
  then show "1 \<le> h" "h < maxh" using rlevel_range [OF assms] by auto
next
  fix j assume "bit (lbits s) j \<and> (\<forall>k<j. \<not> bit (lbits s) k) \<and> j < lreset s"
  then obtain s' where "rlevel_loop s 0 = Some (0 + j + 1, s')" "lrand s' = lrand s"
    using rlevel_loop_bits by blast
  then show "\<exists>s'. rlevel maxh s = Some (min (Suc j) (maxh - 1), s') \<and> lrand s' = lrand s"
    by (auto simp: rlevel_def min_def)
qed

lemma rlevel_heights_witness:
  "\<exists>s'. rlevel 8 \<lparr>lbits = 4, lreset = 31, lrand = \<lparr>rx = [], rnext = 0\<rparr>\<rparr> = Some (3, s') \<and> lrand s' = \<lparr>rx = [], rnext = 0\<rparr>"
proof -
  let ?s = "\<lparr>lbits = 4, lreset = 31, lrand = \<lparr>rx = [], rnext = 0\<rparr>\<rparr>"
  have "\<not> bit (4 :: ulong) 0" "\<not> bit (4 :: ulong) 1" "bit (4 :: ulong) 2" by code_simp+
  then have *: "bit (lbits ?s) 2 \<and> (\<forall>k<2. \<not> bit (lbits ?s) k) \<and> 2 < lreset ?s"
    by (auto simp: less_2_cases_iff)
  have "2 \<le> (8 :: nat)" by simp
  from rlevel_heights [OF this, THEN conjunct2, THEN spec, THEN mp, OF *] show ?thesis by simp
qed

end
