(* ===== verification/SkipList.thy ===== *)
theory SkipList
  imports LinkedLists Rand
begin

text \<open>
  \<^verbatim>\<open>ctables/skiplists/jsw_slib.c\<close>: the skip lists that index the fields of a table.  Nodes live in a
  heap, every node has an array of \<^verbatim>\<open>next\<close> pointers, and its \<^verbatim>\<open>row\<close> field is one of the list head
  words of \<open>LinkedLists\<close>, at the address of the node: an index with duplicates chains the rows of
  equal key from it.  The comparison function is a parameter; nodes are compared by the row their
  \<^verbatim>\<open>row\<close> field names at the time.
\<close>

section \<open>State\<close>

record node =
  height :: nat
  links :: "nat \<Rightarrow> addr"

record skiplist =
  snodes :: "addr \<Rightarrow> node"
  slist :: list_mem
  shead :: addr
  curh :: nat
  ssize :: nat
  curl :: addr
  maxh :: nat
  sfix :: "nat \<Rightarrow> addr"
  slev :: level_state

abbreviation srow :: "skiplist \<Rightarrow> addr \<Rightarrow> addr" where
  "srow sk p \<equiv> cell (slist sk) p"

abbreviation snext :: "skiplist \<Rightarrow> addr \<Rightarrow> nat \<Rightarrow> addr" where
  "snext sk p i \<equiv> links (snodes sk p) i"

definition set_link :: "addr \<Rightarrow> nat \<Rightarrow> addr \<Rightarrow> (addr \<Rightarrow> node) \<Rightarrow> (addr \<Rightarrow> node)" where
  "set_link p i q ns = ns(p := (ns p)\<lparr>links := (links (ns p))(i := q)\<rparr>)"

text \<open>\<^verbatim>\<open>new_node\<close>, at an address the allocator returned.\<close>

definition new_node :: "addr \<Rightarrow> addr \<Rightarrow> nat \<Rightarrow> skiplist \<Rightarrow> skiplist" where
  "new_node a row h sk =
     sk\<lparr>snodes := (snodes sk)(a := \<lparr>height = h, links = (\<lambda>i. 0)\<rparr>),
        slist := lwrite_to (SetCell a row) (slist sk)\<rparr>"

text \<open>\<^verbatim>\<open>jsw_sinit\<close>, the seeding of the generator included; \<open>seed\<close> is what \<^verbatim>\<open>jsw_time_seed\<close> returned.\<close>

definition jsw_sinit :: "addr \<Rightarrow> nat \<Rightarrow> ulong \<Rightarrow> list_mem \<Rightarrow> level_state \<Rightarrow> skiplist" where
  "jsw_sinit a mx seed mem lev =
     new_node a 0 (Suc mx)
       \<lparr>snodes = (\<lambda>p. \<lparr>height = 0, links = (\<lambda>i. 0)\<rparr>), slist = mem, shead = a, curh = 0, ssize = 0,
        curl = 0, maxh = Suc mx, sfix = (\<lambda>i. 0),
        slev = lev\<lparr>lrand := jsw_seed seed (lrand lev)\<rparr>\<rparr>"

section \<open>Locating a row\<close>

partial_function (option) locate_level :: "addr cmp_t \<Rightarrow> skiplist \<Rightarrow> addr \<Rightarrow> nat \<Rightarrow> addr \<Rightarrow> addr option" where
  "locate_level cmp sk row i p =
     (let nxt = snext sk p i
      in if nxt = 0 then Some p
         else if cmp row (srow sk nxt) \<le> 0 then Some p
         else locate_level cmp sk row i nxt)"

text \<open>The loop over the levels; \<open>n\<close> of them are left, the next one is \<open>n - 1\<close>.\<close>

fun locate_levels :: "addr cmp_t \<Rightarrow> skiplist \<Rightarrow> addr \<Rightarrow> nat \<Rightarrow> addr \<Rightarrow> (nat \<Rightarrow> addr) \<Rightarrow> (addr \<times> (nat \<Rightarrow> addr)) option" where
  "locate_levels cmp sk row 0 p fx = Some (p, fx)"
| "locate_levels cmp sk row (Suc i) p fx =
     Option.bind (locate_level cmp sk row i p) (\<lambda>p'. locate_levels cmp sk row i p' (fx(i := p')))"

definition locate :: "addr cmp_t \<Rightarrow> skiplist \<Rightarrow> addr \<Rightarrow> (addr \<times> skiplist) option" where
  "locate cmp sk row =
     Option.bind (locate_levels cmp sk row (Suc (curh sk)) (shead sk) (sfix sk))
       (\<lambda>(p, fx). Some (p, sk\<lparr>sfix := fx\<rparr>))"

definition jsw_sfind :: "addr cmp_t \<Rightarrow> skiplist \<Rightarrow> addr \<Rightarrow> (addr \<times> skiplist) option" where
  "jsw_sfind cmp sk row =
     Option.bind (locate cmp sk row) (\<lambda>(q, sk1).
       let p = snext sk1 q 0; sk2 = sk1\<lparr>curl := p\<rparr>
       in Some (if p \<noteq> 0 \<and> cmp row (srow sk2 p) = 0 then p else 0, sk2))"

partial_function (option) skip_less :: "addr cmp_t \<Rightarrow> skiplist \<Rightarrow> addr \<Rightarrow> addr \<Rightarrow> addr option" where
  "skip_less cmp sk row p =
     (if p \<noteq> 0 \<and> cmp (srow sk p) row < 0 then skip_less cmp sk row (snext sk p 0) else Some p)"

definition jsw_sfind_equal_or_greater :: "addr cmp_t \<Rightarrow> skiplist \<Rightarrow> addr \<Rightarrow> (addr \<times> skiplist) option" where
  "jsw_sfind_equal_or_greater cmp sk row =
     Option.bind (locate cmp sk row) (\<lambda>(q, sk1).
       Option.bind (skip_less cmp sk1 row (snext sk1 q 0)) (\<lambda>p. Some (p, sk1\<lparr>curl := p\<rparr>)))"

partial_function (option) last_level :: "skiplist \<Rightarrow> nat \<Rightarrow> addr \<Rightarrow> addr option" where
  "last_level sk i p = (if snext sk p i \<noteq> 0 then last_level sk i (snext sk p i) else Some p)"

fun last_levels :: "skiplist \<Rightarrow> nat \<Rightarrow> addr \<Rightarrow> addr option" where
  "last_levels sk 0 p = Some p"
| "last_levels sk (Suc i) p = Option.bind (last_level sk i p) (last_levels sk i)"

definition jsw_findlast :: "skiplist \<Rightarrow> (addr \<times> skiplist) option" where
  "jsw_findlast sk =
     Option.bind (last_levels sk (Suc (curh sk)) (shead sk)) (\<lambda>p. Some (p, sk\<lparr>curl := p\<rparr>))"

section \<open>Insertion\<close>

text \<open>The loop that builds the links, from level \<open>n - 1\<close> down to 0.\<close>

fun link_levels :: "(nat \<Rightarrow> addr) \<Rightarrow> addr \<Rightarrow> nat \<Rightarrow> (addr \<Rightarrow> node) \<Rightarrow> (addr \<Rightarrow> node)" where
  "link_levels fx it 0 ns = ns"
| "link_levels fx it (Suc k) ns =
     link_levels fx it k (set_link (fx k) k it (set_link it k (links (ns (fx k)) k) ns))"

text \<open>Raising the height by at most one, and linking: what both insertions do with a new node.\<close>

definition raise_and_link :: "addr \<Rightarrow> nat \<Rightarrow> skiplist \<Rightarrow> skiplist" where
  "raise_and_link it h sk =
     (let sk1 = (if h > curh sk
                 then sk\<lparr>curh := Suc (curh sk), sfix := (sfix sk)(Suc (curh sk) := shead sk)\<rparr> else sk);
          h1 = (if h > curh sk then curh sk1 else h)
      in sk1\<lparr>snodes := link_levels (sfix sk1) it h1 (snodes sk1)\<rparr>)"

definition jsw_sinsert :: "addr cmp_t \<Rightarrow> addr \<Rightarrow> skiplist \<Rightarrow> addr \<Rightarrow> (int \<times> skiplist) option" where
  "jsw_sinsert cmp a sk row =
     Option.bind (locate cmp sk row) (\<lambda>(q, sk1).
       let p = snext sk1 q 0
       in if p \<noteq> 0 \<and> cmp row (srow sk1 p) = 0 then Some (0, sk1)
          else Option.bind (rlevel (maxh sk1) (slev sk1)) (\<lambda>(h, lev).
                 let sk2 = new_node a row h (sk1\<lparr>slev := lev\<rparr>);
                     sk3 = raise_and_link a h sk2
                 in Some (1, sk3\<lparr>ssize := Suc (ssize sk3)\<rparr>)))"

text \<open>\<^verbatim>\<open>jsw_sinsert_linked\<close>; \<open>Inl\<close> is a failure of the list insertion.\<close>

definition jsw_sinsert_linked :: "bool \<Rightarrow> addr cmp_t \<Rightarrow> addr \<Rightarrow> skiplist \<Rightarrow> addr \<Rightarrow> nat \<Rightarrow> bool
    \<Rightarrow> (list_error + (int \<times> skiplist)) option" where
  "jsw_sinsert_linked sanity cmp a sk row nodeIdx unique =
     Option.bind (locate cmp sk row) (\<lambda>(q, sk1).
       let p = snext sk1 q 0
       in if p \<noteq> 0 \<and> cmp row (srow sk1 p) = 0
          then if unique then Some (Inr (0, sk1))
               else Some (case ctable_ListInsertHead sanity (slist sk1) p row nodeIdx of
                            Inl e \<Rightarrow> Inl e
                          | Inr ws \<Rightarrow> Inr (1, sk1\<lparr>slist := run_writes ws (slist sk1), ssize := Suc (ssize sk1)\<rparr>))
          else Option.bind (rlevel (maxh sk1) (slev sk1)) (\<lambda>(h, lev).
                 let sk2 = new_node a row h (sk1\<lparr>slev := lev\<rparr>);
                     sk3 = sk2\<lparr>slist := run_writes (ctable_ListInit a) (slist sk2)\<rparr>
                 in Some (case ctable_ListInsertHead sanity (slist sk3) a row nodeIdx of
                            Inl e \<Rightarrow> Inl e
                          | Inr ws \<Rightarrow>
                              (let sk4 = raise_and_link a h (sk3\<lparr>slist := run_writes ws (slist sk3)\<rparr>)
                               in Inr (1, sk4\<lparr>ssize := Suc (ssize sk4)\<rparr>)))))"

section \<open>Removal and traversal\<close>

definition jsw_sreset :: "skiplist \<Rightarrow> skiplist" where
  "jsw_sreset sk = sk\<lparr>curl := snext sk (shead sk) 0\<rparr>"

definition jsw_sreset_head :: "skiplist \<Rightarrow> skiplist" where
  "jsw_sreset_head sk = sk\<lparr>curl := shead sk\<rparr>"

definition jsw_srow :: "skiplist \<Rightarrow> addr" where
  "jsw_srow sk = (if curl sk = 0 then 0 else srow sk (curl sk))"

definition jsw_snext :: "skiplist \<Rightarrow> bool \<times> skiplist" where
  "jsw_snext sk = (let nxt = snext sk (curl sk) 0 in (nxt \<noteq> 0, sk\<lparr>curl := nxt\<rparr>))"

definition jsw_ssize :: "skiplist \<Rightarrow> nat" where
  "jsw_ssize sk = ssize sk"

text \<open>The unlinking loop, with its \<^verbatim>\<open>break\<close>; \<open>n\<close> levels are left.\<close>

fun unlink_levels :: "(nat \<Rightarrow> addr) \<Rightarrow> addr \<Rightarrow> nat \<Rightarrow> nat \<Rightarrow> (addr \<Rightarrow> node) \<Rightarrow> (addr \<Rightarrow> node)" where
  "unlink_levels fx p i 0 ns = ns"
| "unlink_levels fx p i (Suc n) ns =
     (if links (ns (fx i)) i \<noteq> p then ns
      else unlink_levels fx p (Suc i) n (set_link (fx i) i (links (ns p) i) ns))"

fun lower_height :: "skiplist \<Rightarrow> nat \<Rightarrow> nat" where
  "lower_height sk 0 = 0"
| "lower_height sk (Suc h) = (if snext sk (shead sk) h \<noteq> 0 then Suc h else lower_height sk h)"

definition jsw_serase :: "addr cmp_t \<Rightarrow> skiplist \<Rightarrow> addr \<Rightarrow> (int \<times> skiplist) option" where
  "jsw_serase cmp sk row =
     Option.bind (locate cmp sk row) (\<lambda>(q, sk1).
       let p = snext sk1 q 0
       in if p = 0 \<or> cmp row (srow sk1 p) \<noteq> 0 then Some (0, sk1)
          else let sk2 = sk1\<lparr>snodes := unlink_levels (sfix sk1) p 0 (curh sk1) (snodes sk1), ssize := ssize sk1 - 1\<rparr>;
                   sk3 = sk2\<lparr>curh := lower_height sk2 (curh sk2)\<rparr>
               in Some (1, jsw_sreset sk3))"

text \<open>\<^verbatim>\<open>jsw_sdelete_skiplist\<close> visits and frees the nodes of level 0, then the head: the order of the frees.\<close>

partial_function (option) delete_nodes :: "skiplist \<Rightarrow> addr \<Rightarrow> addr list option" where
  "delete_nodes sk it =
     (if it = 0 then Some []
      else Option.bind (delete_nodes sk (snext sk it 0)) (\<lambda>ps. Some (it # ps)))"

definition jsw_sdelete_skiplist :: "skiplist \<Rightarrow> addr list option" where
  "jsw_sdelete_skiplist sk =
     Option.bind (delete_nodes sk (snext sk (shead sk) 0)) (\<lambda>ps. Some (ps @ [shead sk]))"

section \<open>The levels\<close>

text \<open>
  \<open>lv i\<close> are the nodes linked at level \<open>i\<close>.  Each level is a sublist of the one below, levels from
  \<^verbatim>\<open>curh\<close> on are empty, and a node is never linked at a level beyond its own array.
\<close>

definition levels_ok :: "skiplist \<Rightarrow> (nat \<Rightarrow> addr list) \<Rightarrow> bool" where
  "levels_ok sk lv \<longleftrightarrow> shead sk \<noteq> 0 \<and> shead sk \<notin> set (lv 0) \<and> curh sk < maxh sk \<and> distinct (lv 0)
     \<and> maxh sk \<le> height (snodes sk (shead sk))
     \<and> (\<forall>i. chain (\<lambda>p. snext sk p i) (snext sk (shead sk) i) (lv i))
     \<and> (\<forall>i. subseq (lv (Suc i)) (lv i)) \<and> (\<forall>i\<ge>curh sk. lv i = [])
     \<and> (\<forall>i. \<forall>p\<in>set (lv i). i < height (snodes sk p))"

definition level_order :: "addr cmp_t \<Rightarrow> skiplist \<Rightarrow> addr \<Rightarrow> addr \<Rightarrow> bool" where
  "level_order cmp sk p q \<longleftrightarrow> cmp (srow sk p) (srow sk q) < 0"

definition skip_inv :: "addr cmp_t \<Rightarrow> skiplist \<Rightarrow> (nat \<Rightarrow> addr list) \<Rightarrow> bool" where
  "skip_inv cmp sk lv \<longleftrightarrow> levels_ok sk lv \<and> sorted_wrt (level_order cmp sk) (lv 0)"

lemma levels_okD:
  assumes "levels_ok sk lv"
  shows "shead sk \<noteq> 0" "shead sk \<notin> set (lv 0)" "curh sk < maxh sk" "distinct (lv 0)"
    "chain (\<lambda>p. snext sk p i) (snext sk (shead sk) i) (lv i)" "subseq (lv (Suc i)) (lv i)"
    "curh sk \<le> i \<Longrightarrow> lv i = []" "p \<in> set (lv i) \<Longrightarrow> i < height (snodes sk p)"
    "maxh sk \<le> height (snodes sk (shead sk))"
  using assms unfolding levels_ok_def by blast+

lemma levels_subseq: "levels_ok sk lv \<Longrightarrow> i \<le> j \<Longrightarrow> subseq (lv j) (lv i)"
proof (induction j)
  case (Suc j)
  then show ?case using levels_okD(6) [OF Suc.prems(1)] subseq_order.trans by (cases "i = Suc j") auto
qed simp

lemma levels_below: "levels_ok sk lv \<Longrightarrow> subseq (lv i) (lv 0)"
  by (rule levels_subseq) auto

lemma levels_set: "levels_ok sk lv \<Longrightarrow> set (lv i) \<subseteq> set (lv 0)"
  by (rule subseq_subset [OF levels_below])

lemma levels_distinct: "levels_ok sk lv \<Longrightarrow> distinct (lv i)"
  by (rule subseq_distinct [OF levels_below levels_okD(4)])

lemma levels_head: "levels_ok sk lv \<Longrightarrow> shead sk \<notin> set (lv i)"
  using levels_set levels_okD(2) by blast

lemma skip_sorted: "skip_inv cmp sk lv \<Longrightarrow> sorted_wrt (level_order cmp sk) (lv i)"
  unfolding skip_inv_def by (blast intro: subseq_sorted_wrt levels_below)

text \<open>The nodes whose rows come before a given row, and where a search leaves a level.\<close>

definition before :: "addr cmp_t \<Rightarrow> skiplist \<Rightarrow> addr \<Rightarrow> addr \<Rightarrow> bool" where
  "before cmp sk row p \<longleftrightarrow> cmp row (srow sk p) > 0"

definition pred_at :: "addr cmp_t \<Rightarrow> skiplist \<Rightarrow> addr \<Rightarrow> addr list \<Rightarrow> addr" where
  "pred_at cmp sk row xs = last (shead sk # filter (before cmp sk row) xs)"

lemma locate_level_chain:
  "chain (\<lambda>q. snext sk q i) (snext sk p i) ys \<Longrightarrow>
     locate_level cmp sk row i p = Some (last (p # takeWhile (before cmp sk row) ys))"
proof (induction ys arbitrary: p)
  case Nil
  then show ?case by (simp add: locate_level.simps [of _ _ _ i p])
next
  case (Cons y ys)
  then have y: "snext sk p i = y" "y \<noteq> 0" "chain (\<lambda>q. snext sk q i) (snext sk y i) ys" by auto
  show ?case
    using y Cons.IH [OF y(3)] by (simp add: locate_level.simps [of _ _ _ i p] before_def Let_def)
qed

section \<open>Linking and unlinking on all levels\<close>

lemma set_link_simps [simp]:
  "links (set_link p i q ns r) j = (if r = p \<and> j = i then q else links (ns r) j)"
  "height (set_link p i q ns r) = height (ns r)"
  by (auto simp: set_link_def)

lemma link_levels_links:
  assumes "\<forall>k<n. fx k \<noteq> it"
  shows "links (link_levels fx it n ns p) i =
      (if i < n \<and> p = it then links (ns (fx i)) i else if i < n \<and> p = fx i then it else links (ns p) i)"
    and "height (link_levels fx it n ns p) = height (ns p)"
  using assms by (induction n arbitrary: ns) (auto simp: less_Suc_eq)

text \<open>The height that is really linked: at most one more than the tallest column so far.\<close>

definition linked_height :: "skiplist \<Rightarrow> nat \<Rightarrow> nat" where
  "linked_height sk h = (if h > curh sk then Suc (curh sk) else h)"

lemma raise_and_link_simps [simp]:
  "shead (raise_and_link a h sk) = shead sk" "slist (raise_and_link a h sk) = slist sk"
  "maxh (raise_and_link a h sk) = maxh sk" "ssize (raise_and_link a h sk) = ssize sk"
  "slev (raise_and_link a h sk) = slev sk" "curl (raise_and_link a h sk) = curl sk"
  "curh (raise_and_link a h sk) = max (curh sk) (linked_height sk h)"
  "snodes (raise_and_link a h sk) =
     link_levels (if h > curh sk then (sfix sk)(Suc (curh sk) := shead sk) else sfix sk) a (linked_height sk h) (snodes sk)"
  by (auto simp: raise_and_link_def linked_height_def Let_def)

lemma raise_and_link_levels:
  assumes ok: "levels_ok sk lv" and a: "a \<noteq> 0" "a \<noteq> shead sk" "a \<notin> set (lv 0)"
    and h: "1 \<le> h" "h < maxh sk" "height (snodes sk a) = h"
    and split: "\<And>i. lv i = xs i @ ys i" "\<And>i. subseq (xs (Suc i)) (xs i)" "\<And>i. subseq (ys (Suc i)) (ys i)"
    and fix_pred: "\<And>i. i \<le> curh sk \<Longrightarrow> sfix sk i = last (shead sk # xs i)"
  shows "levels_ok (raise_and_link a h sk) (\<lambda>i. if i < linked_height sk h then xs i @ a # ys i else lv i)"
proof -
  let ?n = "linked_height sk h" and ?sk = "raise_and_link a h sk"
  let ?lv = "\<lambda>i. if i < linked_height sk h then xs i @ a # ys i else lv i"
  define fx where "fx = (if h > curh sk then (sfix sk)(Suc (curh sk) := shead sk) else sfix sk)"
  note D = levels_okD [OF ok]
  have n: "0 < ?n" "?n \<le> Suc (curh sk)" "?n \<le> h" "?n < maxh sk"
    using h D(3) by (auto simp: linked_height_def)
  have ni: "a \<notin> set (lv i)" for i using levels_set [OF ok] a(3) by blast
  have f: "fx k = last (shead sk # xs k)" if "k < ?n" for k
    using that n(2) fix_pred [of k] by (auto simp: fx_def)
  have fin: "fx k = shead sk \<or> fx k \<in> set (lv k)" if "k < ?n" for k
    using f [OF that] split(1) by auto
  then have fa: "\<forall>k<?n. fx k \<noteq> a" using ni a(2) by metis
  have nodes: "snodes ?sk = link_levels fx a ?n (snodes sk)" by (simp add: fx_def)
  note L = link_levels_links [OF fa, of "snodes sk"]
  have fn: "(\<lambda>p. snext ?sk p i) = (if i < ?n then (\<lambda>p. snext sk p i)(a := snext sk (fx i) i, fx i := a) else (\<lambda>p. snext sk p i))" for i
    using fa unfolding nodes by (auto simp: L fun_eq_iff)
  have ch: "chain (\<lambda>p. snext ?sk p i) (snext ?sk (shead sk) i) (?lv i)" for i
  proof (cases "i < ?n")
    case True
    have "chain ((\<lambda>p. snext sk p i)(a := snext sk (fx i) i, fx i := a))
       (((\<lambda>p. snext sk p i)(a := snext sk (fx i) i, fx i := a)) (shead sk)) (xs i @ a # ys i)"
    proof (rule chain_link [OF _ _ _ a(1) f [OF True]])
      show "chain (\<lambda>p. snext sk p i) (snext sk (shead sk) i) (xs i @ ys i)" using D(5) split(1) by metis
      show "distinct (shead sk # xs i @ ys i)"
        using levels_distinct [OF ok, of i] levels_head [OF ok, of i] split(1) by simp
      show "a \<notin> set (shead sk # xs i @ ys i)" using ni [of i] a(2) split(1) by simp
    qed
    moreover have "snext ?sk (shead sk) i = ((\<lambda>p. snext sk p i)(a := snext sk (fx i) i, fx i := a)) (shead sk)"
      using fun_cong [OF fn [of i], of "shead sk"] True by simp
    ultimately show ?thesis using True unfolding fn by simp
  next
    case False
    moreover have "snext ?sk (shead sk) i = snext sk (shead sk) i"
      using fun_cong [OF fn [of i], of "shead sk"] False by simp
    ultimately show ?thesis using D(5) [of i] unfolding fn by simp
  qed
  have sub: "subseq (?lv (Suc i)) (?lv i)" for i
  proof -
    have "subseq (lv (Suc i)) (xs i @ a # ys i)"
    proof -
      have "subseq (lv i) (xs i @ a # ys i)"
        unfolding split(1) by (intro list_emb_append_mono subseq_order.refl) (simp add: subseq_Cons')
      then show ?thesis using D(6) [of i] subseq_order.trans by blast
    qed
    moreover have "subseq (xs (Suc i) @ a # ys (Suc i)) (xs i @ a # ys i)"
      using split(2, 3) [of i] by (intro list_emb_append_mono) auto
    ultimately show ?thesis using D(6) [of i] by auto
  qed
  have "height (snodes ?sk p) = height (snodes sk p)" for p unfolding nodes by (simp add: L)
  moreover have "\<forall>p\<in>set (?lv i). i < height (snodes sk p)" for i
    using D(8) [of _ i] split(1) [of i] h n by auto
  moreover have "?lv i = []" if "max (curh sk) ?n \<le> i" for i using that D(7) [of i] by simp
  moreover have "distinct (?lv 0)" "shead sk \<notin> set (?lv 0)"
    using n(1) levels_distinct [OF ok, of 0] ni [of 0] D(2) a(2) split(1) [of 0] by auto
  moreover have "max (curh sk) ?n < maxh sk" using n D(3) by simp
  ultimately show ?thesis
    using D(1, 9) ch sub unfolding levels_ok_def by simp
qed

lemma unlink_levels_links:
  assumes "\<forall>k. i \<le> k \<and> k < m \<longrightarrow> links (ns (fx k)) k = p" "i \<le> m" "m \<le> i + n"
    and "m < i + n \<Longrightarrow> links (ns (fx m)) m \<noteq> p"
  shows "links (unlink_levels fx p i n ns r) j =
      (if i \<le> j \<and> j < m \<and> r = fx j then links (ns p) j else links (ns r) j)
    \<and> height (unlink_levels fx p i n ns r) = height (ns r)"
  using assms
proof (induction fx p i n ns rule: unlink_levels.induct)
  case (1 fx p i ns)
  then show ?case by auto
next
  case (2 fx p i n ns)
  show ?case
  proof (cases "i < m")
    case True
    let ?ns = "set_link (fx i) i (links (ns p) i) ns"
    have at_i: "links (ns (fx i)) i = p" using 2(2) True by auto
    have "links (unlink_levels fx p (Suc i) n ?ns r) j =
        (if Suc i \<le> j \<and> j < m \<and> r = fx j then links (?ns p) j else links (?ns r) j)
      \<and> height (unlink_levels fx p (Suc i) n ?ns r) = height (?ns r)"
      using 2(1) [OF _ _ _ _ ] 2(2-) True at_i by auto
    then show ?thesis using at_i True by (auto simp: le_Suc_eq not_less_eq_eq dest: le_antisym)
  next
    case False
    then have "m = i" using 2(3) by simp
    then show ?thesis using 2(5) by auto
  qed
qed

lemma lower_height_spec:
  "lower_height sk n \<le> n \<and> (\<forall>i. lower_height sk n \<le> i \<and> i < n \<longrightarrow> snext sk (shead sk) i = 0)"
  by (induction n) (auto simp: less_Suc_eq)

text \<open>The levels a node is linked at are the lowest ones.\<close>

lemma node_levels:
  assumes ok: "levels_ok sk lv"
  obtains m where "m \<le> curh sk" "\<And>i. p \<in> set (lv i) \<longleftrightarrow> i < m"
proof
  define m where "m = (LEAST i. p \<notin> set (lv i))"
  have top: "p \<notin> set (lv (curh sk))" using levels_okD(7) [OF ok] by simp
  then show "m \<le> curh sk" unfolding m_def by (rule Least_le)
  fix i
  have "p \<notin> set (lv m)" unfolding m_def by (rule LeastI [of _ "curh sk"]) (rule top)
  moreover have "set (lv i) \<subseteq> set (lv m)" if "m \<le> i"
    using subseq_subset [OF levels_subseq [OF ok that]] .
  moreover have "p \<in> set (lv i)" if "i < m" using not_less_Least that unfolding m_def by blast
  ultimately show "p \<in> set (lv i) \<longleftrightarrow> i < m" by (metis not_le subsetD)
qed

lemma filter_neq_middle: "distinct (xs @ p # ys) \<Longrightarrow> filter (\<lambda>q. q \<noteq> p) (xs @ p # ys) = xs @ ys"
proof -
  assume "distinct (xs @ p # ys)"
  then have "filter (\<lambda>q. q \<noteq> p) xs = xs" "filter (\<lambda>q. q \<noteq> p) ys = ys"
    by (auto simp: filter_id_conv)
  then show ?thesis by simp
qed

lemma unlink_levels_ok:
  assumes ok: "levels_ok sk lv"
    and split: "\<And>i. p \<in> set (lv i) \<Longrightarrow> lv i = xs i @ p # ys i"
    and fix_pred: "\<And>i. i < curh sk \<Longrightarrow> sfix sk i = last (shead sk # xs i) \<and> (p \<notin> set (lv i) \<longrightarrow> snext sk (sfix sk i) i \<noteq> p)"
  shows "levels_ok (sk\<lparr>snodes := unlink_levels (sfix sk) p 0 (curh sk) (snodes sk)\<rparr>) (\<lambda>i. filter (\<lambda>q. q \<noteq> p) (lv i))"
proof -
  let ?ns = "unlink_levels (sfix sk) p 0 (curh sk) (snodes sk)"
  let ?sk = "sk\<lparr>snodes := ?ns\<rparr>" and ?lv = "\<lambda>i. filter (\<lambda>q. q \<noteq> p) (lv i)"
  note D = levels_okD [OF ok]
  obtain m where m: "m \<le> curh sk" "\<And>i. p \<in> set (lv i) \<longleftrightarrow> i < m" using node_levels [OF ok] by blast
  have at: "snext sk (sfix sk k) k = p" if "k < m" for k
  proof -
    have "lv k = xs k @ p # ys k" using split m(2) that by blast
    then have "chain (\<lambda>q. snext sk q k) (snext sk (last (shead sk # xs k)) k) (p # ys k)"
      using chain_last [of "\<lambda>q. snext sk q k" "shead sk" "xs k" "p # ys k"] D(5) [of k] by simp
    then show ?thesis using fix_pred [of k] that m(1) by simp
  qed
  have L: "links (?ns r) j = (if j < m \<and> r = sfix sk j then snext sk p j else snext sk r j)
      \<and> height (?ns r) = height (snodes sk r)" for r j
  proof -
    have "snext sk (sfix sk m) m \<noteq> p" if "m < 0 + curh sk" using fix_pred [of m, THEN conjunct2] m(2) [of m] that by simp
    then show ?thesis
      using unlink_levels_links [of 0 m "snodes sk" "sfix sk" p "curh sk" r j] at m(1) by simp
  qed
  have "chain (\<lambda>q. snext ?sk q i) (snext ?sk (shead sk) i) (?lv i)" for i
  proof (cases "i < m")
    case True
    then have lv: "lv i = xs i @ p # ys i" using split m(2) by blast
    have fn: "(\<lambda>q. snext ?sk q i) = (\<lambda>q. snext sk q i)(sfix sk i := snext sk p i)"
      using True by (auto simp: L)
    have d: "distinct (shead sk # xs i @ p # ys i)"
      using levels_distinct [OF ok, of i] levels_head [OF ok, of i] lv by simp
    have "chain ((\<lambda>q. snext sk q i)(sfix sk i := snext sk p i)) (((\<lambda>q. snext sk q i)(sfix sk i := snext sk p i)) (shead sk)) (xs i @ ys i)"
      by (rule chain_unlink_header [OF _ d]) (use D(5) [of i] lv fix_pred [of i] True m(1) in auto)
    moreover have "snext ?sk (shead sk) i = ((\<lambda>q. snext sk q i)(sfix sk i := snext sk p i)) (shead sk)"
      using fun_cong [OF fn, of "shead sk"] by simp
    moreover have "?lv i = xs i @ ys i" unfolding lv by (rule filter_neq_middle) (use d in simp)
    ultimately show ?thesis unfolding fn by simp
  next
    case False
    then have "?lv i = lv i" using m(2) [of i] by (auto simp: filter_id_conv)
    moreover have "(\<lambda>q. snext ?sk q i) = (\<lambda>q. snext sk q i)" using False by (auto simp: L)
    moreover have "snext ?sk (shead sk) i = snext sk (shead sk) i" using False by (simp add: L)
    ultimately show ?thesis using D(5) [of i] by simp
  qed
  moreover have "subseq (?lv (Suc i)) (?lv i)" for i using D(6) [of i] by (rule subseq_filter)
  ultimately show ?thesis
    using D(1, 2, 3, 4, 7, 8, 9) unfolding levels_ok_def by (auto simp: L)
qed

lemma lower_height_ok:
  assumes "levels_ok sk lv"
  shows "levels_ok (sk\<lparr>curh := lower_height sk (curh sk)\<rparr>) lv"
proof -
  note D = levels_okD [OF assms]
  have "lv i = []" if "lower_height sk (curh sk) \<le> i" for i
  proof (cases "i < curh sk")
    case True
    then have "snext sk (shead sk) i = 0" using lower_height_spec that by blast
    then show ?thesis using D(5) [of i] by simp
  next
    case False
    then show ?thesis using D(7) by simp
  qed
  moreover have "lower_height sk (curh sk) < maxh sk" using lower_height_spec [of sk "curh sk"] D(3) by simp
  ultimately show ?thesis using assms unfolding levels_ok_def by simp
qed

lemma levels_ok_cong:
  "levels_ok sk lv \<Longrightarrow> snodes sk' = snodes sk \<Longrightarrow> shead sk' = shead sk \<Longrightarrow> curh sk' = curh sk \<Longrightarrow> maxh sk' = maxh sk
    \<Longrightarrow> levels_ok sk' lv"
  by (simp add: levels_ok_def)

lemma new_node_simps [simp]:
  "snodes (new_node a row h sk) = (snodes sk)(a := \<lparr>height = h, links = (\<lambda>i. 0)\<rparr>)"
  "slist (new_node a row h sk) = lwrite_to (SetCell a row) (slist sk)"
  "shead (new_node a row h sk) = shead sk" "curh (new_node a row h sk) = curh sk"
  "maxh (new_node a row h sk) = maxh sk" "sfix (new_node a row h sk) = sfix sk"
  "ssize (new_node a row h sk) = ssize sk" "slev (new_node a row h sk) = slev sk"
  by (simp_all add: new_node_def)

lemma new_node_levels:
  assumes ok: "levels_ok sk lv" and a: "a \<noteq> shead sk" "a \<notin> set (lv 0)"
  shows "levels_ok (new_node a row h sk) lv"
proof -
  have ni: "a \<notin> set (lv i)" for i using levels_set [OF ok] a(2) by blast
  have "(\<lambda>p. snext (new_node a row h sk) p i) = (\<lambda>p. snext sk p i)(a := 0)" for i by (auto simp: fun_eq_iff)
  then have "chain (\<lambda>p. snext (new_node a row h sk) p i) (snext sk (shead sk) i) (lv i)" for i
    using levels_okD(5) [OF ok, of i] ni by simp
  moreover have "\<forall>p\<in>set (lv i). i < height (snodes (new_node a row h sk) p)" for i
    using levels_okD(8) [OF ok, of _ i] ni [of i] by auto
  ultimately show ?thesis using ok a unfolding levels_ok_def by simp
qed

locale row_comparator = comparator cmp for cmp :: "addr cmp_t"
begin

lemma before_down: "level_order cmp sk p q \<Longrightarrow> before cmp sk row q \<Longrightarrow> before cmp sk row p"
  using less_trans [of "srow sk p" "srow sk q" row] anti
  by (simp add: level_order_def before_def)

lemma before_split:
  assumes "sorted_wrt (level_order cmp sk) xs"
  shows "takeWhile (before cmp sk row) xs = filter (before cmp sk row) xs"
    and "filter (before cmp sk row) xs @ filter (\<lambda>q. \<not> before cmp sk row q) xs = xs"
  using sorted_takeWhile_filter [OF assms, of "before cmp sk row"]
    sorted_filter_partition [OF assms, of "before cmp sk row"] before_down by blast+

lemma locate_level_inv:
  assumes inv: "skip_inv cmp sk lv" and p: "p = shead sk \<or> p \<in> set (lv i) \<and> before cmp sk row p"
  shows "locate_level cmp sk row i p = Some (pred_at cmp sk row (lv i))"
  using p
proof
  assume p: "p = shead sk"
  have "chain (\<lambda>q. snext sk q i) (snext sk p i) (lv i)" using inv levels_okD(5) p by (auto simp: skip_inv_def)
  from locate_level_chain [OF this] show ?thesis
    using before_split(1) [OF skip_sorted [OF inv]] p by (simp add: pred_at_def)
next
  assume p: "p \<in> set (lv i) \<and> before cmp sk row p"
  obtain xs ys where lv: "lv i = xs @ p # ys" using p by (meson split_list)
  note s = skip_sorted [OF inv, of i, unfolded lv]
  have "before cmp sk row q" if "q \<in> set xs" for q
    using s that p before_down [of sk q p] by (auto simp: sorted_wrt_append)
  then have f: "filter (before cmp sk row) (lv i) = xs @ p # filter (before cmp sk row) ys"
    using p by (simp add: lv)
  have "chain (\<lambda>q. snext sk q i) (snext sk p i) ys"
    using levels_okD(5) [of sk lv i] inv chain_tail [of "\<lambda>q. snext sk q i"] by (auto simp: skip_inv_def lv)
  from locate_level_chain [OF this, of cmp row]
  have "locate_level cmp sk row i p = Some (last (p # filter (before cmp sk row) ys))"
    using before_split(1) [of sk ys row] s by (simp add: sorted_wrt_append)
  then show ?thesis by (simp add: pred_at_def f)
qed

lemma pred_at_next:
  assumes "levels_ok sk lv"
  shows "pred_at cmp sk row (lv (Suc i)) = shead sk \<or>
    pred_at cmp sk row (lv (Suc i)) \<in> set (lv i) \<and> before cmp sk row (pred_at cmp sk row (lv (Suc i)))"
proof (cases "filter (before cmp sk row) (lv (Suc i)) = []")
  case False
  then have "pred_at cmp sk row (lv (Suc i)) \<in> set (filter (before cmp sk row) (lv (Suc i)))"
    unfolding pred_at_def using last_in_set [OF False] False by (simp only: last.simps if_False)
  then show ?thesis using subseq_subset [OF levels_okD(6) [OF assms]] by auto
qed (simp add: pred_at_def)

lemma locate_levels_inv:
  assumes "skip_inv cmp sk lv"
  shows "n = 0 \<or> p = shead sk \<or> p \<in> set (lv (n - 1)) \<and> before cmp sk row p \<Longrightarrow>
    \<exists>fx'. locate_levels cmp sk row n p fx = Some (if n = 0 then p else pred_at cmp sk row (lv 0), fx')
      \<and> (\<forall>i<n. fx' i = pred_at cmp sk row (lv i)) \<and> (\<forall>i\<ge>n. fx' i = fx i)"
proof (induction n arbitrary: p fx)
  case (Suc n)
  let ?q = "pred_at cmp sk row (lv n)"
  have l: "locate_level cmp sk row n p = Some ?q"
    using Suc.prems by (intro locate_level_inv [OF assms]) simp
  have "n = 0 \<or> ?q = shead sk \<or> ?q \<in> set (lv (n - 1)) \<and> before cmp sk row ?q"
    using pred_at_next [of sk lv row "n - 1"] assms by (cases n) (auto simp: skip_inv_def)
  from Suc.IH [OF this, of "fx(n := ?q)"]
  obtain fx' where fx': "locate_levels cmp sk row n ?q (fx(n := ?q)) = Some (if n = 0 then ?q else pred_at cmp sk row (lv 0), fx')"
    "\<forall>i<n. fx' i = pred_at cmp sk row (lv i)" "\<forall>i\<ge>n. fx' i = (fx(n := ?q)) i" by blast
  then show ?case using l by (auto simp: less_Suc_eq)
qed simp

lemma locate_inv:
  assumes inv: "skip_inv cmp sk lv"
  shows "\<exists>fx. locate cmp sk row = Some (pred_at cmp sk row (lv 0), sk\<lparr>sfix := fx\<rparr>)
    \<and> (\<forall>i\<le>curh sk. fx i = pred_at cmp sk row (lv i))"
proof -
  obtain fx where fx: "locate_levels cmp sk row (Suc (curh sk)) (shead sk) (sfix sk) = Some (pred_at cmp sk row (lv 0), fx)"
    "\<forall>i<Suc (curh sk). fx i = pred_at cmp sk row (lv i)"
    using locate_levels_inv [OF inv, of "Suc (curh sk)" "shead sk" row "sfix sk"] by auto
  have "locate cmp sk row = Some (pred_at cmp sk row (lv 0), sk\<lparr>sfix := fx\<rparr>)"
    unfolding locate_def fx(1) by simp
  then show ?thesis using fx(2) by (auto simp: less_Suc_eq_le)
qed

lemma next_pred:
  assumes "skip_inv cmp sk lv"
  shows "snext sk (pred_at cmp sk row (lv i)) i = hd (filter (\<lambda>q. \<not> before cmp sk row q) (lv i) @ [0])"
proof -
  have "chain (\<lambda>q. snext sk q i) (snext sk (shead sk) i)
      (filter (before cmp sk row) (lv i) @ filter (\<lambda>q. \<not> before cmp sk row q) (lv i))"
    using before_split(2) [OF skip_sorted [OF assms]] levels_okD(5) assms by (simp add: skip_inv_def)
  from chain_last [where nxt = "\<lambda>q. snext sk q i", OF this] show ?thesis
    unfolding pred_at_def by (cases "filter (\<lambda>q. \<not> before cmp sk row q) (lv i)") auto
qed

text \<open>Nodes from the search position on compare at least equal, all but the first strictly greater.\<close>

lemma from_position:
  assumes "skip_inv cmp sk lv" "filter (\<lambda>q. \<not> before cmp sk row q) (lv 0) = p # ps"
  shows "cmp row (srow sk p) \<le> 0" "q \<in> set ps \<Longrightarrow> cmp row (srow sk q) < 0"
proof -
  have "p \<in> set (filter (\<lambda>q. \<not> before cmp sk row q) (lv 0))" using assms(2) by simp
  then show le: "cmp row (srow sk p) \<le> 0" by (simp add: before_def)
  have "sorted_wrt (level_order cmp sk) (p # ps)"
    using skip_sorted [OF assms(1), of 0] sorted_wrt_filter assms(2) by metis
  then show "q \<in> set ps \<Longrightarrow> cmp row (srow sk q) < 0"
    using less_trans' [OF le, of "srow sk q"] by (simp add: level_order_def)
qed

lemma not_before_zero: "skip_inv cmp sk lv \<Longrightarrow> p \<in> set (lv i) \<Longrightarrow> p \<noteq> 0"
  using chain_not_null [OF levels_okD(5)] by (metis skip_inv_def)

text \<open>The first node that does not come before the row is the node of that row, if there is one.\<close>

lemma found_iff:
  assumes inv: "skip_inv cmp sk lv" and p: "p = hd (filter (\<lambda>q. \<not> before cmp sk row q) (lv 0) @ [0])"
  shows "p \<noteq> 0 \<and> cmp row (srow sk p) = 0 \<longleftrightarrow> (\<exists>q\<in>set (lv 0). cmp row (srow sk q) = 0)"
    and "q \<in> set (lv 0) \<Longrightarrow> cmp row (srow sk q) = 0 \<Longrightarrow> q = p"
    and "p \<noteq> 0 \<Longrightarrow> p \<in> set (lv 0)"
proof -
  let ?ys = "filter (\<lambda>q. \<not> before cmp sk row q) (lv 0)"
  have q: "q = p" if "q \<in> set (lv 0)" "cmp row (srow sk q) = 0" for q
  proof -
    have "q \<in> set ?ys" using that by (simp add: before_def)
    then obtain ps where ps: "?ys = p # ps" using p by (cases ?ys) auto
    then show ?thesis using from_position(2) [OF inv ps, of q] \<open>q \<in> set ?ys\<close> that(2) by auto
  qed
  then show "q \<in> set (lv 0) \<Longrightarrow> cmp row (srow sk q) = 0 \<Longrightarrow> q = p" .
  have "p \<in> set ?ys" if "p \<noteq> 0" using p that by (cases ?ys) auto
  then show "p \<noteq> 0 \<Longrightarrow> p \<in> set (lv 0)" by simp
  then show "p \<noteq> 0 \<and> cmp row (srow sk p) = 0 \<longleftrightarrow> (\<exists>q\<in>set (lv 0). cmp row (srow sk q) = 0)"
    using q not_before_zero [OF inv] by blast
qed

lemma sfind_inv:
  assumes inv: "skip_inv cmp sk lv"
  shows "\<exists>p fx. jsw_sfind cmp sk row = Some (p, sk\<lparr>sfix := fx, curl := hd (filter (\<lambda>q. \<not> before cmp sk row q) (lv 0) @ [0])\<rparr>)
    \<and> (if \<exists>q\<in>set (lv 0). cmp row (srow sk q) = 0 then p \<in> set (lv 0) \<and> cmp row (srow sk p) = 0 else p = 0)"
proof -
  let ?p = "hd (filter (\<lambda>q. \<not> before cmp sk row q) (lv 0) @ [0])"
  obtain fx where fx: "locate cmp sk row = Some (pred_at cmp sk row (lv 0), sk\<lparr>sfix := fx\<rparr>)"
    using locate_inv [OF inv] by blast
  have "jsw_sfind cmp sk row = Some (if ?p \<noteq> 0 \<and> cmp row (srow sk ?p) = 0 then ?p else 0, sk\<lparr>sfix := fx, curl := ?p\<rparr>)"
    unfolding jsw_sfind_def fx using next_pred [OF inv, of row 0] by (simp add: Let_def)
  then show ?thesis
    using found_iff(1, 3) [OF inv refl, where row = row] by (cases "?p \<noteq> 0 \<and> cmp row (srow sk ?p) = 0") auto
qed

lemma skip_less_stop: "cmp row (srow sk p) \<le> 0 \<or> p = 0 \<Longrightarrow> skip_less cmp sk row p = Some p"
  using anti [of row "srow sk p"] by (subst skip_less.simps) auto

lemma sfind_ge_inv:
  assumes inv: "skip_inv cmp sk lv"
  shows "\<exists>fx. jsw_sfind_equal_or_greater cmp sk row =
    Some (hd (filter (\<lambda>q. \<not> before cmp sk row q) (lv 0) @ [0]),
          sk\<lparr>sfix := fx, curl := hd (filter (\<lambda>q. \<not> before cmp sk row q) (lv 0) @ [0])\<rparr>)"
proof -
  let ?ys = "filter (\<lambda>q. \<not> before cmp sk row q) (lv 0)"
  let ?p = "hd (?ys @ [0])"
  obtain fx where fx: "locate cmp sk row = Some (pred_at cmp sk row (lv 0), sk\<lparr>sfix := fx\<rparr>)"
    using locate_inv [OF inv] by blast
  have "cmp row (srow (sk\<lparr>sfix := fx\<rparr>) ?p) \<le> 0 \<or> ?p = 0"
    using from_position(1) [OF inv] by (cases ?ys) auto
  then have "skip_less cmp (sk\<lparr>sfix := fx\<rparr>) row ?p = Some ?p" by (rule skip_less_stop)
  then show ?thesis
    unfolding jsw_sfind_equal_or_greater_def fx using next_pred [OF inv, of row 0]
    by (intro exI [of _ fx]) simp
qed

text \<open>Linking a new node at its place keeps the invariant, whatever list operations its row went through.\<close>

lemma insert_at_position:
  assumes inv: "skip_inv cmp sk lv" and a: "a \<noteq> 0" "a \<noteq> shead sk" "a \<notin> set (lv 0)"
    and absent: "\<forall>q\<in>set (lv 0). cmp row (srow sk q) \<noteq> 0"
    and h: "1 \<le> h" "h < maxh sk"
    and sk2: "snodes sk2 = (snodes sk)(a := \<lparr>height = h, links = (\<lambda>i. 0)\<rparr>)" "shead sk2 = shead sk"
      "curh sk2 = curh sk" "maxh sk2 = maxh sk" "\<forall>q\<in>set (lv 0). srow sk2 q = srow sk q"
    and fx: "\<forall>i\<le>curh sk. sfix sk2 i = pred_at cmp sk row (lv i)" and row: "srow sk2 a = row"
  defines "lv' \<equiv> \<lambda>i. if i < linked_height sk2 h
      then filter (before cmp sk row) (lv i) @ a # filter (\<lambda>q. \<not> before cmp sk row q) (lv i) else lv i"
  shows "skip_inv cmp (raise_and_link a h sk2) lv'"
proof -
  let ?B = "before cmp sk row"
  have ok: "levels_ok sk lv" using inv by (simp add: skip_inv_def)
  have ok2: "levels_ok sk2 lv"
    by (rule levels_ok_cong [OF new_node_levels [OF ok a(2, 3), of row h]]) (use sk2 in auto)
  have sp: "lv i = filter ?B (lv i) @ filter (\<lambda>q. \<not> ?B q) (lv i)" for i
    using before_split(2) [OF skip_sorted [OF inv]] by metis
  have lev: "levels_ok (raise_and_link a h sk2) lv'"
    unfolding lv'_def
  proof (rule raise_and_link_levels [OF ok2 a(1) _ a(3) h(1) _ _ sp])
    show "sfix sk2 i = last (shead sk2 # filter ?B (lv i))" if "i \<le> curh sk2" for i
      using fx that sk2(2, 3) by (simp add: pred_at_def)
  qed (use a(2) h(2) sk2 levels_okD(6) [OF ok] in \<open>auto intro: subseq_filter\<close>)
  have sr: "srow (raise_and_link a h sk2) q = srow sk q" if "q \<in> set (lv 0)" for q using sk2(5) that by simp
  have ys: "cmp row (srow sk q) < 0" if "q \<in> set (filter (\<lambda>q. \<not> ?B q) (lv 0))" for q
    using that absent by (force simp: before_def)
  have xs: "cmp (srow sk q) row < 0" if "q \<in> set (filter ?B (lv 0))" for q
    using that anti [of row "srow sk q"] by (simp add: before_def)
  have s0: "sorted_wrt (level_order cmp sk) (filter ?B (lv 0) @ filter (\<lambda>q. \<not> ?B q) (lv 0))"
    using skip_sorted [OF inv, of 0] sp [of 0] by simp
  have n: "0 < linked_height sk2 h" using h by (simp add: linked_height_def)
  have "sorted_wrt (level_order cmp (raise_and_link a h sk2)) (filter ?B (lv 0) @ a # filter (\<lambda>q. \<not> ?B q) (lv 0))"
  proof -
    have lo: "level_order cmp (raise_and_link a h sk2) p q" if "level_order cmp sk p q" "p \<in> set (lv 0)" "q \<in> set (lv 0)" for p q
      using that sr by (simp add: level_order_def)
    show ?thesis
      using s0 row xs ys sr
      unfolding sorted_wrt_append sorted_wrt.simps
      by (auto simp: level_order_def elim: sorted_wrt_mono_rel [rotated] intro: lo)
  qed
  then show ?thesis using lev n unfolding skip_inv_def lv'_def by simp
qed

lemma skip_inv_rows_cong:
  assumes "skip_inv cmp sk lv" "\<forall>p\<in>set (lv 0). cmp (srow sk' p) (srow sk p) = 0" "levels_ok sk' lv"
  shows "skip_inv cmp sk' lv"
proof -
  have "level_order cmp sk' p q" if "level_order cmp sk p q" "p \<in> set (lv 0)" "q \<in> set (lv 0)" for p q
    using that assms(2) eq_less [of "srow sk' p" "srow sk p"] eq_less' [of "srow sk' q" "srow sk q"]
    by (auto simp: level_order_def)
  then have "sorted_wrt (level_order cmp sk') (lv 0)"
    using assms(1) by (auto simp: skip_inv_def elim!: sorted_wrt_mono_rel [rotated])
  then show ?thesis using assms(3) by (simp add: skip_inv_def)
qed

lemma sinsert_known:
  assumes inv: "skip_inv cmp sk lv" and ex: "\<exists>q\<in>set (lv 0). cmp row (srow sk q) = 0"
  shows "\<exists>fx. jsw_sinsert cmp a sk row = Some (0, sk\<lparr>sfix := fx\<rparr>)"
proof -
  obtain fx where fx: "locate cmp sk row = Some (pred_at cmp sk row (lv 0), sk\<lparr>sfix := fx\<rparr>)"
    using locate_inv [OF inv] by blast
  show ?thesis
    unfolding jsw_sinsert_def fx using next_pred [OF inv, of row 0] found_iff(1) [OF inv refl, of row] ex
    by (intro exI [of _ fx]) (simp add: Let_def)
qed

lemma sinsert_new:
  assumes inv: "skip_inv cmp sk lv" and a: "a \<noteq> 0" "a \<noteq> shead sk" "a \<notin> set (lv 0)"
    and absent: "\<forall>q\<in>set (lv 0). cmp row (srow sk q) \<noteq> 0"
    and lev: "rlevel (maxh sk) (slev sk) = Some (h, lev)" and mx: "2 \<le> maxh sk"
  shows "\<exists>sk' lv'. jsw_sinsert cmp a sk row = Some (1, sk') \<and> skip_inv cmp sk' lv'
    \<and> lv' 0 = filter (before cmp sk row) (lv 0) @ a # filter (\<lambda>q. \<not> before cmp sk row q) (lv 0)
    \<and> slist sk' = lwrite_to (SetCell a row) (slist sk) \<and> ssize sk' = Suc (ssize sk)"
proof -
  obtain fx where fx: "locate cmp sk row = Some (pred_at cmp sk row (lv 0), sk\<lparr>sfix := fx\<rparr>)"
    "\<forall>i\<le>curh sk. fx i = pred_at cmp sk row (lv i)"
    using locate_inv [OF inv] by blast
  have h: "1 \<le> h" "h < maxh sk" using rlevel_range [OF mx lev] by auto
  let ?sk2 = "new_node a row h (sk\<lparr>sfix := fx, slev := lev\<rparr>)"
  let ?sk3 = "raise_and_link a h ?sk2"
  define lv' where "lv' = (\<lambda>i. if i < linked_height ?sk2 h
      then filter (before cmp sk row) (lv i) @ a # filter (\<lambda>q. \<not> before cmp sk row q) (lv i) else lv i)"
  have "skip_inv cmp ?sk3 lv'"
    unfolding lv'_def by (rule insert_at_position [OF inv a absent h]) (use a fx(2) in auto)
  then have "skip_inv cmp (?sk3\<lparr>ssize := Suc (ssize ?sk3)\<rparr>) lv'"
    by (auto simp: skip_inv_def level_order_def [abs_def] intro: levels_ok_cong)
  moreover have "jsw_sinsert cmp a sk row = Some (1, ?sk3\<lparr>ssize := Suc (ssize ?sk3)\<rparr>)"
    unfolding jsw_sinsert_def fx using next_pred [OF inv, of row 0] found_iff(1) [OF inv refl, of row] absent lev
    by (auto simp: Let_def)
  moreover have "0 < linked_height ?sk2 h" using h by (simp add: linked_height_def)
  ultimately show ?thesis by (intro exI [of _ "?sk3\<lparr>ssize := Suc (ssize ?sk3)\<rparr>"] exI [of _ lv']) (simp add: lv'_def)
qed

lemma serase_absent:
  assumes inv: "skip_inv cmp sk lv" and absent: "\<forall>q\<in>set (lv 0). cmp row (srow sk q) \<noteq> 0"
  shows "\<exists>fx. jsw_serase cmp sk row = Some (0, sk\<lparr>sfix := fx\<rparr>)"
proof -
  obtain fx where fx: "locate cmp sk row = Some (pred_at cmp sk row (lv 0), sk\<lparr>sfix := fx\<rparr>)"
    using locate_inv [OF inv] by blast
  show ?thesis
    unfolding jsw_serase_def fx using next_pred [OF inv, of row 0] found_iff(1) [OF inv refl, of row] absent
    by (intro exI [of _ fx]) (auto simp: Let_def)
qed

lemma serase_known:
  assumes inv: "skip_inv cmp sk lv" and p: "p \<in> set (lv 0)" "cmp row (srow sk p) = 0"
  shows "\<exists>sk'. jsw_serase cmp sk row = Some (1, sk') \<and> skip_inv cmp sk' (\<lambda>i. filter (\<lambda>q. q \<noteq> p) (lv i))
    \<and> slist sk' = slist sk \<and> ssize sk' = ssize sk - 1 \<and> curl sk' = hd (filter (\<lambda>q. q \<noteq> p) (lv 0) @ [0])"
proof -
  let ?B = "before cmp sk row" and ?lv = "\<lambda>i. filter (\<lambda>q. q \<noteq> p) (lv i)"
  have ok: "levels_ok sk lv" using inv by (simp add: skip_inv_def)
  obtain fx where fx: "locate cmp sk row = Some (pred_at cmp sk row (lv 0), sk\<lparr>sfix := fx\<rparr>)"
    "\<forall>i\<le>curh sk. fx i = pred_at cmp sk row (lv i)"
    using locate_inv [OF inv] by blast
  define ys where "ys = (\<lambda>i. tl (filter (\<lambda>q. \<not> ?B q) (lv i)))"
  have hd0: "p = hd (filter (\<lambda>q. \<not> ?B q) (lv 0) @ [0])" using found_iff(2) [OF inv refl] p by blast
  then obtain zs where zs: "filter (\<lambda>q. \<not> ?B q) (lv 0) = p # zs"
    using not_before_zero [OF inv p(1)] by (cases "filter (\<lambda>q. \<not> ?B q) (lv 0)") auto
  have hdi: "filter (\<lambda>q. \<not> ?B q) (lv i) = p # ys i" if pi: "p \<in> set (lv i)" for i
  proof -
    have "subseq (filter (\<lambda>q. \<not> ?B q) (lv i)) (p # zs)" using subseq_filter [OF levels_below [OF ok]] zs by metis
    moreover have "p \<in> set (filter (\<lambda>q. \<not> ?B q) (lv i))" using pi p(2) by (simp add: before_def)
    moreover have "p \<notin> set zs" using zs distinct_filter [OF levels_distinct [OF ok, of 0]] by (metis distinct.simps(2))
    ultimately show ?thesis unfolding ys_def
      by (cases "filter (\<lambda>q. \<not> ?B q) (lv i)")
        (auto simp: subseq_Cons2_iff split: if_splits dest!: subsetD [OF subseq_subset])
  qed
  have split: "lv i = filter ?B (lv i) @ p # ys i" if "p \<in> set (lv i)" for i
    using before_split(2) [OF skip_sorted [OF inv, of i], of row] hdi [OF that] by simp
  let ?sk1 = "sk\<lparr>sfix := fx\<rparr>"
  let ?sk2 = "?sk1\<lparr>snodes := unlink_levels fx p 0 (curh sk) (snodes sk)\<rparr>"
  have ok1: "levels_ok ?sk1 lv" by (rule levels_ok_cong [OF ok]) auto
  have "levels_ok (?sk1\<lparr>snodes := unlink_levels (sfix ?sk1) p 0 (curh ?sk1) (snodes ?sk1)\<rparr>) ?lv"
  proof (rule unlink_levels_ok [OF ok1, where xs = "\<lambda>i. filter ?B (lv i)" and ys = ys])
    fix i assume i: "i < curh ?sk1"
    have "snext sk (pred_at cmp sk row (lv i)) i \<noteq> p" if "p \<notin> set (lv i)"
    proof -
      have "hd (filter (\<lambda>q. \<not> ?B q) (lv i) @ [0]) \<in> insert 0 (set (lv i))"
        by (cases "filter (\<lambda>q. \<not> ?B q) (lv i)") (auto simp: filter_eq_Cons_iff)
      then show ?thesis using next_pred [OF inv, of row i] that not_before_zero [OF inv p(1)] by auto
    qed
    then show "sfix ?sk1 i = last (shead ?sk1 # filter ?B (lv i)) \<and> (p \<notin> set (lv i) \<longrightarrow> snext ?sk1 (sfix ?sk1 i) i \<noteq> p)"
      using fx(2) i by (simp add: pred_at_def)
  qed (use split in auto)
  then have ok2: "levels_ok ?sk2 ?lv" by simp
  let ?sk3 = "?sk2\<lparr>ssize := ssize sk - 1, curh := lower_height (?sk2\<lparr>ssize := ssize sk - 1\<rparr>) (curh sk)\<rparr>"
  have "levels_ok (?sk2\<lparr>ssize := ssize sk - 1\<rparr>) ?lv" by (rule levels_ok_cong [OF ok2]) auto
  then have ok3: "levels_ok ?sk3 ?lv" using lower_height_ok [of "?sk2\<lparr>ssize := ssize sk - 1\<rparr>" ?lv] by simp
  then have ok4: "levels_ok (jsw_sreset ?sk3) ?lv" by (rule levels_ok_cong) (auto simp: jsw_sreset_def)
  have "sorted_wrt (level_order cmp sk) (?lv 0)" using skip_sorted [OF inv] by (rule sorted_wrt_filter)
  then have "skip_inv cmp (jsw_sreset ?sk3) ?lv" using ok4 by (simp add: skip_inv_def jsw_sreset_def level_order_def [abs_def])
  moreover have "jsw_serase cmp sk row = Some (1, jsw_sreset ?sk3)"
    unfolding jsw_serase_def fx(1) using next_pred [OF inv, of row 0] hd0 p(2) not_before_zero [OF inv p(1)]
    by (simp add: Let_def)
  moreover have "curl (jsw_sreset ?sk3) = hd (?lv 0 @ [0])"
    using levels_okD(5) [OF ok3, of 0] by (cases "?lv 0") (auto simp: jsw_sreset_def)
  ultimately show ?thesis by (intro exI [of _ "jsw_sreset ?sk3"]) (simp add: jsw_sreset_def)
qed

text \<open>The rows of the two halves around a search position.\<close>

lemma rows_split:
  "map (srow sk) (filter (before cmp sk row) ps) = filter (\<lambda>r. cmp row r > 0) (map (srow sk) ps)"
  "map (srow sk) (filter (\<lambda>q. \<not> before cmp sk row q) ps) = filter (\<lambda>r. cmp row r \<le> 0) (map (srow sk) ps)"
  by (simp_all add: filter_map comp_def before_def [abs_def] not_less)

end

section \<open>The list of rows\<close>

text \<open>
  \<open>skip_rows cmp sk rows\<close>: \<open>sk\<close> is a well formed skip list and \<open>rows\<close> are its rows, in the order of the
  nodes.
\<close>

definition skip_rows :: "addr cmp_t \<Rightarrow> skiplist \<Rightarrow> addr list \<Rightarrow> bool" where
  "skip_rows cmp sk rows \<longleftrightarrow> (\<exists>lv. skip_inv cmp sk lv \<and> rows = map (srow sk) (lv 0) \<and> ssize sk = length rows)"

lemma skip_rows_sorted: "skip_rows cmp sk rows \<Longrightarrow> sorted_wrt (\<lambda>r s. cmp r s < 0) rows"
  by (auto simp: skip_rows_def sorted_wrt_map level_order_def [abs_def] dest: skip_sorted)

lemma skip_rows_cong:
  assumes "skip_rows cmp sk rows" "snodes sk' = snodes sk" "shead sk' = shead sk" "curh sk' = curh sk"
    "maxh sk' = maxh sk" "slist sk' = slist sk" "ssize sk' = ssize sk"
  shows "skip_rows cmp sk' rows"
proof -
  obtain lv where lv: "skip_inv cmp sk lv" "rows = map (srow sk) (lv 0)" "ssize sk = length rows"
    using assms(1) by (auto simp: skip_rows_def)
  have "levels_ok sk' lv" using lv(1) assms by (auto simp: skip_inv_def intro: levels_ok_cong)
  then have "skip_inv cmp sk' lv" using lv(1) assms(6) by (simp add: skip_inv_def level_order_def [abs_def])
  then show ?thesis using lv assms by (auto simp: skip_rows_def)
qed

text \<open>The traversal \<^verbatim>\<open>for (; (p = jsw_srow (skip)) != NULL; jsw_snext (skip))\<close>: the rows it visits.\<close>

partial_function (option) walk_rows :: "skiplist \<Rightarrow> addr list option" where
  "walk_rows sk =
     (if jsw_srow sk = 0 then Some []
      else Option.bind (walk_rows (snd (jsw_snext sk))) (\<lambda>rs. Some (jsw_srow sk # rs)))"

lemma walk_rows_chain:
  "chain (\<lambda>p. snext sk p 0) (curl sk) ps \<Longrightarrow> 0 \<notin> set (map (srow sk) ps) \<Longrightarrow> walk_rows sk = Some (map (srow sk) ps)"
proof (induction ps arbitrary: sk)
  case Nil
  then show ?case by (simp add: walk_rows.simps [of sk] jsw_srow_def)
next
  case (Cons p ps)
  let ?sk = "snd (jsw_snext sk)"
  have "curl sk = p" "p \<noteq> 0" "chain (\<lambda>p. snext sk p 0) (snext sk p 0) ps" using Cons.prems(1) by auto
  moreover have "snodes ?sk = snodes sk" "slist ?sk = slist sk" "curl ?sk = snext sk (curl sk) 0"
    by (simp_all add: jsw_snext_def Let_def)
  moreover have "walk_rows ?sk = Some (map (srow ?sk) ps)"
    by (rule Cons.IH) (use calculation Cons.prems(2) in auto)
  ultimately show ?case using Cons.prems(2) by (simp add: walk_rows.simps [of sk] jsw_srow_def)
qed

lemma last_level_chain:
  "chain (\<lambda>q. snext sk q i) (snext sk p i) ps \<Longrightarrow> last_level sk i p = Some (last (p # ps))"
proof (induction ps arbitrary: p)
  case Nil
  then show ?case by (simp add: last_level.simps [of sk i p])
next
  case (Cons q ps)
  then have "snext sk p i = q" "q \<noteq> 0" "chain (\<lambda>q. snext sk q i) (snext sk q i) ps" by auto
  then show ?case using Cons.IH by (simp add: last_level.simps [of sk i p])
qed

lemma last_levels_inv:
  assumes ok: "levels_ok sk lv"
  shows "n = 0 \<or> p = shead sk \<or> p \<in> set (lv (n - 1)) \<Longrightarrow>
    last_levels sk n p = Some (if n = 0 then p else last (shead sk # lv 0))"
proof (induction n arbitrary: p)
  case (Suc n)
  note ch = levels_okD(5) [OF ok, of n]
  have l: "last_level sk n p = Some (last (shead sk # lv n))"
  proof (cases "p = shead sk")
    case True
    then show ?thesis using last_level_chain [OF ch] by simp
  next
    case False
    then have "p \<in> set (lv n)" using Suc.prems by simp
    then obtain xs ys where lv: "lv n = xs @ p # ys" by (meson split_list)
    then have "chain (\<lambda>q. snext sk q n) (snext sk p n) ys" using ch chain_tail [of "\<lambda>q. snext sk q n"] by auto
    from last_level_chain [OF this] show ?thesis by (simp add: lv)
  qed
  have "n = 0 \<or> last (shead sk # lv n) = shead sk \<or> last (shead sk # lv n) \<in> set (lv (n - 1))"
    using subseq_subset [OF levels_okD(6) [OF ok, of "n - 1"]] by (cases n) (auto dest: last_in_set)
  from Suc.IH [OF this] show ?case using l by (auto simp del: last.simps)
qed simp

lemma delete_nodes_chain: "chain (\<lambda>p. snext sk p 0) p ps \<Longrightarrow> delete_nodes sk p = Some ps"
proof (induction ps arbitrary: p)
  case Nil
  then show ?case by (simp add: delete_nodes.simps [of sk 0])
next
  case (Cons q ps)
  then show ?case by (auto simp: delete_nodes.simps [of sk q])
qed

text \<open>An order of rows to apply the theorems to: by address.\<close>

definition address_order :: "addr cmp_t" where
  "address_order a b = int a - int b"

interpretation addresses: row_comparator address_order
  by unfold_locales (auto simp: address_order_def)

definition sample_levels :: level_state where
  "sample_levels = \<lparr>lbits = 1, lreset = 31, lrand = \<lparr>rx = [], rnext = 0\<rparr>\<rparr>"

definition sample_list :: skiplist where
  "sample_list = (jsw_sinit 8 4 0 empty_mem sample_levels)\<lparr>slev := sample_levels\<rparr>"

section \<open>Properties\<close>

lemma init_rows: "a \<noteq> 0 \<Longrightarrow> skip_rows cmp (jsw_sinit a mx seed mem lev) []"
  by (auto simp: skip_rows_def skip_inv_def levels_ok_def jsw_sinit_def intro!: exI [of _ "\<lambda>i. []"])

lemma skip_rowsE:
  assumes "skip_rows cmp sk rows"
  obtains lv where "skip_inv cmp sk lv" "rows = map (srow sk) (lv 0)" "ssize sk = length (lv 0)"
  using assms by (auto simp: skip_rows_def)

context row_comparator
begin

lemma find_rows:
  assumes "skip_rows cmp sk rows"
  shows "\<exists>p sk1. jsw_sfind cmp sk row = Some (p, sk1) \<and> skip_rows cmp sk1 rows
    \<and> (if \<exists>r\<in>set rows. cmp row r = 0 then p \<noteq> 0 \<and> srow sk1 p \<in> set rows \<and> cmp row (srow sk1 p) = 0 else p = 0)"
proof -
  obtain lv where inv: "skip_inv cmp sk lv" and rows: "rows = map (srow sk) (lv 0)"
    using assms by (rule skip_rowsE)
  obtain p fx c where p: "jsw_sfind cmp sk row = Some (p, sk\<lparr>sfix := fx, curl := c\<rparr>)"
      "if \<exists>q\<in>set (lv 0). cmp row (srow sk q) = 0 then p \<in> set (lv 0) \<and> cmp row (srow sk p) = 0 else p = 0"
    using sfind_inv [OF inv, of row] by blast
  have "skip_rows cmp (sk\<lparr>sfix := fx, curl := c\<rparr>) rows" by (rule skip_rows_cong [OF assms]) auto
  then show ?thesis
    using p not_before_zero [OF inv, of p 0] rows
    by (intro exI [of _ p] exI [of _ "sk\<lparr>sfix := fx, curl := c\<rparr>"]) (auto split: if_splits)
qed

lemma ge_rows:
  assumes "skip_rows cmp sk rows" "0 \<notin> set rows"
  shows "\<exists>p sk2. jsw_sfind_equal_or_greater cmp sk row = Some (p, sk2) \<and> skip_rows cmp sk2 rows
      \<and> walk_rows sk2 = Some (filter (\<lambda>r. cmp row r \<le> 0) rows)"
proof -
  obtain lv where inv: "skip_inv cmp sk lv" and rows: "rows = map (srow sk) (lv 0)"
    using assms(1) by (rule skip_rowsE)
  let ?ys = "filter (\<lambda>q. \<not> before cmp sk row q) (lv 0)"
  let ?p = "hd (?ys @ [0])"
  obtain fx where fx: "jsw_sfind_equal_or_greater cmp sk row = Some (?p, sk\<lparr>sfix := fx, curl := ?p\<rparr>)"
    using sfind_ge_inv [OF inv, of row] by blast
  let ?sk = "sk\<lparr>sfix := fx, curl := ?p\<rparr>"
  have "skip_rows cmp ?sk rows" by (rule skip_rows_cong [OF assms(1)]) auto
  moreover have "\<exists>p. chain (\<lambda>p. snext sk p 0) p ?ys"
    using chain_suffix [of "\<lambda>p. snext sk p 0" "snext sk (shead sk) 0" "filter (before cmp sk row) (lv 0)" ?ys]
      levels_okD(5) [of sk lv 0] before_split(2) [OF skip_sorted [OF inv, of 0], of row] inv
    by (auto simp: skip_inv_def)
  then have "chain (\<lambda>p. snext sk p 0) ?p ?ys" using chain_first by metis
  then have "walk_rows ?sk = Some (map (srow ?sk) ?ys)"
    by (intro walk_rows_chain) (use assms(2) rows in auto)
  ultimately show ?thesis using fx rows by (intro exI [of _ ?p] exI [of _ ?sk]) (simp add: rows_split)
qed

lemma insert_rows:
  assumes "skip_rows cmp sk rows" and a: "a \<noteq> 0" "a \<noteq> shead sk" "snodes sk a = \<lparr>height = 0, links = l\<rparr>"
    and lev: "rlevel (maxh sk) (slev sk) = Some (h, lev)" and mx: "2 \<le> maxh sk"
  shows "\<exists>sk'. jsw_sinsert cmp a sk row = Some (if \<exists>r\<in>set rows. cmp row r = 0 then 0 else 1, sk')
    \<and> skip_rows cmp sk' (if \<exists>r\<in>set rows. cmp row r = 0 then rows
        else filter (\<lambda>r. cmp row r > 0) rows @ row # filter (\<lambda>r. cmp row r < 0) rows)"
proof -
  obtain lv where inv: "skip_inv cmp sk lv" and rows: "rows = map (srow sk) (lv 0)" "ssize sk = length (lv 0)"
    using assms(1) by (rule skip_rowsE)
  show ?thesis
  proof (cases "\<exists>r\<in>set rows. cmp row r = 0")
    case True
    then obtain fx where "jsw_sinsert cmp a sk row = Some (0, sk\<lparr>sfix := fx\<rparr>)"
      using sinsert_known [OF inv, of row a] rows by auto
    moreover have "skip_rows cmp (sk\<lparr>sfix := fx\<rparr>) rows" by (rule skip_rows_cong [OF assms(1)]) auto
    ultimately show ?thesis using True by auto
  next
    case False
    then have ab: "\<forall>q\<in>set (lv 0). cmp row (srow sk q) \<noteq> 0" using rows by auto
    have ni: "a \<notin> set (lv 0)" using inv a(3) levels_okD(8) [of sk lv a 0] by (auto simp: skip_inv_def)
    from sinsert_new [OF inv a(1, 2) ni ab lev mx] obtain sk' lv' where
      sk': "jsw_sinsert cmp a sk row = Some (1, sk')" "skip_inv cmp sk' lv'"
      "lv' 0 = filter (before cmp sk row) (lv 0) @ a # filter (\<lambda>q. \<not> before cmp sk row q) (lv 0)"
      "slist sk' = lwrite_to (SetCell a row) (slist sk)" "ssize sk' = Suc (ssize sk)"
      by blast
    have "map (srow sk') (lv' 0) = map (srow sk) (filter (before cmp sk row) (lv 0)) @ row
        # map (srow sk) (filter (\<lambda>q. \<not> before cmp sk row q) (lv 0))"
      unfolding sk'(3, 4) using ni by auto
    then have m: "map (srow sk') (lv' 0) = filter (\<lambda>r. cmp row r > 0) rows @ row # filter (\<lambda>r. cmp row r \<le> 0) rows"
      by (simp add: rows rows_split)
    moreover have "filter (\<lambda>r. cmp row r \<le> 0) rows = filter (\<lambda>r. cmp row r < 0) rows"
      by (rule filter_cong) (use False in \<open>auto simp: order_less_le\<close>)
    moreover have "ssize sk' = length (map (srow sk') (lv' 0))"
      using sk'(3, 5) rows(2) sum_length_filter_compl [of "before cmp sk row" "lv 0"] by simp
    ultimately show ?thesis using False sk'(1, 2) unfolding skip_rows_def by (intro exI [of _ sk']) auto
  qed
qed

lemma erase_rows:
  assumes "skip_rows cmp sk rows"
  shows "\<exists>sk'. jsw_serase cmp sk row = Some (if \<exists>r\<in>set rows. cmp row r = 0 then 1 else 0, sk')
    \<and> skip_rows cmp sk' (filter (\<lambda>r. cmp row r \<noteq> 0) rows)"
proof -
  obtain lv where inv: "skip_inv cmp sk lv" and rows: "rows = map (srow sk) (lv 0)" "ssize sk = length (lv 0)"
    using assms(1) by (rule skip_rowsE)
  show ?thesis
  proof (cases "\<exists>r\<in>set rows. cmp row r = 0")
    case True
    then obtain p where p: "p \<in> set (lv 0)" "cmp row (srow sk p) = 0" using rows by auto
    from serase_known [OF inv p] obtain sk' where
      sk': "jsw_serase cmp sk row = Some (1, sk')" "skip_inv cmp sk' (\<lambda>i. filter (\<lambda>q. q \<noteq> p) (lv i))"
        "slist sk' = slist sk" "ssize sk' = ssize sk - 1" by blast
    have "cmp row (srow sk q) = 0 \<longleftrightarrow> q = p" if "q \<in> set (lv 0)" for q
      using found_iff(2) [OF inv refl that] found_iff(2) [OF inv refl p] p(2) by blast
    then have "filter (\<lambda>q. q \<noteq> p) (lv 0) = filter (\<lambda>q. cmp row (srow sk q) \<noteq> 0) (lv 0)"
      by (intro filter_cong) auto
    then have m: "map (srow sk') (filter (\<lambda>q. q \<noteq> p) (lv 0)) = filter (\<lambda>r. cmp row r \<noteq> 0) rows"
      using sk'(3) rows by (simp add: filter_map comp_def)
    have "distinct (lv 0)" using inv by (auto simp: skip_inv_def levels_ok_def)
    then have "remove1 p (lv 0) = filter (\<lambda>q. q \<noteq> p) (lv 0)"
      by (simp add: distinct_remove1_removeAll removeAll_filter_not_eq neq_commute)
    then have "length (filter (\<lambda>q. q \<noteq> p) (lv 0)) = length (lv 0) - 1"
      using length_remove1 [of p "lv 0"] p(1) by simp
    then have "skip_rows cmp sk' (filter (\<lambda>r. cmp row r \<noteq> 0) rows)"
      using sk' rows(2) unfolding skip_rows_def m [symmetric] by (intro exI conjI) auto
    then show ?thesis using True sk'(1) by auto
  next
    case False
    then obtain fx where "jsw_serase cmp sk row = Some (0, sk\<lparr>sfix := fx\<rparr>)"
      using serase_absent [OF inv, of row] rows by auto
    moreover have "skip_rows cmp (sk\<lparr>sfix := fx\<rparr>) rows" by (rule skip_rows_cong [OF assms(1)]) auto
    moreover have "filter (\<lambda>r. cmp row r \<noteq> 0) rows = rows" using False by (simp add: filter_id_conv)
    ultimately show ?thesis using False by auto
  qed
qed

end

lemma reset_rows:
  assumes "skip_rows cmp sk rows" "0 \<notin> set rows"
  shows "walk_rows (jsw_sreset sk) = Some rows"
proof -
  obtain lv where "skip_inv cmp sk lv" "rows = map (srow sk) (lv 0)" using assms(1) by (rule skip_rowsE)
  then show ?thesis
    using walk_rows_chain [of "jsw_sreset sk" "lv 0"] levels_okD(5) [of sk lv 0] assms(2)
    by (auto simp: jsw_sreset_def skip_inv_def)
qed

lemma last_rows:
  assumes "skip_rows cmp sk rows"
  shows "\<exists>p. jsw_findlast sk = Some (p, sk\<lparr>curl := p\<rparr>) \<and> p \<noteq> 0 \<and> (rows \<noteq> [] \<longrightarrow> srow sk p = last rows)"
proof -
  obtain lv where lv: "skip_inv cmp sk lv" "rows = map (srow sk) (lv 0)" using assms(1) by (rule skip_rowsE)
  then have ok: "levels_ok sk lv" by (simp add: skip_inv_def)
  have "last (shead sk # lv 0) \<noteq> 0"
    using levels_okD(1) [OF ok] chain_not_null [OF levels_okD(5) [OF ok, of 0]] last_in_set [of "lv 0"]
    by (metis last.simps)
  then show ?thesis
    using last_levels_inv [OF ok, of "Suc (curh sk)" "shead sk"] lv(2) by (auto simp: jsw_findlast_def last_map)
qed

section \<open>Properties\<close>

text \<open>
  C29. Searching a skip list: \<^verbatim>\<open>jsw_sfind\<close> always returns, finds a node exactly when some row compares
  equal, and returns that node; \<^verbatim>\<open>jsw_sfind_equal_or_greater\<close> positions a traversal that yields the
  rows not below the given one, in order, all of them and no other; \<^verbatim>\<open>jsw_sreset\<close> positions it on all
  rows and \<^verbatim>\<open>jsw_findlast\<close> on the greatest.
\<close>

theorem skip_search_correct:
  assumes "row_comparator cmp" and "skip_rows cmp sk rows" and "0 \<notin> set rows"
  shows "(\<exists>p sk1. jsw_sfind cmp sk row = Some (p, sk1) \<and> skip_rows cmp sk1 rows
      \<and> (if \<exists>r\<in>set rows. cmp row r = 0 then p \<noteq> 0 \<and> srow sk1 p \<in> set rows \<and> cmp row (srow sk1 p) = 0 else p = 0))
    \<and> (\<exists>p sk2. jsw_sfind_equal_or_greater cmp sk row = Some (p, sk2) \<and> skip_rows cmp sk2 rows
      \<and> walk_rows sk2 = Some (filter (\<lambda>r. cmp row r \<le> 0) rows))
    \<and> walk_rows (jsw_sreset sk) = Some rows
    \<and> (\<exists>p. jsw_findlast sk = Some (p, sk\<lparr>curl := p\<rparr>) \<and> p \<noteq> 0 \<and> (rows \<noteq> [] \<longrightarrow> srow sk p = last rows))"
  using row_comparator.find_rows [OF assms(1, 2), of row] row_comparator.ge_rows [OF assms, of row]
    reset_rows [OF assms(2, 3)] last_rows [OF assms(2)] by blast

lemma sample_level: "rlevel 5 sample_levels = Some (1, sample_levels\<lparr>lbits := 0, lreset := 30\<rparr>)"
  by (simp add: rlevel_def rlevel_loop.simps draw_bits_def sample_levels_def Let_def drop_bit_Suc)

lemma sample_simps [simp]:
  "shead sample_list = 8" "maxh sample_list = 5" "slev sample_list = sample_levels"
  "snodes sample_list 16 = \<lparr>height = 0, links = (\<lambda>i. 0)\<rparr>"
  by (simp_all add: sample_list_def jsw_sinit_def)

lemma sample_rows: "skip_rows cmp sample_list []"
  unfolding sample_list_def by (rule skip_rows_cong [OF init_rows]) auto

lemma one_row_list: "\<exists>sk. skip_rows address_order sk [40]"
  using addresses.insert_rows [OF sample_rows, of 16 "\<lambda>i. 0" 1 "sample_levels\<lparr>lbits := 0, lreset := 30\<rparr>" 40]
  by (auto simp: sample_level)

lemma skip_search_correct_witness:
  "\<exists>sk p sk1. skip_rows address_order sk [40] \<and> jsw_sfind address_order sk 40 = Some (p, sk1) \<and> srow sk1 p = 40"
proof -
  obtain sk where sk: "skip_rows address_order sk [40]" using one_row_list by blast
  have "0 \<notin> set [40 :: nat]" by simp
  from skip_search_correct [OF addresses.row_comparator_axioms sk this, of 40] show ?thesis
    using sk by (auto simp: address_order_def)
qed

text \<open>
  C30. \<^verbatim>\<open>jsw_sinsert\<close> into a well formed skip list, whatever height the generator draws: a row that
  compares equal to one in the list is refused with 0 and changes nothing; any other row is inserted
  at its place in the order, with 1, and the result is a well formed skip list of one row more.
\<close>

theorem skip_insert_correct:
  assumes "row_comparator cmp" and "skip_rows cmp sk rows"
    and "a \<noteq> 0" and "a \<noteq> shead sk" and "snodes sk a = \<lparr>height = 0, links = l\<rparr>"
    and "rlevel (maxh sk) (slev sk) = Some (h, lev)" and "2 \<le> maxh sk"
  shows "\<exists>sk'. jsw_sinsert cmp a sk row = Some (if \<exists>r\<in>set rows. cmp row r = 0 then 0 else 1, sk')
    \<and> skip_rows cmp sk' (if \<exists>r\<in>set rows. cmp row r = 0 then rows
        else filter (\<lambda>r. cmp row r > 0) rows @ row # filter (\<lambda>r. cmp row r < 0) rows)"
  by (rule row_comparator.insert_rows [OF assms])

lemma skip_insert_correct_witness:
  "\<exists>sk. jsw_sinsert address_order 16 sample_list 40 = Some (1, sk) \<and> skip_rows address_order sk [40]"
  using skip_insert_correct [OF addresses.row_comparator_axioms sample_rows, of 16 "\<lambda>i. 0" 1
      "sample_levels\<lparr>lbits := 0, lreset := 30\<rparr>" 40]
  by (auto simp: sample_level)

text \<open>
  C31. \<^verbatim>\<open>jsw_serase\<close> on a well formed skip list: 1 and the row that compares equal is gone, or 0 when there
  is none; every other row stays, in order, and the result is well formed again, its height lowered
  over the levels that became empty.
\<close>

theorem skip_erase_correct:
  assumes "row_comparator cmp" and "skip_rows cmp sk rows"
  shows "\<exists>sk'. jsw_serase cmp sk row = Some (if \<exists>r\<in>set rows. cmp row r = 0 then 1 else 0, sk')
    \<and> skip_rows cmp sk' (filter (\<lambda>r. cmp row r \<noteq> 0) rows)"
  by (rule row_comparator.erase_rows [OF assms])

lemma skip_erase_correct_witness:
  "\<exists>sk sk'. skip_rows address_order sk [40] \<and> jsw_serase address_order sk 40 = Some (1, sk')
    \<and> skip_rows address_order sk' []"
proof -
  obtain sk where sk: "skip_rows address_order sk [40]" using one_row_list by blast
  from skip_erase_correct [OF addresses.row_comparator_axioms sk, of 40] show ?thesis
    using sk by (auto simp: address_order_def)
qed

lemma delete_visits_all:
  assumes "skip_inv cmp sk lv"
  shows "jsw_sdelete_skiplist sk = Some (lv 0 @ [shead sk]) \<and> distinct (lv 0 @ [shead sk])"
  using assms delete_nodes_chain [OF levels_okD(5) [of sk lv 0]] levels_okD(2, 4) [of sk lv]
  by (auto simp: jsw_sdelete_skiplist_def skip_inv_def)

end
