(* ===== verification/SharedMem.thy ===== *)
theory SharedMem
  imports Prelude
begin

text \<open>
  \<^verbatim>\<open>ctables/shared/shared.c\<close>, the part that lets one master write a table in shared memory while
  reader processes traverse it without locks: the cycle counter, the reader slots, and the queue of
  blocks that were unlinked and wait until no reader can still see them.  A cycle is a \<^verbatim>\<open>cell_t\<close>, a
  64 bit word; ages are computed in an \<^verbatim>\<open>int\<close>, so they are truncated to 32 bits here as well.
  \<^verbatim>\<open>kill (pid, 0)\<close> is the parameter \<open>alive\<close>; the allocator of boost is outside of the sources, so the
  blocks handed back to it are an output of the operations.
\<close>

section \<open>State\<close>

type_synonym cell_t = "64 word"

definition MAX_SHMEM_READERS :: nat where "MAX_SHMEM_READERS = 1024"
definition TWILIGHT_ZONE :: cell_t where "TWILIGHT_ZONE = 64"
definition LAZY_GC :: int where "LAZY_GC = 1000"
definition LOST_HORIZON :: cell_t where "LOST_HORIZON = 0"

record garbage_t =
  gcycle :: cell_t
  memory :: addr

record reader_t =
  pid :: cell_t
  rcycle :: cell_t

text \<open>The header of the mapped file (the fields that other processes see), and the master's own fields.\<close>

record mapheader_t =
  cycle :: cell_t
  readers :: "reader_t list"

record master_t =
  garbage :: "garbage_t list"
  horizon :: cell_t
  garbage_strike :: int

text \<open>The value of an \<^verbatim>\<open>int\<close> that a \<^verbatim>\<open>cell_t\<close> is assigned to.\<close>

definition cell_to_int :: "cell_t \<Rightarrow> int" where
  "cell_to_int w = sint (ucast w :: 32 word)"

section \<open>Operations of the master\<close>

text \<open>The two fields of the map that concern cycles and readers, and the master's, in \<^verbatim>\<open>shminitmap\<close>.\<close>

definition shminit_readers :: mapheader_t where
  "shminit_readers = \<lparr>cycle = LOST_HORIZON, readers = replicate MAX_SHMEM_READERS \<lparr>pid = 0, rcycle = 0\<rparr>\<rparr>"

definition shminit_master :: "int \<Rightarrow> master_t" where
  "shminit_master strike = \<lparr>garbage = [], horizon = LOST_HORIZON, garbage_strike = strike\<rparr>"

definition shmfree_raw :: "mapheader_t \<Rightarrow> master_t \<Rightarrow> addr \<Rightarrow> master_t" where
  "shmfree_raw mp shm m = shm\<lparr>garbage := garbage shm @ [\<lparr>gcycle = cycle mp, memory = m\<rparr>]\<rparr>"

text \<open>\<^verbatim>\<open>write_lock\<close>: the counter skips the value that means ``no cycle''.\<close>

function next_cycle :: "cell_t \<Rightarrow> cell_t" where
  "next_cycle c = (if c + 1 = LOST_HORIZON then next_cycle (c + 1) else c + 1)"
  by pat_completeness auto
termination
  by (relation "measure (\<lambda>c. if c + 1 = LOST_HORIZON then 1 else 0)") (auto simp: LOST_HORIZON_def)

declare next_cycle.simps [simp del]

definition write_lock :: "mapheader_t \<Rightarrow> int \<times> mapheader_t" where
  "write_lock mp = (let mp1 = mp\<lparr>cycle := next_cycle (cycle mp)\<rparr> in (cell_to_int (cycle mp1), mp1))"

text \<open>The loop of \<^verbatim>\<open>oldest_reader_cycle\<close>; slots of dead processes are cleared on the way.\<close>

fun oldest_scan :: "(cell_t \<Rightarrow> bool) \<Rightarrow> cell_t \<Rightarrow> reader_t list \<Rightarrow> cell_t \<Rightarrow> int \<Rightarrow> reader_t list \<times> cell_t" where
  "oldest_scan alive map_cycle [] new_cycle oldest_age = ([], new_cycle)"
| "oldest_scan alive map_cycle (r # rs) new_cycle oldest_age =
     (if pid r = 0
      then apfst ((#) r) (oldest_scan alive map_cycle rs new_cycle oldest_age)
      else if \<not> alive (pid r)
      then apfst ((#) (r\<lparr>pid := 0, rcycle := LOST_HORIZON\<rparr>)) (oldest_scan alive map_cycle rs new_cycle oldest_age)
      else if rcycle r = LOST_HORIZON
      then apfst ((#) r) (oldest_scan alive map_cycle rs new_cycle oldest_age)
      else let age = cell_to_int (map_cycle - rcycle r)
           in if new_cycle = LOST_HORIZON \<or> age \<ge> oldest_age
              then apfst ((#) r) (oldest_scan alive map_cycle rs (rcycle r) age)
              else apfst ((#) r) (oldest_scan alive map_cycle rs new_cycle oldest_age))"

definition oldest_reader_cycle :: "(cell_t \<Rightarrow> bool) \<Rightarrow> mapheader_t \<Rightarrow> mapheader_t \<times> cell_t" where
  "oldest_reader_cycle alive mp =
     (let (rs, c) = oldest_scan alive (cycle mp) (readers mp) LOST_HORIZON 0 in (mp\<lparr>readers := rs\<rparr>, c))"

text \<open>\<^verbatim>\<open>garbage_collect\<close>: the loop, and the blocks it gave back to the allocator, in order.\<close>

fun collect_loop :: "cell_t \<Rightarrow> garbage_t list \<Rightarrow> garbage_t list \<times> addr list" where
  "collect_loop h [] = ([], [])"
| "collect_loop h (g # gs) =
     (let delta = cell_to_int (h - gcycle g)
      in if h = LOST_HORIZON \<or> gcycle g = LOST_HORIZON \<or> delta > 0
         then apsnd ((#) (memory g)) (collect_loop h gs)
         else (g # gs, []))"

definition collect_horizon :: "cell_t \<Rightarrow> cell_t" where
  "collect_horizon h =
     (if h \<noteq> LOST_HORIZON
      then let h1 = h - TWILIGHT_ZONE in if h1 = LOST_HORIZON then h1 - 1 else h1
      else h)"

definition garbage_collect :: "master_t \<Rightarrow> master_t \<times> addr list" where
  "garbage_collect shm =
     (let (gs, freed) = collect_loop (collect_horizon (horizon shm)) (garbage shm) in (shm\<lparr>garbage := gs\<rparr>, freed))"

definition write_unlock :: "(cell_t \<Rightarrow> bool) \<Rightarrow> mapheader_t \<Rightarrow> master_t \<Rightarrow> mapheader_t \<times> master_t \<times> addr list" where
  "write_unlock alive mp shm =
     (let strike = garbage_strike shm + 1
      in if strike < LAZY_GC then (mp, shm\<lparr>garbage_strike := strike\<rparr>, [])
         else let shm1 = shm\<lparr>garbage_strike := 0\<rparr>;
                  (mp1, oldest) = oldest_reader_cycle alive mp;
                  new_horizon = (if oldest = LOST_HORIZON then cycle mp1 else oldest);
                  age = cell_to_int (new_horizon - horizon shm1)
              in if age > sint (ucast TWILIGHT_ZONE :: 32 word)
                 then let (shm2, freed) = garbage_collect (shm1\<lparr>horizon := new_horizon\<rparr>) in (mp1, shm2, freed)
                 else (mp1, shm1, []))"

section \<open>Reader slots\<close>

text \<open>Slots are named by their index; \<^verbatim>\<open>NULL\<close> is \<open>None\<close>.  The process id is an \<^verbatim>\<open>int\<close> converted to \<^verbatim>\<open>cell_t\<close>.\<close>

fun pid2slot :: "reader_t list \<Rightarrow> cell_t \<Rightarrow> nat option" where
  "pid2slot [] p = None"
| "pid2slot (r # rs) p = (if pid r = p then Some 0 else map_option Suc (pid2slot rs p))"

definition pid2reader :: "mapheader_t \<Rightarrow> int \<Rightarrow> nat option" where
  "pid2reader mp p = pid2slot (readers mp) (word_of_int p)"

definition shmattachpid :: "mapheader_t \<Rightarrow> int \<Rightarrow> int \<times> mapheader_t" where
  "shmattachpid mp p =
     (if p = 0 then (0, mp)
      else if pid2reader mp p \<noteq> None then (1, mp)
      else case pid2slot (readers mp) 0 of
             Some i \<Rightarrow> (1, mp\<lparr>readers := (readers mp)[i := \<lparr>pid = word_of_int p, rcycle = LOST_HORIZON\<rparr>]\<rparr>)
           | None \<Rightarrow> (0, mp))"

text \<open>
  \<^verbatim>\<open>read_lock\<close> and \<^verbatim>\<open>read_unlock\<close> of the process \<open>p\<close>, whose \<^verbatim>\<open>self\<close> field is a parameter; \<^verbatim>\<open>read_lock\<close>
  returns the new \<^verbatim>\<open>self\<close>.
\<close>

definition read_lock :: "int \<Rightarrow> nat option \<Rightarrow> mapheader_t \<Rightarrow> cell_t \<times> nat option \<times> mapheader_t" where
  "read_lock p self mp =
     (let self1 = (if self = None then pid2reader mp p else self)
      in case self1 of
           None \<Rightarrow> (LOST_HORIZON, None, mp)
         | Some i \<Rightarrow> (cycle mp, Some i, mp\<lparr>readers := (readers mp)[i := (readers mp ! i)\<lparr>rcycle := cycle mp\<rparr>]\<rparr>))"

definition read_unlock :: "nat option \<Rightarrow> mapheader_t \<Rightarrow> mapheader_t" where
  "read_unlock self mp =
     (case self of
        None \<Rightarrow> mp
      | Some i \<Rightarrow> mp\<lparr>readers := (readers mp)[i := (readers mp ! i)\<lparr>rcycle := LOST_HORIZON\<rparr>]\<rparr>)"

section \<open>Ages\<close>

text \<open>How many write cycles ago, the counter being at \<open>c\<close>; comparisons are exact within a window of \<open>2\<^sup>3\<^sup>0\<close> cycles.\<close>

definition age_of :: "cell_t \<Rightarrow> cell_t \<Rightarrow> nat" where
  "age_of c x = unat (c - x)"

definition WINDOW :: nat where "WINDOW = 2 ^ 30"

lemma cell_to_int_of_int:
  assumes "- (2 ^ 31) \<le> k" "k < 2 ^ 31"
  shows "cell_to_int (word_of_int k) = k"
proof -
  have "cell_to_int (word_of_int k) = sint (word_of_int k :: 32 word)"
    unfolding cell_to_int_def by (rule arg_cong [where f = sint], transfer) (simp add: take_bit_take_bit)
  also have "\<dots> = signed_take_bit 31 k" by (simp add: sint_sbintrunc')
  also have "\<dots> = k" using assms by (simp add: signed_take_bit_int_eq_self_iff)
  finally show ?thesis .
qed

lemma cell_diff:
  "y - x = word_of_int (int (age_of c x) - int (age_of c y))"
  unfolding age_of_def by (simp add: word_of_int_minus)

lemma cell_to_int_diff:
  assumes "age_of c x < 2 ^ 31" "age_of c y < 2 ^ 31"
  shows "cell_to_int (y - x) = int (age_of c x) - int (age_of c y)"
  unfolding cell_diff [of y x c] by (rule cell_to_int_of_int) (use assms in auto)

lemma age_of_self [simp]: "age_of c c = 0"
  by (simp add: age_of_def)

lemma consts_simps [simp]:
  "LOST_HORIZON = 0" "TWILIGHT_ZONE = 64" "LAZY_GC = 1000" "sint (ucast (64 :: 64 word) :: 32 word) = 64"
  by (simp_all add: LOST_HORIZON_def TWILIGHT_ZONE_def LAZY_GC_def)

lemma next_cycle_cases:
  "next_cycle c \<noteq> 0 \<and> (next_cycle c = c + 1 \<or> next_cycle c = c + 2)"
proof (cases "c + 1 = 0")
  case True
  then have "c = - 1" by (simp add: add_eq_0_iff2)
  then show ?thesis by (simp add: next_cycle.simps [of "- 1"] next_cycle.simps [of 0])
next
  case False
  then show ?thesis by (simp add: next_cycle.simps [of c])
qed

text \<open>A step of the counter ages everything alike.\<close>

lemma age_step:
  obtains d where "1 \<le> d" "d \<le> 2" "\<And>x. age_of c x < WINDOW \<Longrightarrow> age_of (next_cycle c) x = age_of c x + d"
proof -
  have "\<exists>d. (d = 1 \<or> d = 2) \<and> next_cycle c = c + word_of_nat d"
    using next_cycle_cases [of c] by (metis of_nat_1 of_nat_numeral)
  then obtain d where d: "d = 1 \<or> d = 2" "next_cycle c = c + word_of_nat d" by blast
  have "age_of (next_cycle c) x = age_of c x + d" if "age_of c x < WINDOW" for x
  proof -
    have u: "unat (word_of_nat d :: cell_t) = d" using d(1) by auto
    have "next_cycle c - x = (c - x) + word_of_nat d" using d(2) by simp
    moreover have "unat ((c - x) + word_of_nat d) = unat (c - x) + unat (word_of_nat d :: cell_t)"
      using that d(1) by (intro unat_add_lem [THEN iffD1]) (auto simp: age_of_def WINDOW_def u)
    ultimately show ?thesis unfolding age_of_def u by (simp only:)
  qed
  moreover have "1 \<le> d" "d \<le> 2" using d(1) by auto
  ultimately show ?thesis using that by blast
qed

definition active :: "reader_t \<Rightarrow> bool" where
  "active r \<longleftrightarrow> pid r \<noteq> 0 \<and> rcycle r \<noteq> LOST_HORIZON"

definition clear_dead :: "(cell_t \<Rightarrow> bool) \<Rightarrow> reader_t \<Rightarrow> reader_t" where
  "clear_dead alive r = (if pid r \<noteq> 0 \<and> \<not> alive (pid r) then r\<lparr>pid := 0, rcycle := LOST_HORIZON\<rparr> else r)"

lemma active_clear [simp]: "active (clear_dead alive r) \<longleftrightarrow> active r \<and> alive (pid r)"
  by (auto simp: active_def clear_dead_def)

lemma oldest_scan_readers: "fst (oldest_scan alive c rs nc oa) = map (clear_dead alive) rs"
  by (induction alive c rs nc oa rule: oldest_scan.induct) (auto simp: clear_dead_def Let_def)

lemma oldest_scan_oldest:
  assumes "\<forall>r\<in>set rs. active r \<longrightarrow> age_of c (rcycle r) < WINDOW" "nc \<noteq> 0 \<Longrightarrow> oa = int (age_of c nc)"
  shows "(nc \<noteq> 0 \<longrightarrow> snd (oldest_scan alive c rs nc oa) \<noteq> 0 \<and> age_of c nc \<le> age_of c (snd (oldest_scan alive c rs nc oa)))
    \<and> (\<forall>r\<in>set rs. active r \<and> alive (pid r) \<longrightarrow> snd (oldest_scan alive c rs nc oa) \<noteq> 0
          \<and> age_of c (rcycle r) \<le> age_of c (snd (oldest_scan alive c rs nc oa)))
    \<and> (snd (oldest_scan alive c rs nc oa) = nc
        \<or> (\<exists>r\<in>set rs. active r \<and> alive (pid r) \<and> rcycle r = snd (oldest_scan alive c rs nc oa)))"
  using assms
proof (induction rs arbitrary: nc oa)
  case (Cons r rs)
  show ?case
  proof (cases "active r \<and> alive (pid r)")
    case False
    then have "snd (oldest_scan alive c (r # rs) nc oa) = snd (oldest_scan alive c rs nc oa)"
      by (auto simp: active_def)
    then show ?thesis using Cons.IH [of nc oa] Cons.prems False by auto
  next
    case True
    then have r: "pid r \<noteq> 0" "alive (pid r)" "rcycle r \<noteq> 0" by (auto simp: active_def)
    have age: "cell_to_int (c - rcycle r) = int (age_of c (rcycle r))"
      using cell_to_int_diff [of c "rcycle r" c] Cons.prems(1) True by (simp add: WINDOW_def)
    show ?thesis
    proof (cases "nc = 0 \<or> oa \<le> int (age_of c (rcycle r))")
      case T: True
      then have "snd (oldest_scan alive c (r # rs) nc oa) = snd (oldest_scan alive c rs (rcycle r) (int (age_of c (rcycle r))))"
        using r by (simp add: age)
      then show ?thesis
        using Cons.IH [of "rcycle r" "int (age_of c (rcycle r))"] Cons.prems True r(3) T by auto
    next
      case F: False
      then have "snd (oldest_scan alive c (r # rs) nc oa) = snd (oldest_scan alive c rs nc oa)"
        using r by (simp add: age)
      then show ?thesis using Cons.IH [of nc oa] Cons.prems F by auto
    qed
  qed
qed simp

lemma collect_loop_split:
  assumes "collect_loop h gs = (rest, freed)"
  shows "\<exists>xs. gs = xs @ rest \<and> freed = map memory xs
    \<and> (\<forall>g\<in>set xs. h = 0 \<or> gcycle g = 0 \<or> cell_to_int (h - gcycle g) > 0)
    \<and> (rest \<noteq> [] \<longrightarrow> h \<noteq> 0 \<and> gcycle (hd rest) \<noteq> 0 \<and> cell_to_int (h - gcycle (hd rest)) \<le> 0)"
  using assms
proof (induction h gs arbitrary: rest freed rule: collect_loop.induct)
  case (2 h g gs)
  show ?case
  proof (cases "h = 0 \<or> gcycle g = 0 \<or> cell_to_int (h - gcycle g) > 0")
    case True
    obtain freed' where f: "collect_loop h gs = (rest, freed')" "freed = memory g # freed'"
      using 2(2) True by (auto simp: Let_def apsnd_def map_prod_def split: prod.splits)
    from 2(1) [OF refl _ f(1)] True obtain xs where
      "gs = xs @ rest" "freed' = map memory xs" "\<forall>g\<in>set xs. h = 0 \<or> gcycle g = 0 \<or> cell_to_int (h - gcycle g) > 0"
      "rest \<noteq> [] \<longrightarrow> h \<noteq> 0 \<and> gcycle (hd rest) \<noteq> 0 \<and> cell_to_int (h - gcycle (hd rest)) \<le> 0" by auto
    then show ?thesis using True f(2) by (intro exI [of _ "g # xs"]) auto
  next
    case False
    then show ?thesis using 2(2) by (auto simp: Let_def)
  qed
qed simp

lemma collect_horizon_age:
  assumes "h \<noteq> 0" "age_of c h < WINDOW"
  shows "collect_horizon h \<noteq> 0 \<and> age_of c h + 64 \<le> age_of c (collect_horizon h) \<and> age_of c (collect_horizon h) \<le> age_of c h + 65"
proof -
  have *: "unat ((c - h) + word_of_nat d) = age_of c h + d" if "d \<le> 65" for d
  proof -
    have u: "unat (word_of_nat d :: cell_t) = d" using that by (simp add: unat_of_nat)
    have "unat ((c - h) + word_of_nat d) = unat (c - h) + unat (word_of_nat d :: cell_t)"
      using assms(2) that by (intro unat_add_lem [THEN iffD1]) (auto simp: age_of_def WINDOW_def u)
    then show ?thesis by (simp add: age_of_def u)
  qed
  have "age_of c (h - 64) = age_of c h + 64" "age_of c (h - 64 - 1) = age_of c h + 65"
    using * [of 64] * [of 65] by (simp_all add: age_of_def algebra_simps)
  then show ?thesis using assms(1) by (auto simp: collect_horizon_def Let_def)
qed

text \<open>What one collection takes out: a prefix of the queue, entries that are more than 64 cycles older than the horizon.\<close>

lemma collect_spec:
  assumes "garbage_collect shm = (shm', freed)" "horizon shm \<noteq> 0" "age_of c (horizon shm) < WINDOW"
    and "\<forall>g\<in>set (garbage shm). age_of c (gcycle g) < WINDOW"
  shows "\<exists>xs. garbage shm = xs @ garbage shm' \<and> freed = map memory xs
    \<and> (\<forall>g\<in>set xs. gcycle g = 0 \<or> age_of c (horizon shm) + 64 < age_of c (gcycle g))
    \<and> (garbage shm' \<noteq> [] \<longrightarrow> age_of c (gcycle (hd (garbage shm'))) \<le> age_of c (horizon shm) + 65)"
proof -
  let ?h = "collect_horizon (horizon shm)"
  note H = collect_horizon_age [OF assms(2, 3)]
  obtain rest where r: "collect_loop ?h (garbage shm) = (rest, freed)" "shm' = shm\<lparr>garbage := rest\<rparr>"
    using assms(1) by (auto simp: garbage_collect_def split: prod.splits)
  from collect_loop_split [OF r(1)] H obtain xs where
    xs: "garbage shm = xs @ rest" "freed = map memory xs"
      "\<forall>g\<in>set xs. gcycle g = 0 \<or> cell_to_int (?h - gcycle g) > 0"
      "rest \<noteq> [] \<longrightarrow> cell_to_int (?h - gcycle (hd rest)) \<le> 0" by blast
  have d: "cell_to_int (?h - gcycle g) = int (age_of c (gcycle g)) - int (age_of c ?h)" if "g \<in> set (garbage shm)" for g
    using assms(3, 4) that H by (intro cell_to_int_diff) (auto simp: WINDOW_def)
  have "\<forall>g\<in>set xs. gcycle g = 0 \<or> age_of c (horizon shm) + 64 < age_of c (gcycle g)"
    using xs(1, 3) d H by fastforce
  moreover have "rest \<noteq> [] \<longrightarrow> age_of c (gcycle (hd rest)) \<le> age_of c (horizon shm) + 65"
    using xs(1, 4) d [of "hd rest"] H by (cases rest) auto
  ultimately show ?thesis using xs(1, 2) r(2) by auto
qed

section \<open>Readers and the master together\<close>

text \<open>
  \<open>loaded i\<close> is the cycle that the reader of slot \<open>i\<close> has read in \<^verbatim>\<open>read_lock\<close> and not stored yet, so
  the master may run between the two halves of the assignment \<^verbatim>\<open>self->cycle = map->cycle\<close>.  \<open>hold i\<close> is
  a ghost: the blocks that were unlinked since that reader locked, which it may still be looking at.
\<close>

record gc_sys =
  hdr :: mapheader_t
  mst :: master_t
  loaded :: "nat \<Rightarrow> cell_t option"
  hold :: "nat \<Rightarrow> garbage_t set"

text \<open>All recorded cycles are within the window.\<close>

definition in_window :: "gc_sys \<Rightarrow> bool" where
  "in_window s \<longleftrightarrow>
     (\<forall>r\<in>set (readers (hdr s)). active r \<longrightarrow> age_of (cycle (hdr s)) (rcycle r) < WINDOW)
     \<and> (\<forall>g\<in>set (garbage (mst s)). age_of (cycle (hdr s)) (gcycle g) < WINDOW)
     \<and> (\<forall>i x. loaded s i = Some x \<longrightarrow> age_of (cycle (hdr s)) x < WINDOW)
     \<and> age_of (cycle (hdr s)) (horizon (mst s)) < WINDOW"

inductive gc_step :: "gc_sys \<Rightarrow> gc_sys \<Rightarrow> bool" where
  write_begin: "t = s\<lparr>hdr := snd (write_lock (hdr s))\<rparr> \<Longrightarrow> in_window t \<Longrightarrow> gc_step s t"
| free: "gc_step s (s\<lparr>mst := shmfree_raw (hdr s) (mst s) m,
     hold := (\<lambda>i. insert \<lparr>gcycle = cycle (hdr s), memory = m\<rparr> (hold s i))\<rparr>)"
| write_end: "write_unlock alive (hdr s) (mst s) = (h', m', freed) \<Longrightarrow> gc_step s (s\<lparr>hdr := h', mst := m'\<rparr>)"
| attach: "gc_step s (s\<lparr>hdr := snd (shmattachpid (hdr s) p)\<rparr>)"
| read_load: "i < length (readers (hdr s)) \<Longrightarrow> gc_step s (s\<lparr>loaded := (loaded s)(i := Some (cycle (hdr s)))\<rparr>)"
| read_store: "i < length (readers (hdr s)) \<Longrightarrow> loaded s i = Some x \<Longrightarrow>
     gc_step s (s\<lparr>hdr := (hdr s)\<lparr>readers := (readers (hdr s))[i := (readers (hdr s) ! i)\<lparr>rcycle := x\<rparr>]\<rparr>,
       loaded := (loaded s)(i := None), hold := (hold s)(i := {})\<rparr>)"
| read_end: "gc_step s (s\<lparr>hdr := read_unlock (Some i) (hdr s), hold := (hold s)(i := {})\<rparr>)"

inductive_cases gc_stepE: "gc_step s t"

definition gc_init :: gc_sys where
  "gc_init = \<lparr>hdr = shminit_readers, mst = shminit_master 0, loaded = (\<lambda>i. None), hold = (\<lambda>i. {})\<rparr>"

inductive gc_reachable :: "gc_sys \<Rightarrow> bool" where
  gc_start: "gc_reachable gc_init"
| gc_next: "gc_reachable s \<Longrightarrow> gc_step s t \<Longrightarrow> gc_reachable t"

text \<open>The two halves of \<^verbatim>\<open>read_lock\<close>, run without interruption, are \<^verbatim>\<open>read_lock\<close>.\<close>

lemma read_lock_halves:
  assumes "i < length (readers (hdr s))"
  shows "\<exists>t u. gc_step s t \<and> gc_step t u \<and> read_lock p (Some i) (hdr s) = (cycle (hdr s), Some i, hdr u)"
proof -
  let ?t = "s\<lparr>loaded := (loaded s)(i := Some (cycle (hdr s)))\<rparr>"
  have "gc_step s ?t" using assms by (rule read_load)
  moreover have "gc_step ?t (?t\<lparr>hdr := (hdr ?t)\<lparr>readers := (readers (hdr ?t))[i := (readers (hdr ?t) ! i)\<lparr>rcycle := cycle (hdr s)\<rparr>]\<rparr>,
       loaded := (loaded ?t)(i := None), hold := (hold ?t)(i := {})\<rparr>)"
    using assms by (intro read_store) auto
  ultimately show ?thesis by (intro exI conjI) (assumption+, simp add: read_lock_def)
qed

definition gc_inv :: "gc_sys \<Rightarrow> bool" where
  "gc_inv s \<longleftrightarrow> in_window s
     \<and> (\<forall>i<length (readers (hdr s)). active (readers (hdr s) ! i) \<longrightarrow> hold s i \<subseteq> set (garbage (mst s))
          \<and> (\<forall>g\<in>hold s i. gcycle g \<noteq> 0 \<and> age_of (cycle (hdr s)) (gcycle g) \<le> age_of (cycle (hdr s)) (rcycle (readers (hdr s) ! i))))
     \<and> (cycle (hdr s) = 0 \<longrightarrow> horizon (mst s) = 0 \<and> (\<forall>r\<in>set (readers (hdr s)). \<not> active r) \<and> (\<forall>i x. loaded s i = Some x \<longrightarrow> x = 0))
     \<and> sorted_wrt (\<lambda>g h. age_of (cycle (hdr s)) (gcycle g) \<ge> age_of (cycle (hdr s)) (gcycle h)) (garbage (mst s))"

lemma gc_invD:
  assumes "gc_inv s"
  shows "in_window s"
    and "i < length (readers (hdr s)) \<Longrightarrow> active (readers (hdr s) ! i) \<Longrightarrow> hold s i \<subseteq> set (garbage (mst s))"
    and "i < length (readers (hdr s)) \<Longrightarrow> active (readers (hdr s) ! i) \<Longrightarrow> g \<in> hold s i \<Longrightarrow>
      gcycle g \<noteq> 0 \<and> age_of (cycle (hdr s)) (gcycle g) \<le> age_of (cycle (hdr s)) (rcycle (readers (hdr s) ! i))"
    and "cycle (hdr s) = 0 \<Longrightarrow> horizon (mst s) = 0"
    and "cycle (hdr s) = 0 \<Longrightarrow> r \<in> set (readers (hdr s)) \<Longrightarrow> \<not> active r"
    and "cycle (hdr s) = 0 \<Longrightarrow> loaded s i = Some x \<Longrightarrow> x = 0"
    and "sorted_wrt (\<lambda>g h. age_of (cycle (hdr s)) (gcycle g) \<ge> age_of (cycle (hdr s)) (gcycle h)) (garbage (mst s))"
  using assms unfolding gc_inv_def by blast+

lemma gc_invI:
  assumes "in_window s"
    and "\<And>i. i < length (readers (hdr s)) \<Longrightarrow> active (readers (hdr s) ! i) \<Longrightarrow> hold s i \<subseteq> set (garbage (mst s))"
    and "\<And>i g. i < length (readers (hdr s)) \<Longrightarrow> active (readers (hdr s) ! i) \<Longrightarrow> g \<in> hold s i \<Longrightarrow>
      gcycle g \<noteq> 0 \<and> age_of (cycle (hdr s)) (gcycle g) \<le> age_of (cycle (hdr s)) (rcycle (readers (hdr s) ! i))"
    and "cycle (hdr s) = 0 \<Longrightarrow> horizon (mst s) = 0"
    and "\<And>r. cycle (hdr s) = 0 \<Longrightarrow> r \<in> set (readers (hdr s)) \<Longrightarrow> \<not> active r"
    and "\<And>i x. cycle (hdr s) = 0 \<Longrightarrow> loaded s i = Some x \<Longrightarrow> x = 0"
    and "sorted_wrt (\<lambda>g h. age_of (cycle (hdr s)) (gcycle g) \<ge> age_of (cycle (hdr s)) (gcycle h)) (garbage (mst s))"
  shows "gc_inv s"
  using assms unfolding gc_inv_def by simp

lemma in_windowD:
  assumes "in_window s"
  shows "r \<in> set (readers (hdr s)) \<Longrightarrow> active r \<Longrightarrow> age_of (cycle (hdr s)) (rcycle r) < WINDOW"
    and "g \<in> set (garbage (mst s)) \<Longrightarrow> age_of (cycle (hdr s)) (gcycle g) < WINDOW"
    and "loaded s i = Some x \<Longrightarrow> age_of (cycle (hdr s)) x < WINDOW"
    and "age_of (cycle (hdr s)) (horizon (mst s)) < WINDOW"
  using assms unfolding in_window_def by blast+

lemma inv_write_begin:
  assumes inv: "gc_inv s" and w: "in_window (s\<lparr>hdr := snd (write_lock (hdr s))\<rparr>)"
  shows "gc_inv (s\<lparr>hdr := snd (write_lock (hdr s))\<rparr>)"
proof -
  let ?c = "cycle (hdr s)"
  note W = in_windowD [OF gc_invD(1) [OF inv]]
  obtain d where d: "\<And>x. age_of ?c x < WINDOW \<Longrightarrow> age_of (next_cycle ?c) x = age_of ?c x + d"
    using age_step [of ?c] by metis
  have "age_of (next_cycle ?c) (gcycle g) \<le> age_of (next_cycle ?c) (rcycle (readers (hdr s) ! i))"
    if i: "i < length (readers (hdr s))" "active (readers (hdr s) ! i)" "g \<in> hold s i" for i g
  proof -
    have "g \<in> set (garbage (mst s))" using gc_invD(2) [OF inv i(1, 2)] i(3) by blast
    then show ?thesis using d W(1, 2) i gc_invD(3) [OF inv i] by (metis nth_mem add_le_mono1)
  qed
  moreover have "sorted_wrt (\<lambda>g h. age_of (next_cycle ?c) (gcycle g) \<ge> age_of (next_cycle ?c) (gcycle h)) (garbage (mst s))"
    by (rule sorted_wrt_mono_rel [OF _ gc_invD(7) [OF inv]]) (use d W(2) in simp)
  ultimately show ?thesis
    using w gc_invD(2, 3) [OF inv] next_cycle_cases [of ?c]
    unfolding gc_inv_def by (simp add: write_lock_def Let_def)
qed

lemma inv_free:
  assumes inv: "gc_inv s"
  shows "gc_inv (s\<lparr>mst := shmfree_raw (hdr s) (mst s) m, hold := (\<lambda>i. insert \<lparr>gcycle = cycle (hdr s), memory = m\<rparr> (hold s i))\<rparr>)"
    (is "gc_inv ?t")
proof (rule gc_invI)
  show "in_window ?t" using gc_invD(1) [OF inv] by (auto simp: in_window_def shmfree_raw_def WINDOW_def)
next
  fix i assume i: "i < length (readers (hdr ?t))" "active (readers (hdr ?t) ! i)"
  then show "hold ?t i \<subseteq> set (garbage (mst ?t))" using gc_invD(2) [OF inv, of i] by (auto simp: shmfree_raw_def)
  have "cycle (hdr s) \<noteq> 0" using gc_invD(5) [OF inv _ nth_mem] i by auto
  then show "g \<in> hold ?t i \<Longrightarrow> gcycle g \<noteq> 0
      \<and> age_of (cycle (hdr ?t)) (gcycle g) \<le> age_of (cycle (hdr ?t)) (rcycle (readers (hdr ?t) ! i))" for g
    using gc_invD(3) [OF inv, of i g] i by auto
qed (use gc_invD(4-7) [OF inv] in \<open>auto simp: shmfree_raw_def sorted_wrt_append\<close>)

text \<open>A change of one slot, of which the ghost is empty or which is not active, and of the other master fields.\<close>

lemma inv_slot:
  assumes inv: "gc_inv s" and t: "mst t = mst s" "cycle (hdr t) = cycle (hdr s)"
      "readers (hdr t) = (readers (hdr s))[i := r]" "\<forall>j. j \<noteq> i \<longrightarrow> hold t j = hold s j"
    and act: "active r \<Longrightarrow> hold t i = {} \<and> age_of (cycle (hdr s)) (rcycle r) < WINDOW \<and> cycle (hdr s) \<noteq> 0"
    and ld: "\<And>j x. loaded t j = Some x \<Longrightarrow> loaded s j = Some x"
  shows "gc_inv t"
proof -
  have sub: "r' \<in> set (readers (hdr t)) \<Longrightarrow> r' = r \<or> r' \<in> set (readers (hdr s))" for r'
    unfolding t using set_update_subset_insert by fast
  show ?thesis
  proof (rule gc_invI)
    show "in_window t"
      unfolding in_window_def t(1, 2)
      using in_windowD [OF gc_invD(1) [OF inv]] by (intro conjI ballI allI impI) (auto dest!: sub ld simp: act)
    fix j assume j: "j < length (readers (hdr t))" "active (readers (hdr t) ! j)"
    have *: "hold t j = {} \<or> j < length (readers (hdr s)) \<and> readers (hdr t) ! j = readers (hdr s) ! j \<and> hold t j = hold s j"
      using j act t(3, 4) by (cases "j = i") auto
    then show "hold t j \<subseteq> set (garbage (mst t))" using gc_invD(2) [OF inv, of j] j(2) t(1) by auto
    show "gcycle g \<noteq> 0 \<and> age_of (cycle (hdr t)) (gcycle g) \<le> age_of (cycle (hdr t)) (rcycle (readers (hdr t) ! j))"
      if "g \<in> hold t j" for g
      using gc_invD(3) [OF inv, of j g] * that j(2) t(2) by auto
  next
    show "\<not> active r'" if "cycle (hdr t) = 0" "r' \<in> set (readers (hdr t))" for r'
      using sub [OF that(2)] gc_invD(5) [OF inv] act that(1) t(2) by auto
    show "x = 0" if "cycle (hdr t) = 0" "loaded t j = Some x" for j x
      using gc_invD(6) [OF inv _ ld] that t(2) by auto
  qed (use gc_invD(4, 7) [OF inv] t in auto)
qed

text \<open>\<^verbatim>\<open>write_unlock\<close>: which of its outcomes, and what they do to the queue and the slots.\<close>

lemma write_unlock_cases:
  assumes inv: "gc_inv s" and u: "write_unlock alive (hdr s) (mst s) = (h', m', freed)"
  shows "\<exists>xs. garbage (mst s) = xs @ garbage m' \<and> freed = map memory xs \<and> cycle h' = cycle (hdr s)
    \<and> (readers h' = readers (hdr s) \<and> xs = [] \<or> readers h' = map (clear_dead alive) (readers (hdr s)))
    \<and> age_of (cycle (hdr s)) (horizon m') < WINDOW \<and> (cycle (hdr s) = 0 \<longrightarrow> horizon m' = 0)
    \<and> (\<forall>g\<in>set xs. \<forall>r\<in>set (readers (hdr s)). active r \<and> alive (pid r) \<longrightarrow>
          gcycle g = 0 \<or> age_of (cycle (hdr s)) (rcycle r) + 64 < age_of (cycle (hdr s)) (gcycle g))"
proof -
  let ?c = "cycle (hdr s)" and ?rs = "readers (hdr s)"
  note W = in_windowD [OF gc_invD(1) [OF inv]]
  obtain rs' old where sc: "oldest_scan alive ?c ?rs 0 0 = (rs', old)" by fastforce
  have rs': "rs' = map (clear_dead alive) ?rs" using oldest_scan_readers [of alive ?c ?rs 0 0] sc by simp
  have O: "\<forall>r\<in>set ?rs. active r \<and> alive (pid r) \<longrightarrow> old \<noteq> 0 \<and> age_of ?c (rcycle r) \<le> age_of ?c old"
      "old = 0 \<or> (\<exists>r\<in>set ?rs. active r \<and> rcycle r = old)"
    using oldest_scan_oldest [of ?rs ?c 0 0 alive] W(1) sc by auto
  define nh where "nh = (if old = 0 then ?c else old)"
  have nh: "age_of ?c nh < WINDOW" "?c = 0 \<Longrightarrow> nh = 0"
    using O(2) W(1) gc_invD(5) [OF inv] by (auto simp: nh_def WINDOW_def)
  let ?strike = "garbage_strike (mst s) + 1"
  have age: "cell_to_int (nh - horizon (mst s)) = int (age_of ?c (horizon (mst s))) - int (age_of ?c nh)"
    using nh(1) W(4) by (intro cell_to_int_diff) (auto simp: WINDOW_def)
  consider "?strike < 1000" | "\<not> ?strike < 1000" "\<not> cell_to_int (nh - horizon (mst s)) > 64"
    | "\<not> ?strike < 1000" "cell_to_int (nh - horizon (mst s)) > 64" by blast
  then show ?thesis
  proof cases
    case 1
    then show ?thesis using u W(4) gc_invD(4) [OF inv] by (auto simp: write_unlock_def Let_def)
  next
    case 2
    then show ?thesis
      using u W(4) gc_invD(4) [OF inv] sc rs'
      by (auto simp: write_unlock_def oldest_reader_cycle_def Let_def nh_def split: if_splits)
  next
    case 3
    let ?m = "mst s\<lparr>garbage_strike := 0, horizon := nh\<rparr>"
    obtain m2 f2 where gc: "garbage_collect ?m = (m2, f2)" by fastforce
    have e: "h' = hdr s\<lparr>readers := rs'\<rparr>" "m' = m2" "freed = f2"
      using u 3 sc gc by (auto simp: write_unlock_def oldest_reader_cycle_def Let_def nh_def split: if_splits prod.splits)
    have c0: "?c \<noteq> 0" using 3(2) nh(2) gc_invD(4) [OF inv] by (auto simp: cell_to_int_def)
    have nh0: "nh \<noteq> 0" using c0 by (simp add: nh_def)
    have hz: "horizon m2 = nh" using gc by (auto simp: garbage_collect_def split: prod.splits)
    from collect_spec [OF gc, of ?c] nh0 nh(1) W(2) obtain xs where
      xs: "garbage (mst s) = xs @ garbage m2" "f2 = map memory xs"
        "\<forall>g\<in>set xs. gcycle g = 0 \<or> age_of ?c nh + 64 < age_of ?c (gcycle g)" by auto
    have "gcycle g = 0 \<or> age_of ?c (rcycle r) + 64 < age_of ?c (gcycle g)"
      if "g \<in> set xs" "r \<in> set ?rs" "active r" "alive (pid r)" for g r
      using that xs(3) O(1) unfolding nh_def by fastforce
    then show ?thesis using xs nh c0 hz rs' unfolding e by (intro exI [of _ xs]) auto
  qed
qed

lemma inv_write_end:
  assumes inv: "gc_inv s" and u: "write_unlock alive (hdr s) (mst s) = (h', m', freed)"
  shows "gc_inv (s\<lparr>hdr := h', mst := m'\<rparr>)" (is "gc_inv ?t")
proof -
  obtain xs where X: "garbage (mst s) = xs @ garbage m'" "cycle h' = cycle (hdr s)"
      "readers h' = readers (hdr s) \<and> xs = [] \<or> readers h' = map (clear_dead alive) (readers (hdr s))"
      "age_of (cycle (hdr s)) (horizon m') < WINDOW" "cycle (hdr s) = 0 \<longrightarrow> horizon m' = 0"
      "\<forall>g\<in>set xs. \<forall>r\<in>set (readers (hdr s)). active r \<and> alive (pid r) \<longrightarrow>
          gcycle g = 0 \<or> age_of (cycle (hdr s)) (rcycle r) + 64 < age_of (cycle (hdr s)) (gcycle g)"
    using write_unlock_cases [OF assms] by blast
  have len: "length (readers h') = length (readers (hdr s))" using X(3) by auto
  have rd: "active (readers (hdr s) ! i) \<and> rcycle (readers h' ! i) = rcycle (readers (hdr s) ! i)
      \<and> (xs = [] \<or> alive (pid (readers (hdr s) ! i)))"
    if "i < length (readers h')" "active (readers h' ! i)" for i
  proof -
    have *: "active (clear_dead alive r) \<Longrightarrow> rcycle (clear_dead alive r) = rcycle r" for r
      by (auto simp: clear_dead_def active_def)
    show ?thesis using X(3) that len * by (auto simp: nth_map)
  qed
  have rd': "\<exists>r'\<in>set (readers (hdr s)). active r' \<and> rcycle r' = rcycle r" if "r \<in> set (readers h')" "active r" for r
    using that rd len by (metis in_set_conv_nth)
  note W = in_windowD [OF gc_invD(1) [OF inv]]
  show ?thesis
  proof (rule gc_invI)
    show "in_window ?t"
      unfolding in_window_def
    proof (intro conjI ballI allI impI)
      fix r assume "r \<in> set (readers (hdr ?t))" "active r"
      then obtain r' where "r' \<in> set (readers (hdr s))" "active r'" "rcycle r' = rcycle r" using rd' by auto
      then show "age_of (cycle (hdr ?t)) (rcycle r) < WINDOW" using W(1) X(2) by force
    next
      fix g assume "g \<in> set (garbage (mst ?t))"
      then show "age_of (cycle (hdr ?t)) (gcycle g) < WINDOW" using W(2) X(1, 2) by simp
    qed (use W(3) X(2, 4) in auto)
  next
    fix i assume i: "i < length (readers (hdr ?t))" "active (readers (hdr ?t) ! i)"
    let ?r = "readers (hdr s) ! i"
    have r: "active ?r" "rcycle (readers h' ! i) = rcycle ?r" "i < length (readers (hdr s))" "xs = [] \<or> alive (pid ?r)"
      using rd i len by auto
    have "hold s i \<inter> set xs = {}"
      using X(6) r gc_invD(3) [OF inv r(3) r(1)] nth_mem [OF r(3)] by fastforce
    then show "hold ?t i \<subseteq> set (garbage (mst ?t))" using gc_invD(2) [OF inv r(3, 1)] X(1) by auto
    show "gcycle g \<noteq> 0 \<and> age_of (cycle (hdr ?t)) (gcycle g) \<le> age_of (cycle (hdr ?t)) (rcycle (readers (hdr ?t) ! i))"
      if "g \<in> hold ?t i" for g
      using gc_invD(3) [OF inv r(3, 1)] that r(2) X(2) by simp
  next
    show "\<not> active r" if "cycle (hdr ?t) = 0" "r \<in> set (readers (hdr ?t))" for r
      using rd' [of r] gc_invD(5) [OF inv] that X(2) by auto
    show "sorted_wrt (\<lambda>g h. age_of (cycle (hdr ?t)) (gcycle g) \<ge> age_of (cycle (hdr ?t)) (gcycle h)) (garbage (mst ?t))"
      using gc_invD(7) [OF inv] X(1, 2) by (simp add: sorted_wrt_append)
  qed (use gc_invD(6) [OF inv] X(2, 5) in auto)
qed

lemma pid2slot_Some: "pid2slot rs p = Some i \<Longrightarrow> i < length rs \<and> pid (rs ! i) = p \<and> (\<forall>j<i. pid (rs ! j) \<noteq> p)"
  by (induction rs p arbitrary: i rule: pid2slot.induct) (fastforce split: if_splits simp: less_Suc_eq_0_disj)+

lemma pid2slot_None: "pid2slot rs p = None \<longleftrightarrow> p \<notin> pid ` set rs"
  by (induction rs p rule: pid2slot.induct) auto

lemma gc_step_inv: "gc_step s t \<Longrightarrow> gc_inv s \<Longrightarrow> gc_inv t"
proof (induction rule: gc_step.induct)
  case (write_begin t s)
  then show ?case using inv_write_begin by blast
next
  case (free s m)
  then show ?case by (rule inv_free)
next
  case (write_end alive s h' m' freed)
  then show ?case using inv_write_end by blast
next
  case (attach s p)
  have "(\<exists>i r. readers (snd (shmattachpid (hdr s) p)) = (readers (hdr s))[i := r] \<and> \<not> active r)
      \<or> snd (shmattachpid (hdr s) p) = hdr s"
    by (force simp: shmattachpid_def active_def split: option.splits)
  moreover have "cycle (snd (shmattachpid (hdr s) p)) = cycle (hdr s)"
    by (simp add: shmattachpid_def split: option.splits)
  ultimately show ?case using attach by (auto intro: inv_slot [where s = s])
next
  case (read_load i s)
  note W = in_windowD [OF gc_invD(1) [OF read_load(2)]]
  have "in_window (s\<lparr>loaded := (loaded s)(i := Some (cycle (hdr s)))\<rparr>)"
    using W unfolding in_window_def by (auto simp: WINDOW_def split: if_splits)
  then show ?case
    using gc_invD(2-7) [OF read_load(2)] by (intro gc_invI) (auto split: if_splits)
next
  case (read_store i s x)
  show ?case
  proof (rule inv_slot [OF read_store(3), where i = i and r = "(readers (hdr s) ! i)\<lparr>rcycle := x\<rparr>"])
    assume "active ((readers (hdr s) ! i)\<lparr>rcycle := x\<rparr>)"
    then have "x \<noteq> 0" by (simp add: active_def)
    then show "hold (s\<lparr>hdr := (hdr s)\<lparr>readers := (readers (hdr s))[i := (readers (hdr s) ! i)\<lparr>rcycle := x\<rparr>]\<rparr>,
          loaded := (loaded s)(i := None), hold := (hold s)(i := {})\<rparr>) i = {}
        \<and> age_of (cycle (hdr s)) (rcycle ((readers (hdr s) ! i)\<lparr>rcycle := x\<rparr>)) < WINDOW \<and> cycle (hdr s) \<noteq> 0"
      using in_windowD(3) [OF gc_invD(1) [OF read_store(3)] read_store(2)] gc_invD(6) [OF read_store(3) _ read_store(2)] by auto
  qed (auto split: if_splits)
next
  case (read_end s i)
  show ?case
    by (rule inv_slot [OF read_end, where i = i and r = "(readers (hdr s) ! i)\<lparr>rcycle := 0\<rparr>"])
      (auto simp: read_unlock_def active_def)
qed

lemma gc_init_inv: "gc_inv gc_init"
  by (intro gc_invI)
    (auto simp: gc_init_def shminit_readers_def shminit_master_def in_window_def active_def WINDOW_def MAX_SHMEM_READERS_def)

lemma gc_reachable_inv: "gc_reachable s \<Longrightarrow> gc_inv s"
  by (induction rule: gc_reachable.induct) (auto intro: gc_init_inv gc_step_inv)

section \<open>Properties\<close>

text \<open>
  C32. Readers are safe without locks.  In every state that the master and any number of readers can
  reach, their steps interleaved in any way (also between the two halves of \<^verbatim>\<open>read_lock\<close>), as long as
  no reader and no block stays around for \<open>2\<^sup>3\<^sup>0\<close> write cycles: what \<^verbatim>\<open>write_unlock\<close> gives back to
  the allocator is a prefix of the queue of unlinked blocks, and no block that was unlinked since a
  live reader locked is among them; all of those are still in the queue.
\<close>

theorem gc_safety:
  assumes "gc_reachable s" and "write_unlock alive (hdr s) (mst s) = (h', m', freed)"
    and "i < length (readers (hdr s))" and "active (readers (hdr s) ! i)" and "alive (pid (readers (hdr s) ! i))"
  shows "\<exists>gs. garbage (mst s) = gs @ garbage m' \<and> freed = map memory gs
    \<and> hold s i \<inter> set gs = {} \<and> hold s i \<subseteq> set (garbage m')"
proof -
  note inv = gc_reachable_inv [OF assms(1)]
  obtain xs where X: "garbage (mst s) = xs @ garbage m'" "freed = map memory xs"
      "\<forall>g\<in>set xs. \<forall>r\<in>set (readers (hdr s)). active r \<and> alive (pid r) \<longrightarrow>
          gcycle g = 0 \<or> age_of (cycle (hdr s)) (rcycle r) + 64 < age_of (cycle (hdr s)) (gcycle g)"
    using write_unlock_cases [OF inv assms(2)] by blast
  have "hold s i \<inter> set xs = {}"
    using X(3) gc_invD(3) [OF inv assms(3, 4)] nth_mem [OF assms(3)] assms(4, 5) by fastforce
  then show ?thesis using X(1, 2) gc_invD(2) [OF inv assms(3, 4)] by auto
qed


lemma attach_free_slot:
  fixes c :: cell_t
  assumes "pid2slot rs 0 = Some i" "w \<notin> pid ` set rs" "distinct (filter (\<lambda>p. p \<noteq> 0) (map pid rs))" "w \<noteq> 0"
  defines "rs' \<equiv> rs[i := \<lparr>pid = w, rcycle = c\<rparr>]"
  shows "w \<in> pid ` set rs'" "q \<noteq> 0 \<Longrightarrow> q \<in> pid ` set rs \<Longrightarrow> q \<in> pid ` set rs'"
    "distinct (filter (\<lambda>p. p \<noteq> 0) (map pid rs'))"
proof -
  have i: "i < length rs" "pid (rs ! i) = 0" using pid2slot_Some [OF assms(1)] by auto
  have rs: "rs = take i rs @ rs ! i # drop (Suc i) rs" using i(1) by (simp add: id_take_nth_drop)
  have rs': "rs' = take i rs @ \<lparr>pid = w, rcycle = c\<rparr> # drop (Suc i) rs"
    unfolding rs'_def using i(1) by (rule upd_conv_take_nth_drop)
  have "set rs = set (take i rs) \<union> {rs ! i} \<union> set (drop (Suc i) rs)" by (subst rs) auto
  then show "w \<in> pid ` set rs'" "q \<noteq> 0 \<Longrightarrow> q \<in> pid ` set rs \<Longrightarrow> q \<in> pid ` set rs'"
    unfolding rs' using i(2) by auto
  have "distinct (filter (\<lambda>p. p \<noteq> 0) (map pid (take i rs @ rs ! i # drop (Suc i) rs)))"
    using assms(3) rs by simp
  moreover have "w \<notin> pid ` set (take i rs)" "w \<notin> pid ` set (drop (Suc i) rs)"
    using assms(2) by (auto dest: in_set_takeD in_set_dropD)
  ultimately show "distinct (filter (\<lambda>p. p \<noteq> 0) (map pid rs'))" unfolding rs' using i(2) assms(4) by auto
qed

lemma word_of_pid: "p \<noteq> 0 \<Longrightarrow> \<bar>p\<bar> < 2 ^ 31 \<Longrightarrow> (word_of_int p :: cell_t) \<noteq> 0"
proof
  assume p: "p \<noteq> 0" "\<bar>p\<bar> < 2 ^ 31" and "(word_of_int p :: cell_t) = 0"
  then have "cell_to_int (word_of_int p) = 0" by (simp add: cell_to_int_def)
  moreover have "cell_to_int (word_of_int p) = p" using p(2) by (intro cell_to_int_of_int) linarith+
  ultimately show False using p(1) by simp
qed

text \<open>
  \<^verbatim>\<open>shmattachpid\<close>: it succeeds exactly when the process has a slot already or one of the 1024 slots
  is free; then the process has a slot, every other process keeps its own, and no process has two.
\<close>

theorem attach_slots:
  assumes "distinct (filter (\<lambda>p. p \<noteq> 0) (map pid (readers h)))" and "p \<noteq> 0" and "\<bar>p\<bar> < 2 ^ 31"
    and "shmattachpid h p = (res, h')"
  shows "(res = 1 \<longleftrightarrow> word_of_int p \<in> pid ` set (readers h) \<or> 0 \<in> pid ` set (readers h))
    \<and> (res = 1 \<longleftrightarrow> pid2reader h' p \<noteq> None)
    \<and> (\<forall>q. q \<noteq> 0 \<longrightarrow> q \<in> pid ` set (readers h) \<longrightarrow> q \<in> pid ` set (readers h'))
    \<and> distinct (filter (\<lambda>p. p \<noteq> 0) (map pid (readers h'))) \<and> length (readers h') = length (readers h)"
proof -
  let ?w = "word_of_int p :: cell_t" and ?rs = "readers h"
  have w: "?w \<noteq> 0" using word_of_pid assms(2, 3) by blast
  consider "?w \<in> pid ` set ?rs" | "?w \<notin> pid ` set ?rs" "0 \<notin> pid ` set ?rs"
    | i where "?w \<notin> pid ` set ?rs" "pid2slot ?rs 0 = Some i"
    using pid2slot_None [of ?rs 0] by blast
  then show ?thesis
  proof cases
    case 1
    then have "res = 1" "h' = h" "pid2reader h p \<noteq> None"
      using assms(2, 4) pid2slot_None [of ?rs ?w] by (auto simp: shmattachpid_def pid2reader_def)
    then show ?thesis using assms(1) 1 by simp
  next
    case 2
    then have "pid2slot ?rs ?w = None" "pid2slot ?rs 0 = None" by (simp_all add: pid2slot_None)
    then have "res = 0" "h' = h" using assms(2, 4) by (auto simp: shmattachpid_def pid2reader_def)
    then show ?thesis using assms(1) 2 pid2slot_None [of ?rs ?w] by (simp add: pid2reader_def)
  next
    case 3
    have "pid2slot ?rs ?w = None" using 3(1) by (simp add: pid2slot_None)
    then have r: "res = 1" "readers h' = ?rs[i := \<lparr>pid = ?w, rcycle = LOST_HORIZON\<rparr>]"
      using assms(2, 4) 3(2) by (auto simp: shmattachpid_def pid2reader_def)
    have "0 \<in> pid ` set ?rs" using pid2slot_Some [OF 3(2)] by (metis image_eqI nth_mem)
    note F = attach_free_slot [OF 3(2, 1) assms(1) w, where c = LOST_HORIZON, folded r(2)]
    have "pid2reader h' p \<noteq> None" using F(1) pid2slot_None [of "readers h'" ?w] by (simp add: pid2reader_def)
    moreover have "length (readers h') = length ?rs" using r(2) by simp
    ultimately show ?thesis using r(1) F(2, 3) \<open>0 \<in> pid ` set ?rs\<close> by blast
  qed
qed

lemma attach_slots_witness:
  "fst (shmattachpid (shminit_readers\<lparr>readers := [\<lparr>pid = 7, rcycle = 3\<rparr>]\<rparr>) 5) = 0
    \<and> fst (shmattachpid (shminit_readers\<lparr>readers := [\<lparr>pid = 7, rcycle = 3\<rparr>, \<lparr>pid = 0, rcycle = 0\<rparr>]\<rparr>) 5) = 1"
proof -
  let ?h = "shminit_readers\<lparr>readers := [\<lparr>pid = 7, rcycle = 3\<rparr>]\<rparr>"
    and ?h2 = "shminit_readers\<lparr>readers := [\<lparr>pid = 7, rcycle = 3\<rparr>, \<lparr>pid = 0, rcycle = 0\<rparr>]\<rparr>"
  have "fst (shmattachpid ?h 5) = 0 \<or> fst (shmattachpid ?h 5) = 1"
    by (simp add: shmattachpid_def split: option.splits)
  moreover have "fst (shmattachpid ?h 5) \<noteq> 1"
    using attach_slots [of ?h 5 "fst (shmattachpid ?h 5)" "snd (shmattachpid ?h 5)"] by simp
  moreover have "fst (shmattachpid ?h2 5) = 1"
    using attach_slots [of ?h2 5 "fst (shmattachpid ?h2 5)" "snd (shmattachpid ?h2 5)"] by simp
  ultimately show ?thesis by blast
qed

text \<open>
  A run: process 5 attaches, the master writes, the process locks cycle 1, the master writes again
  and unlinks block 40, and unlocks.
\<close>

definition run_attach :: gc_sys where
  "run_attach = gc_init\<lparr>hdr := snd (shmattachpid (hdr gc_init) 5)\<rparr>"

definition run_write :: gc_sys where
  "run_write = run_attach\<lparr>hdr := snd (write_lock (hdr run_attach))\<rparr>"

definition run_load :: gc_sys where
  "run_load = run_write\<lparr>loaded := (loaded run_write)(0 := Some (cycle (hdr run_write)))\<rparr>"

definition run_store :: gc_sys where
  "run_store = run_load\<lparr>hdr := (hdr run_load)\<lparr>readers := (readers (hdr run_load))[0 := (readers (hdr run_load) ! 0)\<lparr>rcycle := 1\<rparr>]\<rparr>,
       loaded := (loaded run_load)(0 := None), hold := (hold run_load)(0 := {})\<rparr>"

definition run_free :: gc_sys where
  "run_free = run_store\<lparr>mst := shmfree_raw (hdr run_store) (mst run_store) 40,
     hold := (\<lambda>i. insert \<lparr>gcycle = cycle (hdr run_store), memory = 40\<rparr> (hold run_store i))\<rparr>"

lemma run_simps:
  "readers (hdr run_attach) = \<lparr>pid = 5, rcycle = 0\<rparr> # replicate 1023 \<lparr>pid = 0, rcycle = 0\<rparr>"
  "cycle (hdr run_attach) = 0" "mst run_attach = shminit_master 0" "loaded run_attach = (\<lambda>i. None)" "hold run_attach = (\<lambda>i. {})"
proof -
  have r: "readers shminit_readers = \<lparr>pid = 0, rcycle = 0\<rparr> # replicate 1023 \<lparr>pid = 0, rcycle = 0\<rparr>"
    by (simp add: shminit_readers_def MAX_SHMEM_READERS_def numeral_eq_Suc)
  have "pid2slot (replicate n \<lparr>pid = 0, rcycle = 0\<rparr>) 5 = None" for n
    by (auto simp: pid2slot_None)
  then have "shmattachpid shminit_readers 5 = (1, \<lparr>cycle = 0, readers = \<lparr>pid = 5, rcycle = 0\<rparr> # replicate 1023 \<lparr>pid = 0, rcycle = 0\<rparr>\<rparr>)"
    using r by (simp add: shmattachpid_def pid2reader_def) (simp add: shminit_readers_def)
  then show "readers (hdr run_attach) = \<lparr>pid = 5, rcycle = 0\<rparr> # replicate 1023 \<lparr>pid = 0, rcycle = 0\<rparr>"
    "cycle (hdr run_attach) = 0" "mst run_attach = shminit_master 0" "loaded run_attach = (\<lambda>i. None)" "hold run_attach = (\<lambda>i. {})"
    by (simp_all add: run_attach_def gc_init_def)
qed

lemma run_free_reachable: "gc_reachable run_free"
proof -
  have w: "in_window run_write"
    unfolding in_window_def run_write_def
    by (auto simp: run_simps write_lock_def next_cycle.simps [of 0] active_def shminit_master_def age_of_def WINDOW_def Let_def)
  have "gc_reachable run_attach" unfolding run_attach_def by (intro gc_next [OF gc_start] attach)
  then have "gc_reachable run_write" by (rule gc_next) (rule write_begin, rule run_write_def, rule w)
  then have "gc_reachable run_load"
    unfolding run_load_def by (rule gc_next) (rule read_load, simp add: run_write_def write_lock_def run_simps)
  then have "gc_reachable run_store"
    unfolding run_store_def
    by (rule gc_next)
      (rule read_store, simp_all add: run_load_def run_write_def write_lock_def run_simps next_cycle.simps [of 0])
  then show ?thesis unfolding run_free_def by (rule gc_next) (rule free)
qed

lemma gc_safety_witness:
  "\<exists>h' m' freed. write_unlock (\<lambda>p. p = 5) (hdr run_free) (mst run_free) = (h', m', freed)
    \<and> hold run_free 0 = {\<lparr>gcycle = 1, memory = 40\<rparr>} \<and> hold run_free 0 \<subseteq> set (garbage m')"
proof -
  obtain h' m' freed where u: "write_unlock (\<lambda>p. p = 5) (hdr run_free) (mst run_free) = (h', m', freed)"
    by (metis prod_cases3)
  have f: "readers (hdr run_free) = \<lparr>pid = 5, rcycle = 1\<rparr> # replicate 1023 \<lparr>pid = 0, rcycle = 0\<rparr>"
      "hold run_free 0 = {\<lparr>gcycle = 1, memory = 40\<rparr>}"
    by (simp_all add: run_free_def run_store_def run_load_def run_write_def write_lock_def run_simps next_cycle.simps [of 0])
  have "hold run_free 0 \<subseteq> set (garbage m')"
    using gc_safety [OF run_free_reachable u, of 0] f(1) by (auto simp: active_def)
  then show ?thesis using u f(2) by blast
qed

text \<open>After 999 write cycles with one block unlinked at the start.\<close>

definition idle :: "nat \<Rightarrow> gc_sys" where
  "idle n = \<lparr>hdr = \<lparr>cycle = of_nat n, readers = replicate 1024 \<lparr>pid = 0, rcycle = 0\<rparr>\<rparr>,
     mst = \<lparr>garbage = [\<lparr>gcycle = 0, memory = 40\<rparr>], horizon = 0, garbage_strike = int n\<rparr>,
     loaded = (\<lambda>i. None), hold = (\<lambda>i. {\<lparr>gcycle = 0, memory = 40\<rparr>})\<rparr>"

lemma idle_reachable: "n \<le> 999 \<Longrightarrow> gc_reachable (idle n)"
proof (induction n)
  case 0
  have "idle 0 = gc_init\<lparr>mst := shmfree_raw (hdr gc_init) (mst gc_init) 40,
     hold := (\<lambda>i. insert \<lparr>gcycle = cycle (hdr gc_init), memory = 40\<rparr> (hold gc_init i))\<rparr>"
    by (simp add: idle_def gc_init_def shminit_readers_def shminit_master_def shmfree_raw_def MAX_SHMEM_READERS_def)
  then show ?case using gc_next [OF gc_start free] by simp
next
  case (Suc n)
  let ?s = "(idle n)\<lparr>hdr := \<lparr>cycle = of_nat (Suc n), readers = replicate 1024 \<lparr>pid = 0, rcycle = 0\<rparr>\<rparr>\<rparr>"
  have u: "unat (1 + word_of_nat n :: cell_t) = Suc n"
    using Suc.prems by (simp add: unat_of_nat flip: of_nat_Suc)
  then have "(1 + word_of_nat n :: cell_t) \<noteq> 0" by (metis unat_0 nat.distinct(1))
  then have "snd (write_lock (hdr (idle n))) = hdr ?s"
    by (simp add: idle_def write_lock_def next_cycle.simps [of "word_of_nat n"] add.commute)
  moreover have "in_window ?s"
    using u Suc.prems unfolding in_window_def
    by (auto simp: idle_def active_def age_of_def WINDOW_def simp flip: of_nat_Suc)
  ultimately have "gc_reachable ?s"
    using Suc by (intro gc_next [OF Suc.IH write_begin]) (auto simp: idle_def)
  moreover have "write_unlock (\<lambda>p. True) (hdr ?s) (mst ?s) = (hdr ?s, mst (idle (Suc n)), [])"
    using Suc.prems by (simp add: write_unlock_def idle_def)
  ultimately have "gc_reachable (?s\<lparr>hdr := hdr ?s, mst := mst (idle (Suc n))\<rparr>)"
    by (intro gc_next [OF _ write_end])
  then show ?case by (simp add: idle_def)
qed


text \<open>
  \<^verbatim>\<open>write_lock\<close>: the counter never stops at the value that stands for ``not reading'', it moves
  forward by one, or by two to skip that value, and the cycle that is returned is right only while
  the counter fits in an \<^verbatim>\<open>int\<close>: the call that reaches cycle \<open>2\<^sup>3\<^sup>2\<close> returns 0.
\<close>

theorem write_lock_cycle:
  "cycle (snd (write_lock h)) \<noteq> LOST_HORIZON \<and> readers (snd (write_lock h)) = readers h
    \<and> (cycle (snd (write_lock h)) = cycle h + 1 \<or> cycle h + 1 = LOST_HORIZON \<and> cycle (snd (write_lock h)) = 1)
    \<and> (fst (write_lock h) = uint (cycle (snd (write_lock h))) \<or> 2 ^ 31 \<le> uint (cycle (snd (write_lock h))))
    \<and> fst (write_lock \<lparr>cycle = 0xFFFFFFFF, readers = rs\<rparr>) = 0"
proof -
  let ?c = "next_cycle (cycle h)"
  have w: "cycle (snd (write_lock h)) = ?c" "fst (write_lock h) = cell_to_int ?c" "readers (snd (write_lock h)) = readers h"
    by (simp_all add: write_lock_def Let_def)
  have "?c = cycle h + 1 \<or> cycle h + 1 = LOST_HORIZON \<and> ?c = 1"
  proof (cases "cycle h + 1 = 0")
    case True
    then have "cycle h = - 1" by (simp add: add_eq_0_iff2)
    then show ?thesis by (simp add: next_cycle.simps [of "- 1"] next_cycle.simps [of 0])
  next
    case False
    then show ?thesis by (simp add: next_cycle.simps [of "cycle h"])
  qed
  moreover have "cell_to_int ?c = uint ?c \<or> 2 ^ 31 \<le> uint ?c"
  proof -
    have "- (2 ^ 31) \<le> uint ?c" by (rule order_trans [of _ 0]) simp_all
    then show ?thesis using cell_to_int_of_int [of "uint ?c"] by fastforce
  qed
  moreover have "next_cycle 0xFFFFFFFF = 0x100000000" by (simp add: next_cycle.simps)
  then have "fst (write_lock \<lparr>cycle = 0xFFFFFFFF, readers = rs\<rparr>) = 0"
    by (simp add: write_lock_def cell_to_int_def)
  ultimately show ?thesis using next_cycle_cases [of "cycle h"] unfolding w by simp
qed

end
