(* ===== verification/ShareCmd.thy ===== *)
theory ShareCmd
  imports SharedMem
begin

text \<open>
  \<^verbatim>\<open>ctables/shared/shared.c\<close>, the rest: mapping and unmapping of shared memory files, the symbol table
  in a file through which readers find the tables, the names a process uses in it, and the Tcl
  command \<^verbatim>\<open>share\<close>.  The file mapping and the allocator are boost's; what the code asks of them is
  the record \<open>env\<close>.
\<close>

section \<open>State\<close>

definition SYM_TYPE_STRING :: int where "SYM_TYPE_STRING = 1"
definition SYM_TYPE_DATA :: int where "SYM_TYPE_DATA = 0"
definition SYM_TYPE_ANY :: int where "SYM_TYPE_ANY = -1"
definition MAP_MAGIC :: cell_t where "MAP_MAGIC = 0x42454546"
definition ATTACH_ONLY :: cell_t where "ATTACH_ONLY = - 1"

text \<open>A symbol; its name follows the fixed fields in memory, at offset 20 of a struct of 24 bytes.\<close>

record symbol_t =
  sym_name :: string
  sym_addr :: addr
  sym_type :: int

text \<open>
  The contents of a mapped file: the header, the symbol list from its head on, and the blocks of the
  heap that hold strings (their sizes, and the C strings at addresses inside of them).
\<close>

record filemap =
  magic :: cell_t
  mapsize :: cell_t
  map_addr :: addr
  namelist :: "symbol_t list"
  maphdr :: mapheader_t
  block_size :: "addr \<Rightarrow> nat"
  text_at :: "addr \<Rightarrow> string"

text \<open>\<^verbatim>\<open>shm_t\<close>, one per file and process; \<^verbatim>\<open>shm_id\<close> is its address.\<close>

record shm_t =
  shm_id :: addr
  shm_file :: string
  shm_base :: addr
  shm_size :: cell_t
  shm_flags :: int
  shm_creator :: bool
  shm_name :: "string option"
  attach_count :: int
  shm_objects :: "string list"
  shm_master :: "master_t option"

text \<open>The process: \<^verbatim>\<open>speedtablesAssocData\<close>, and the files it can map.\<close>

record share_proc =
  autoshare :: int
  share_base :: addr
  share_list :: "shm_t list"
  files :: "string \<Rightarrow> filemap option"
  next_shm :: addr

text \<open>
  What is outside: whether boost opens (or creates) a file, the allocator of a file (0 is failure) and
  its free memory, where its header is mapped, the process id, the static strike counter, and the
  client data of the command.
\<close>

record env =
  opens :: "bool \<Rightarrow> string \<Rightarrow> bool"
  shmalloc :: "filemap \<Rightarrow> nat \<Rightarrow> addr"
  free_memory :: "filemap \<Rightarrow> cell_t"
  getpid :: int
  strike :: int
  client_data :: addr
  map_pointer :: "string \<Rightarrow> addr"

section \<open>Mapping files\<close>

text \<open>A header that boost has just constructed: all zero.\<close>

definition zero_map :: filemap where
  "zero_map = \<lparr>magic = 0, mapsize = 0, map_addr = 0, namelist = [],
     maphdr = \<lparr>cycle = 0, readers = replicate MAX_SHMEM_READERS \<lparr>pid = 0, rcycle = 0\<rparr>\<rparr>,
     block_size = (\<lambda>a. 0), text_at = (\<lambda>a. [])\<rparr>"

definition the_map :: "share_proc \<Rightarrow> shm_t \<Rightarrow> filemap" where
  "the_map st s = (case files st (shm_file s) of Some m \<Rightarrow> m | None \<Rightarrow> zero_map)"

definition set_map :: "shm_t \<Rightarrow> filemap \<Rightarrow> share_proc \<Rightarrow> share_proc" where
  "set_map s m st = st\<lparr>files := (files st)(shm_file s := Some m)\<rparr>"

text \<open>A change of one \<^verbatim>\<open>shm_t\<close> through its pointer.\<close>

definition upd_share :: "addr \<Rightarrow> (shm_t \<Rightarrow> shm_t) \<Rightarrow> share_proc \<Rightarrow> share_proc" where
  "upd_share a f st = st\<lparr>share_list := map (\<lambda>s. if shm_id s = a then f s else s) (share_list st)\<rparr>"

text \<open>\<^verbatim>\<open>map_file\<close>: the share, or \<^verbatim>\<open>NULL\<close>.\<close>

definition map_file :: "env \<Rightarrow> string \<Rightarrow> addr \<Rightarrow> cell_t \<Rightarrow> int \<Rightarrow> bool \<Rightarrow> share_proc \<Rightarrow> addr option \<times> share_proc" where
  "map_file ev file a default_size flags create st =
     (case find (\<lambda>p. shm_file p = file) (share_list st) of
        Some p \<Rightarrow>
          (if default_size \<noteq> 0 \<and> default_size > shm_size p then (None, st)
           else (Some (shm_id p), upd_share (shm_id p) (\<lambda>s. s\<lparr>attach_count := attach_count s + 1\<rparr>) st))
      | None \<Rightarrow>
          (if \<not> opens ev create file then (None, st)
           else let p = \<lparr>shm_id = next_shm st, shm_file = file, shm_base = a, shm_size = default_size,
                         shm_flags = flags, shm_creator = False, shm_name = None, attach_count = 1,
                         shm_objects = [], shm_master = None\<rparr>;
                    st1 = (if files st file = None then set_map p zero_map st else st)
                in (Some (shm_id p), st1\<lparr>share_list := p # share_list st1, next_shm := next_shm st1 + 1\<rparr>)))"

text \<open>\<^verbatim>\<open>unmap_file\<close> of a share that the caller has a pointer to.\<close>

definition unmap_file :: "env \<Rightarrow> shm_t \<Rightarrow> share_proc \<Rightarrow> int \<times> share_proc" where
  "unmap_file ev share st =
     (if shm_objects share \<noteq> [] then (-1, st)
      else let st1 = upd_share (shm_id share) (\<lambda>s. s\<lparr>attach_count := attach_count s - 1\<rparr>) st
           in if attach_count share - 1 > 0 then (1, st1)
              else if shm_id share \<notin> shm_id ` set (share_list st1) then (0, st1)
              else let st2 = st1\<lparr>share_list := filter (\<lambda>s. shm_id s \<noteq> shm_id share) (share_list st1)\<rparr>;
                       m = the_map st2 share; h = maphdr m
                   in case pid2reader h (getpid ev) of
                        None \<Rightarrow> (1, st2)
                      | Some i \<Rightarrow> (1, set_map share (m\<lparr>maphdr := h\<lparr>readers := (readers h)[i := \<lparr>pid = 0, rcycle = LOST_HORIZON\<rparr>]\<rparr>\<rparr>) st2))"

text \<open>\<^verbatim>\<open>unmap_all\<close>: the list is advanced past a share even when it could not be unmapped.\<close>

fun unmap_loop :: "env \<Rightarrow> shm_t list \<Rightarrow> share_proc \<Rightarrow> share_proc" where
  "unmap_loop ev [] st = st"
| "unmap_loop ev (p # rest) st = unmap_loop ev rest ((snd (unmap_file ev p st))\<lparr>share_list := rest\<rparr>)"

definition unmap_all :: "env \<Rightarrow> share_proc \<Rightarrow> share_proc" where
  "unmap_all ev st = unmap_loop ev (share_list st) st"

definition shminitmap :: "env \<Rightarrow> shm_t \<Rightarrow> share_proc \<Rightarrow> share_proc" where
  "shminitmap ev share st =
     (let m = (the_map st share)\<lparr>magic := MAP_MAGIC, mapsize := shm_size share, map_addr := shm_base share,
                namelist := [], maphdr := shminit_readers\<rparr>
      in upd_share (shm_id share) (\<lambda>s. s\<lparr>shm_master := Some (shminit_master (strike ev)), shm_creator := True\<rparr>)
           (set_map share m st))"

section \<open>Symbols\<close>

definition add_symbol :: "env \<Rightarrow> filemap \<Rightarrow> string \<Rightarrow> addr \<times> string \<Rightarrow> int \<Rightarrow> int \<times> filemap" where
  "add_symbol ev m name val type =
     (let len = 24 + length name + 1 + (if type = SYM_TYPE_STRING then length (snd val) + 1 else 0);
          s = shmalloc ev m len
      in if s = 0 then (0, m)
         else let a = (if type = SYM_TYPE_STRING then s + 20 + length name + 1 else fst val);
                  m1 = m\<lparr>block_size := (block_size m)(s := len)\<rparr>;
                  m2 = (if type = SYM_TYPE_STRING then m1\<lparr>text_at := (text_at m1)(a := snd val)\<rparr> else m1)
              in (1, m2\<lparr>namelist := \<lparr>sym_name = name, sym_addr = a, sym_type = type\<rparr> # namelist m2\<rparr>))"

text \<open>
  \<^verbatim>\<open>set_symbol\<close>: the first symbol of that name.  The copy of a string gets a block of \<^verbatim>\<open>strlen (value)\<close>
  bytes.  A value is the pointer that was passed and, when it is a string, the characters at it.
\<close>

fun set_first :: "string \<Rightarrow> addr \<Rightarrow> symbol_t list \<Rightarrow> symbol_t list" where
  "set_first name a [] = []"
| "set_first name a (s # ss) = (if sym_name s = name then s\<lparr>sym_addr := a\<rparr> # ss else s # set_first name a ss)"

definition set_symbol :: "env \<Rightarrow> filemap \<Rightarrow> string \<Rightarrow> addr \<times> string \<Rightarrow> int \<Rightarrow> int \<times> filemap" where
  "set_symbol ev m name val type =
     (case find (\<lambda>s. sym_name s = name) (namelist m) of
        None \<Rightarrow> (0, m)
      | Some s \<Rightarrow>
          (if type \<noteq> SYM_TYPE_ANY \<and> type \<noteq> sym_type s then (0, m)
           else if type = SYM_TYPE_STRING
           then let len = length (snd val); copy = shmalloc ev m len
                in if copy = 0 then (0, m)
                   else (1, m\<lparr>block_size := (block_size m)(copy := len), text_at := (text_at m)(copy := snd val),
                              namelist := set_first name copy (namelist m)\<rparr>)
           else (1, m\<lparr>namelist := set_first name (fst val) (namelist m)\<rparr>)))"

definition get_symbol :: "filemap \<Rightarrow> string \<Rightarrow> int \<Rightarrow> addr" where
  "get_symbol m name wanted =
     (case find (\<lambda>s. sym_name s = name) (namelist m) of
        None \<Rightarrow> 0
      | Some s \<Rightarrow> (if wanted \<noteq> SYM_TYPE_ANY \<and> wanted \<noteq> sym_type s then 0 else sym_addr s))"

section \<open>Names in use\<close>

definition use_name :: "string \<Rightarrow> shm_t \<Rightarrow> shm_t" where
  "use_name name share = (if name \<in> set (shm_objects share) then share else share\<lparr>shm_objects := name # shm_objects share\<rparr>)"

definition release_name :: "string \<Rightarrow> shm_t \<Rightarrow> shm_t" where
  "release_name name share = share\<lparr>shm_objects := remove1 name (shm_objects share)\<rparr>"

section \<open>Sizes\<close>

definition c_isdigit :: "char \<Rightarrow> bool" where
  "c_isdigit c \<longleftrightarrow> 48 \<le> (of_char c :: nat) \<and> (of_char c :: nat) \<le> 57"

fun parse_digits :: "string \<Rightarrow> cell_t \<Rightarrow> cell_t \<times> string" where
  "parse_digits [] sz = (sz, [])"
| "parse_digits (c # s) sz =
     (if c_isdigit c then parse_digits s (sz * 10 + of_char c - of_char (CHR ''0'')) else (sz, c # s))"

text \<open>The \<^verbatim>\<open>switch\<close> on the unit, whose cases fall through; \<open>None\<close> is the return value 0.\<close>

definition size_unit :: "char \<Rightarrow> cell_t option" where
  "size_unit c =
     (if c \<in> {CHR ''g'', CHR ''G''} then Some (1024 * 1024 * 1024)
      else if c \<in> {CHR ''m'', CHR ''M''} then Some (1024 * 1024)
      else if c \<in> {CHR ''k'', CHR ''K''} then Some 1024
      else None)"

definition parse_size :: "string \<Rightarrow> cell_t option" where
  "parse_size s =
     (case parse_digits s 0 of
        (sz, []) \<Rightarrow> Some sz
      | (sz, c # rest) \<Rightarrow>
          (case size_unit c of None \<Rightarrow> None | Some u \<Rightarrow> if rest = [] then Some (sz * u) else None))"

definition parse_flags :: "string \<Rightarrow> int" where
  "parse_flags s = 0"

text \<open>On systems without \<^verbatim>\<open>MAP_NOCORE\<close> and \<^verbatim>\<open>MAP_NOSYNC\<close>.\<close>

definition flags2string :: "int \<Rightarrow> string" where
  "flags2string flags = ''core '' @ ''sync '' @ ''shared''"

section \<open>The share command\<close>

text \<open>Errors with what their message names; \<open>RCrash\<close> is a \<^verbatim>\<open>NULL\<close> string handed to \<^verbatim>\<open>strcmp\<close> or to Tcl.\<close>

datatype share_error = Bad_Command | Wrong_Args | No_Such_Share string | Share_Exists string | Bad_Size string
  | Shmem_Error | Bad_Magic string | Bad_Base string | Unknown_Name string | Permission_Denied string | Odd_List

datatype share_reply = ROk "string list" | RError share_error | RCrash

definition setShareBase :: "addr \<Rightarrow> share_proc \<Rightarrow> share_proc" where
  "setShareBase new_base st = (if share_base st = 0 then st\<lparr>share_base := new_base\<rparr> else st)"

text \<open>\<^verbatim>\<open>%d\<close> of \<^verbatim>\<open>sprintf\<close>, for the counter of automatic names.\<close>

fun decimal :: "nat \<Rightarrow> string" where
  "decimal n = (if n < 10 then [char_of (48 + n)] else decimal (n div 10) @ [char_of (48 + n mod 10)])"

declare decimal.simps [simp del]

definition format_int :: "int \<Rightarrow> string" where
  "format_int i = (if i < 0 then ''-'' @ decimal (nat (- i)) else decimal (nat i))"

definition find_share :: "addr \<Rightarrow> share_proc \<Rightarrow> shm_t option" where
  "find_share a st = find (\<lambda>s. shm_id s = a) (share_list st)"

text \<open>\<^verbatim>\<open>doCreateOrAttach\<close>, with no \<^verbatim>\<open>sharePtr\<close>: the name of the share is the result.\<close>

definition doCreateOrAttach :: "env \<Rightarrow> string \<Rightarrow> string \<Rightarrow> cell_t \<Rightarrow> int \<Rightarrow> share_proc \<Rightarrow> share_reply \<times> share_proc" where
  "doCreateOrAttach ev sharename0 filename size0 flags st0 =
     (let creator0 = (size0 \<noteq> ATTACH_ONLY);
          sz = (if size0 = ATTACH_ONLY then 0 else size0);
          (sharename, st) = (if sharename0 = ''#auto''
             then (''share'' @ format_int (autoshare st0 + 1), st0\<lparr>autoshare := autoshare st0 + 1\<rparr>)
             else (sharename0, st0))
      in case map_file ev filename (share_base st) sz flags creator0 st of
           (None, st1) \<Rightarrow> (RError Shmem_Error, st1)
         | (Some a, st1) \<Rightarrow>
             (case find_share a st1 of
                None \<Rightarrow> (RCrash, st1)
              | Some share \<Rightarrow>
                  let creator = (creator0 \<and> shm_name share = None);
                      m = the_map st1 share
                  in if \<not> creator \<and> magic m \<noteq> MAP_MAGIC then (RError (Bad_Magic filename), snd (unmap_file ev share st1))
                     else if \<not> creator \<and> map_addr m \<noteq> shm_base share then (RError (Bad_Base filename), snd (unmap_file ev share st1))
                     else let st2 = (if creator then shminitmap ev share st1
                                     else upd_share a (\<lambda>s. s\<lparr>shm_size := mapsize m\<rparr>) st1);
                              st3 = (if shm_name share = None then upd_share a (\<lambda>s. s\<lparr>shm_name := Some sharename\<rparr>) st2 else st2)
                          in (ROk [case shm_name share of None \<Rightarrow> sharename | Some n \<Rightarrow> n], st3)))"

definition doDetach :: "env \<Rightarrow> shm_t \<Rightarrow> share_proc \<Rightarrow> share_reply \<times> share_proc" where
  "doDetach ev share st =
     (if shm_objects share \<noteq> [] then (ROk [], st)
      else let st1 = upd_share (shm_id share) (\<lambda>s. s\<lparr>shm_name := None\<rparr>) st;
               (r, st2) = unmap_file ev (share\<lparr>shm_name := None\<rparr>) st1
           in (if r = 0 then RError Shmem_Error else ROk [], st2))"

text \<open>The search of a share by name; \<open>None\<close> is \<^verbatim>\<open>strcmp\<close> of a share that has no name.\<close>

fun lookup_share :: "addr \<Rightarrow> string \<Rightarrow> shm_t list \<Rightarrow> shm_t option option" where
  "lookup_share cdata name [] = Some None"
| "lookup_share cdata name (s # ss) =
     (if name \<noteq> []
      then case shm_name s of
             None \<Rightarrow> None
           | Some n \<Rightarrow> if n = name then Some (Some s) else lookup_share cdata name ss
      else if shm_id s = cdata then Some (Some s) else lookup_share cdata name ss)"

definition share_commands :: "string list" where
  "share_commands = [''create'', ''attach'', ''list'', ''detach'', ''names'', ''get'', ''multiget'', ''set'', ''info'', ''free'']"

text \<open>\<^verbatim>\<open>need_share\<close> and \<^verbatim>\<open>nargs\<close> of \<^verbatim>\<open>cmdtemplate\<close>.\<close>

fun cmdtemplate :: "string \<Rightarrow> bool \<times> int" where
  "cmdtemplate c =
     (if c = ''create'' then (False, -5) else if c = ''attach'' then (False, 4) else if c = ''list'' then (False, -2)
      else if c = ''detach'' then (True, 3) else if c = ''names'' then (True, -3) else if c = ''get'' then (True, 4)
      else if c = ''multiget'' then (True, -4) else if c = ''set'' then (True, -5) else if c = ''info'' then (True, 3)
      else (True, -3))"

definition share_create :: "env \<Rightarrow> string list \<Rightarrow> string \<Rightarrow> shm_t option \<Rightarrow> share_proc \<Rightarrow> share_reply \<times> share_proc" where
  "share_create ev objv sharename share st =
     (if share \<noteq> None then (RError (Share_Exists sharename), st)
      else case parse_size (objv ! 4) of
             None \<Rightarrow> (RError (Bad_Size (objv ! 4)), st)
           | Some sz \<Rightarrow>
               if length objv > 6 then (RError Wrong_Args, st)
               else doCreateOrAttach ev sharename (objv ! 3) sz (if length objv = 6 then parse_flags (objv ! 5) else 0) st)"

definition share_attach :: "env \<Rightarrow> string list \<Rightarrow> string \<Rightarrow> shm_t option \<Rightarrow> share_proc \<Rightarrow> share_reply \<times> share_proc" where
  "share_attach ev objv sharename share st =
     (if share \<noteq> None then (RError (Share_Exists sharename), st)
      else doCreateOrAttach ev sharename (objv ! 3) ATTACH_ONLY 0 st)"

text \<open>Lists of names; \<open>None\<close> among them is a \<^verbatim>\<open>NULL\<close> string.\<close>

definition append_elements :: "string option list \<Rightarrow> share_reply" where
  "append_elements xs = (if None \<in> set xs then RCrash else ROk (map the xs))"

definition share_list_cmd :: "shm_t option \<Rightarrow> share_proc \<Rightarrow> share_reply" where
  "share_list_cmd share st =
     (case share of
        Some s \<Rightarrow> ROk (shm_objects s)
      | None \<Rightarrow> append_elements (map shm_name (share_list st)))"

text \<open>\<^verbatim>\<open>Tcl_NewWideIntObj\<close> takes the size as a signed number, \<^verbatim>\<open>Tcl_NewIntObj\<close> the pointer as an \<^verbatim>\<open>int\<close>.\<close>

definition share_info :: "env \<Rightarrow> shm_t \<Rightarrow> share_reply" where
  "share_info ev s = append_elements
     [Some ''size'', Some (format_int (sint (shm_size s))), Some ''flags'', Some (flags2string (shm_flags s)),
      Some ''name'', shm_name s, Some ''creator'', Some (if shm_creator s then ''1'' else ''0''),
      Some ''filename'', Some (shm_file s),
      Some ''base'', Some (format_int (sint (word_of_nat (map_pointer ev (shm_file s)) :: 32 word)))]"

definition share_names :: "string list \<Rightarrow> filemap \<Rightarrow> share_reply" where
  "share_names objv m =
     (if length objv = 3 then ROk (map sym_name (namelist m))
      else ROk (filter (\<lambda>n. get_symbol m n SYM_TYPE_ANY \<noteq> 0) (drop 3 objv)))"

definition share_get :: "string list \<Rightarrow> filemap \<Rightarrow> share_reply" where
  "share_get objv m =
     (let name = objv ! 3; s = get_symbol m name SYM_TYPE_STRING
      in if s = 0 then RError (Unknown_Name name) else ROk [text_at m s])"

fun multiget_loop :: "filemap \<Rightarrow> string list \<Rightarrow> string list \<Rightarrow> share_reply" where
  "multiget_loop m [] acc = ROk acc"
| "multiget_loop m (name # names) acc =
     (let s = get_symbol m name SYM_TYPE_STRING
      in if s = 0 then RError (Unknown_Name name) else multiget_loop m names (acc @ [text_at m s]))"

text \<open>\<^verbatim>\<open>share set\<close>: the results of \<^verbatim>\<open>set_symbol\<close> and \<^verbatim>\<open>add_symbol\<close> are not looked at.\<close>

fun set_loop :: "env \<Rightarrow> string list \<Rightarrow> filemap \<Rightarrow> filemap" where
  "set_loop ev (name # val # rest) m =
     set_loop ev rest
       (if get_symbol m name SYM_TYPE_ANY \<noteq> 0
        then snd (set_symbol ev m name (0, val) SYM_TYPE_STRING)
        else snd (add_symbol ev m name (0, val) SYM_TYPE_STRING))"
| "set_loop ev _ m = m"

definition share_set :: "env \<Rightarrow> string list \<Rightarrow> string \<Rightarrow> shm_t \<Rightarrow> share_proc \<Rightarrow> share_reply \<times> share_proc" where
  "share_set ev objv sharename s st =
     (if \<not> shm_creator s then (RError (Permission_Denied sharename), st)
      else if even (length objv) then (RError Odd_List, st)
      else (ROk [], set_map s (set_loop ev (drop 3 objv) (the_map st s)) st))"

text \<open>The \<^verbatim>\<open>switch\<close> of \<^verbatim>\<open>shareCmd\<close>; the commands that need a share are only called with one.\<close>

definition share_dispatch :: "env \<Rightarrow> string list \<Rightarrow> string \<Rightarrow> shm_t option \<Rightarrow> share_proc \<Rightarrow> share_reply \<times> share_proc" where
  "share_dispatch ev objv sharename share st =
     (let cmd = objv ! 1
      in if cmd = ''create'' then share_create ev objv sharename share st
         else if cmd = ''attach'' then share_attach ev objv sharename share st
         else if cmd = ''list'' then (share_list_cmd share st, st)
         else case share of
                None \<Rightarrow> (RCrash, st)
              | Some s \<Rightarrow>
                  if cmd = ''detach'' then doDetach ev s st
                  else if cmd = ''names'' then (share_names objv (the_map st s), st)
                  else if cmd = ''get'' then (share_get objv (the_map st s), st)
                  else if cmd = ''multiget'' then (multiget_loop (the_map st s) (drop 3 objv) [], st)
                  else if cmd = ''set'' then share_set ev objv sharename s st
                  else if cmd = ''info'' then (share_info ev s, st)
                  else (ROk [format_int (sint (free_memory ev (the_map st s)))], st))"

text \<open>\<^verbatim>\<open>shareCmd\<close>; \<open>objv\<close> has the command word at position 0.  Without a subcommand it reads past \<^verbatim>\<open>objv\<close>.\<close>

definition shareCmd :: "env \<Rightarrow> string list \<Rightarrow> share_proc \<Rightarrow> share_reply \<times> share_proc" where
  "shareCmd ev objv st =
     (if length objv < 2 then (RCrash, st)
      else let (need_share, nargs) = cmdtemplate (objv ! 1); objc = int (length objv)
      in if objv ! 1 \<notin> set share_commands then (RError Bad_Command, st)
         else if nargs > 0 \<and> objc \<noteq> nargs \<or> nargs < 0 \<and> objc < - nargs then (RError Wrong_Args, st)
         else if length objv = 2 then share_dispatch ev objv [] None st
         else case lookup_share (client_data ev) (objv ! 2) (share_list st) of
                None \<Rightarrow> (RCrash, st)
              | Some None \<Rightarrow>
                  (if need_share then (RError (No_Such_Share (objv ! 2)), st)
                   else share_dispatch ev objv (objv ! 2) None st)
              | Some (Some s) \<Rightarrow>
                  share_dispatch ev objv
                    (if objv ! 2 = [] then case shm_name s of Some n \<Rightarrow> n | None \<Rightarrow> [] else objv ! 2) (Some s) st)"

section \<open>Parsing sizes\<close>

definition dec_from :: "nat \<Rightarrow> string \<Rightarrow> nat" where
  "dec_from n ds = foldl (\<lambda>n c. n * 10 + (of_char c - 48)) n ds"

lemma parse_digits_run:
  assumes "list_all c_isdigit ds" "rest = [] \<or> \<not> c_isdigit (hd rest)"
  shows "parse_digits (ds @ rest) (of_nat n) = (of_nat (dec_from n ds), rest)"
  using assms(1)
proof (induction ds arbitrary: n)
  case Nil
  then show ?case using assms(2) by (cases rest) (auto simp: dec_from_def)
next
  case (Cons c ds)
  have c: "48 \<le> (of_char c :: nat)" using Cons.prems by (simp add: c_isdigit_def)
  have "(of_char c :: cell_t) = of_nat (of_char c)" by (simp add: of_nat_of_char)
  then have e: "of_nat n * 10 + of_char c - 48 = (of_nat (n * 10 + (of_char c - 48)) :: cell_t)"
    using c by (simp add: of_nat_diff)
  have "parse_digits ((c # ds) @ rest) (of_nat n) = parse_digits (ds @ rest) (of_nat n * 10 + of_char c - 48)"
    using Cons.prems by simp
  also have "\<dots> = (of_nat (dec_from (n * 10 + (of_char c - 48)) ds), rest)"
    unfolding e by (rule Cons.IH) (use Cons.prems in simp)
  finally show ?case by (simp add: dec_from_def)
qed

lemma unit_no_digit: "size_unit c = Some u \<Longrightarrow> \<not> c_isdigit c"
  by (auto simp: size_unit_def c_isdigit_def split: if_splits)

text \<open>
  C34. \<^verbatim>\<open>parse_size\<close> accepts exactly a (possibly empty) sequence of decimal digits with at most one unit
  letter behind it, and the size is the number times the unit, modulo \<open>2\<^sup>6\<^sup>4\<close>: numbers that do not fit are
  accepted.
\<close>

theorem parse_size_correct:
  "parse_size s = Some v \<longleftrightarrow>
     (\<exists>ds. list_all c_isdigit ds \<and> (s = ds \<and> v = of_nat (dec_from 0 ds)
        \<or> (\<exists>c u. s = ds @ [c] \<and> size_unit c = Some u \<and> v = of_nat (dec_from 0 ds) * u)))"
proof -
  have run: "parse_digits (ds @ rest) 0 = (of_nat (dec_from 0 ds), rest)"
    if "list_all c_isdigit ds" "rest = [] \<or> \<not> c_isdigit (hd rest)" for ds rest
    using parse_digits_run [OF that, of 0] by simp
  show ?thesis
  proof
    assume v: "parse_size s = Some v"
    let ?ds = "takeWhile c_isdigit s" and ?r = "dropWhile c_isdigit s"
    have ds: "list_all c_isdigit ?ds" by (auto simp: list_all_iff dest: set_takeWhileD)
    have "?r = [] \<or> \<not> c_isdigit (hd ?r)" using hd_dropWhile [of c_isdigit s] by blast
    then have "parse_digits s 0 = (of_nat (dec_from 0 ?ds), ?r)" using run [OF ds, of ?r] by simp
    then have "?r = [] \<and> v = of_nat (dec_from 0 ?ds)
        \<or> (\<exists>c u. ?r = [c] \<and> size_unit c = Some u \<and> v = of_nat (dec_from 0 ?ds) * u)"
      using v by (auto simp: parse_size_def split: list.splits option.splits if_splits)
    then show "\<exists>ds. list_all c_isdigit ds \<and> (s = ds \<and> v = of_nat (dec_from 0 ds)
        \<or> (\<exists>c u. s = ds @ [c] \<and> size_unit c = Some u \<and> v = of_nat (dec_from 0 ds) * u))"
      using ds takeWhile_dropWhile_id [of c_isdigit s] by (metis append_Nil2)
  next
    assume "\<exists>ds. list_all c_isdigit ds \<and> (s = ds \<and> v = of_nat (dec_from 0 ds)
        \<or> (\<exists>c u. s = ds @ [c] \<and> size_unit c = Some u \<and> v = of_nat (dec_from 0 ds) * u))"
    then show "parse_size s = Some v"
      using run unit_no_digit by (fastforce simp: parse_size_def dest: run [of _ "[]"])
  qed
qed

section \<open>The symbol table\<close>

lemma find_set_first:
  "find (\<lambda>s. sym_name s = n) (set_first name a ss) =
     map_option (\<lambda>s. if n = name then s\<lparr>sym_addr := a\<rparr> else s) (find (\<lambda>s. sym_name s = n) ss)"
  by (induction ss) (auto simp: option.map_ident)

text \<open>A new block is none of those the symbols refer to.\<close>

definition alloc_fresh :: "env \<Rightarrow> filemap \<Rightarrow> bool" where
  "alloc_fresh ev m \<longleftrightarrow> (\<forall>k. shmalloc ev m k \<noteq> 0
     \<and> (\<forall>s\<in>set (namelist m). sym_addr s \<notin> insert (shmalloc ev m k) {shmalloc ev m k ..< shmalloc ev m k + k}))"

definition string_symbol :: "filemap \<Rightarrow> string \<Rightarrow> bool" where
  "string_symbol m n \<longleftrightarrow> (case find (\<lambda>s. sym_name s = n) (namelist m) of
     None \<Rightarrow> True | Some s \<Rightarrow> sym_type s = SYM_TYPE_STRING \<and> sym_addr s \<noteq> 0)"

lemma sym_consts [simp]: "SYM_TYPE_STRING = 1" "SYM_TYPE_ANY = -1" "SYM_TYPE_DATA = 0"
  by (simp_all add: SYM_TYPE_STRING_def SYM_TYPE_ANY_def SYM_TYPE_DATA_def)

text \<open>One name and value of \<^verbatim>\<open>share set\<close>.\<close>

definition set_one :: "env \<Rightarrow> string \<Rightarrow> string \<Rightarrow> filemap \<Rightarrow> filemap" where
  "set_one ev name val m =
     (if get_symbol m name SYM_TYPE_ANY \<noteq> 0
      then snd (set_symbol ev m name (0, val) SYM_TYPE_STRING)
      else snd (add_symbol ev m name (0, val) SYM_TYPE_STRING))"

lemma alloc_freshD:
  assumes "alloc_fresh ev m"
  shows "shmalloc ev m k \<noteq> 0" "s \<in> set (namelist m) \<Longrightarrow> sym_addr s \<noteq> shmalloc ev m k"
    "s \<in> set (namelist m) \<Longrightarrow> j < k \<Longrightarrow> sym_addr s \<noteq> shmalloc ev m k + j"
proof -
  have *: "shmalloc ev m k \<noteq> 0 \<and> (\<forall>s\<in>set (namelist m). sym_addr s \<notin> insert (shmalloc ev m k) {shmalloc ev m k ..< shmalloc ev m k + k})" for k
    using assms unfolding alloc_fresh_def by blast
  show "shmalloc ev m k \<noteq> 0" "s \<in> set (namelist m) \<Longrightarrow> sym_addr s \<noteq> shmalloc ev m k" using * by auto
  show "sym_addr s \<noteq> shmalloc ev m k + j" if "s \<in> set (namelist m)" "j < k" using * [of k] that by force
qed

lemma set_one_cases:
  assumes "alloc_fresh ev m" "string_symbol m name"
  obtains s where "find (\<lambda>s. sym_name s = name) (namelist m) = Some s" "sym_type s = 1"
      "set_one ev name val m = m\<lparr>block_size := (block_size m)(shmalloc ev m (length val) := length val),
         text_at := (text_at m)(shmalloc ev m (length val) := val),
         namelist := set_first name (shmalloc ev m (length val)) (namelist m)\<rparr>"
    | len where "find (\<lambda>s. sym_name s = name) (namelist m) = None" "len = 26 + length name + length val"
      "set_one ev name val m = m\<lparr>block_size := (block_size m)(shmalloc ev m len := len),
         text_at := (text_at m)(shmalloc ev m len + 20 + length name + 1 := val),
         namelist := \<lparr>sym_name = name, sym_addr = shmalloc ev m len + 20 + length name + 1, sym_type = 1\<rparr> # namelist m\<rparr>"
  using assms(2)
  by (cases "find (\<lambda>s. sym_name s = name) (namelist m)")
    (auto simp: set_one_def get_symbol_def set_symbol_def add_symbol_def string_symbol_def Let_def add_ac
      alloc_freshD(1) [OF assms(1)] simp del: neq0_conv)

lemma set_one_get:
  assumes "alloc_fresh ev m" "string_symbol m name"
  shows "get_symbol (set_one ev name val m) name 1 \<noteq> 0
    \<and> text_at (set_one ev name val m) (get_symbol (set_one ev name val m) name 1) = val"
proof (cases rule: set_one_cases [OF assms, where val = val])
  case (1 s)
  then show ?thesis using alloc_freshD(1) [OF assms(1)] by (simp add: get_symbol_def find_set_first)
next
  case (2 len)
  then show ?thesis by (simp add: get_symbol_def)
qed

lemma set_one_other:
  assumes "alloc_fresh ev m" "string_symbol m name" "n \<noteq> name"
  shows "get_symbol (set_one ev name val m) n w = get_symbol m n w
    \<and> (get_symbol m n w \<noteq> 0 \<longrightarrow> text_at (set_one ev name val m) (get_symbol m n w) = text_at m (get_symbol m n w))"
proof -
  have mem: "\<exists>s\<in>set (namelist m). get_symbol m n w = sym_addr s" if "get_symbol m n w \<noteq> 0"
    using that by (auto simp: get_symbol_def split: option.splits if_splits dest!: find_SomeD)
  show ?thesis
  proof (cases rule: set_one_cases [OF assms(1, 2), where val = val])
    case (1 s)
    then have "get_symbol (set_one ev name val m) n w = get_symbol m n w"
      using assms(3) by (simp add: get_symbol_def find_set_first option.map_ident)
    moreover have "get_symbol m n w \<noteq> shmalloc ev m (length val)" if "get_symbol m n w \<noteq> 0"
      using mem [OF that] alloc_freshD(2) [OF assms(1)] by metis
    ultimately show ?thesis unfolding 1(3) by simp
  next
    case (2 len)
    have "20 + length name + 1 < len" using 2(2) by simp
    then have "\<forall>s\<in>set (namelist m). sym_addr s \<noteq> shmalloc ev m len + (20 + length name + 1)"
      using alloc_freshD(3) [OF assms(1)] by blast
    moreover have "get_symbol (set_one ev name val m) n w = get_symbol m n w"
      using 2(3) assms(3) by (simp add: get_symbol_def)
    moreover have "get_symbol m n w \<noteq> shmalloc ev m len + 20 + length name + 1" if "get_symbol m n w \<noteq> 0"
      using mem [OF that] calculation(1) by (metis add.assoc)
    ultimately show ?thesis unfolding 2(3) by simp
  qed
qed

section \<open>Well-formed processes\<close>

text \<open>
  Every share has a name, its own address and its own file, is attached at least once, and its file is
  mapped.  \<^verbatim>\<open>share_base\<close> only matters to attaching.
\<close>

definition share_wf :: "share_proc \<Rightarrow> bool" where
  "share_wf st \<longleftrightarrow> (\<forall>s\<in>set (share_list st). shm_name s \<noteq> None \<and> attach_count s \<ge> 1 \<and> shm_id s < next_shm st
       \<and> files st (shm_file s) \<noteq> None)
     \<and> distinct (map shm_id (share_list st)) \<and> distinct (map shm_file (share_list st))"

lemma share_wfD:
  assumes "share_wf st" "s \<in> set (share_list st)"
  shows "shm_name s \<noteq> None" "attach_count s \<ge> 1" "shm_id s < next_shm st" "files st (shm_file s) \<noteq> None"
  using assms by (auto simp: share_wf_def)

text \<open>A change of a share that leaves its identity alone.\<close>

lemma upd_share_simps [simp]:
  "files (upd_share a f st) = files st" "next_shm (upd_share a f st) = next_shm st"
  "share_base (upd_share a f st) = share_base st" "autoshare (upd_share a f st) = autoshare st"
  by (simp_all add: upd_share_def)

lemma upd_share_wf:
  assumes "share_wf st"
    and "\<And>s. s \<in> set (share_list st) \<Longrightarrow> shm_id s = a \<Longrightarrow> shm_name (f s) \<noteq> None \<and> attach_count (f s) \<ge> 1
      \<and> shm_id (f s) = shm_id s \<and> shm_file (f s) = shm_file s"
  shows "share_wf (upd_share a f st)"
proof -
  have m: "map shm_id (share_list (upd_share a f st)) = map shm_id (share_list st)"
    "map shm_file (share_list (upd_share a f st)) = map shm_file (share_list st)"
    using assms(2) by (auto simp: upd_share_def)
  show ?thesis
    unfolding share_wf_def m using assms unfolding share_wf_def by (auto simp: upd_share_def split: if_splits)
qed

lemma upd_share_in: "s \<in> set (share_list st) \<Longrightarrow> shm_id s = a \<Longrightarrow> f s \<in> set (share_list (upd_share a f st))"
  by (auto simp: upd_share_def intro!: image_eqI [of _ _ s])

lemma set_map_wf: "share_wf st \<Longrightarrow> share_wf (set_map s m st)"
  by (auto simp: share_wf_def set_map_def)

lemma find_share_Some: "find_share a st = Some s \<Longrightarrow> s \<in> set (share_list st) \<and> shm_id s = a"
  unfolding find_share_def by (auto dest: find_SomeD)

lemma share_unique: "share_wf st \<Longrightarrow> s \<in> set (share_list st) \<Longrightarrow> s' \<in> set (share_list st) \<Longrightarrow> shm_id s = shm_id s' \<Longrightarrow> s = s'"
  by (auto simp: share_wf_def distinct_map inj_on_def)

lemma filter_wf: "share_wf st \<Longrightarrow> share_wf (st\<lparr>share_list := filter P (share_list st)\<rparr>)"
  by (auto simp: share_wf_def distinct_map_filter)

text \<open>\<^verbatim>\<open>unmap_file\<close>: one attachment less, or the share is gone from the list.\<close>

definition forget_share :: "addr \<Rightarrow> share_proc \<Rightarrow> share_proc" where
  "forget_share a st = st\<lparr>share_list := filter (\<lambda>s. shm_id s \<noteq> a) (share_list st)\<rparr>"

lemma forget_upd:
  assumes "\<And>s. shm_id (f s) = shm_id s"
  shows "forget_share a (upd_share a f st) = forget_share a st"
proof -
  have "filter (\<lambda>s. shm_id s \<noteq> a) (map (\<lambda>s. if shm_id s = a then f s else s) xs) = filter (\<lambda>s. shm_id s \<noteq> a) xs" for xs
    using assms by (induction xs) auto
  then show ?thesis by (simp add: forget_share_def upd_share_def)
qed

lemma forget_simps [simp]:
  "files (forget_share a st) = files st" "next_shm (forget_share a st) = next_shm st"
  by (simp_all add: forget_share_def)

lemma forget_wf: "share_wf st \<Longrightarrow> share_wf (forget_share a st)"
  unfolding forget_share_def by (rule filter_wf)

lemma upd_share_ids:
  assumes "\<And>s. shm_id (f s) = shm_id s"
  shows "shm_id ` set (share_list (upd_share a f st)) = shm_id ` set (share_list st)"
proof -
  have "map shm_id (share_list (upd_share a f st)) = map shm_id (share_list st)" using assms by (simp add: upd_share_def)
  then show ?thesis by (metis list.set_map)
qed

lemma unmap_cases:
  assumes "s \<in> set (share_list st)" "shm_objects s = []"
  shows "fst (unmap_file ev s st) = 1
    \<and> (attach_count s > 1 \<and> snd (unmap_file ev s st) = upd_share (shm_id s) (\<lambda>s. s\<lparr>attach_count := attach_count s - 1\<rparr>) st
      \<or> attach_count s \<le> 1 \<and> (snd (unmap_file ev s st) = forget_share (shm_id s) st
          \<or> (\<exists>m. snd (unmap_file ev s st) = set_map s m (forget_share (shm_id s) st))))"
proof -
  let ?f = "\<lambda>s. s\<lparr>attach_count := attach_count s - 1\<rparr>"
  let ?st1 = "upd_share (shm_id s) ?f st"
  have "forget_share (shm_id s) ?st1 = forget_share (shm_id s) st" by (rule forget_upd) simp
  moreover have "shm_id s \<in> shm_id ` set (share_list ?st1)"
    using assms(1) upd_share_ids [of ?f "shm_id s" st] by simp
  ultimately show ?thesis
    using assms(2) by (auto simp: unmap_file_def Let_def forget_share_def split: option.splits)
qed

text \<open>The error exits of \<^verbatim>\<open>doCreateOrAttach\<close> and \<^verbatim>\<open>share detach\<close>: the state stays well formed.\<close>

lemma unmap_wf:
  assumes "share_wf (forget_share (shm_id s) st)" "s \<in> set (share_list st)" "attach_count s > 1 \<or> shm_objects s \<noteq> [] \<Longrightarrow> share_wf st"
  shows "share_wf (snd (unmap_file ev s st))"
proof (cases "shm_objects s = []")
  case True
  then consider "attach_count s > 1" "snd (unmap_file ev s st) = upd_share (shm_id s) (\<lambda>s. s\<lparr>attach_count := attach_count s - 1\<rparr>) st"
    | "snd (unmap_file ev s st) = forget_share (shm_id s) st"
    | m where "snd (unmap_file ev s st) = set_map s m (forget_share (shm_id s) st)"
    using unmap_cases [OF assms(2), of ev] by blast
  then show ?thesis
  proof cases
    case 1
    have wf: "share_wf st" using assms(3) 1(1) by blast
    have "sa = s" if "sa \<in> set (share_list st)" "shm_id sa = shm_id s" for sa
      using share_unique [OF wf that(1) assms(2) that(2)] .
    then show ?thesis unfolding 1(2) using share_wfD(1) [OF wf] 1(1) by (intro upd_share_wf [OF wf]) auto
  qed (use assms(1) set_map_wf in auto)
next
  case False
  then show ?thesis using assms(3) by (simp add: unmap_file_def)
qed

lemma find_upd_share:
  assumes "\<And>s. shm_id (f s) = shm_id s"
  shows "find_share a (upd_share b f st) = map_option (\<lambda>s. if shm_id s = b then f s else s) (find_share a st)"
proof -
  have "find (\<lambda>s. shm_id s = a) (map (\<lambda>s. if shm_id s = b then f s else s) xs)
      = map_option (\<lambda>s. if shm_id s = b then f s else s) (find (\<lambda>s. shm_id s = a) xs)" for xs
    using assms by (induction xs) auto
  then show ?thesis by (simp add: find_share_def upd_share_def)
qed

text \<open>A share that was just made stands in front, under an address of its own.\<close>

definition fresh_share :: "share_proc \<Rightarrow> shm_t \<Rightarrow> share_proc \<Rightarrow> bool" where
  "fresh_share st p st1 \<longleftrightarrow> share_list st1 = p # share_list st \<and> shm_id p = next_shm st \<and> next_shm st1 = next_shm st + 1
     \<and> shm_file p \<notin> shm_file ` set (share_list st) \<and> files st1 (shm_file p) \<noteq> None
     \<and> (\<forall>g. files st g \<noteq> None \<longrightarrow> files st1 g \<noteq> None) \<and> attach_count p = 1 \<and> shm_objects p = []"

lemma fresh_upd:
  assumes "share_wf st" "fresh_share st p st1" "shm_id (f p) = shm_id p" "shm_file (f p) = shm_file p"
    "attach_count (f p) = 1" "shm_objects (f p) = []"
  shows "fresh_share st (f p) (upd_share (next_shm st) f st1)"
proof -
  have "map (\<lambda>s. if shm_id s = next_shm st then f s else s) (share_list st) = share_list st"
    by (intro map_idI) (fastforce dest: share_wfD(3) [OF assms(1)])
  then show ?thesis using assms(2-) by (auto simp: fresh_share_def upd_share_def)
qed

lemma fresh_set_map: "fresh_share st p st1 \<Longrightarrow> fresh_share st p (set_map s m st1)"
  by (auto simp: fresh_share_def set_map_def)

lemma fresh_wf:
  assumes "share_wf st" "fresh_share st p st1"
  shows "shm_name p \<noteq> None \<Longrightarrow> share_wf st1" and "share_wf (forget_share (next_shm st) st1)"
    and "find_share (next_shm st) st1 = Some p"
proof -
  note D = share_wfD [OF assms(1)] assms(2) [unfolded fresh_share_def]
  have d: "distinct (map shm_id (share_list st))" "distinct (map shm_file (share_list st))"
    using assms(1) by (auto simp: share_wf_def)
  have n: "next_shm st \<notin> shm_id ` set (share_list st)" using D(3) by fastforce
  have old: "\<forall>s\<in>set (share_list st). shm_name s \<noteq> None \<and> attach_count s \<ge> 1 \<and> shm_id s < next_shm st1
       \<and> files st1 (shm_file s) \<noteq> None" using D by (metis less_Suc_eq Suc_eq_plus1)
  then show "shm_name p \<noteq> None \<Longrightarrow> share_wf st1" using d n D(5) unfolding share_wf_def by auto
  have "share_list (forget_share (next_shm st) st1) = share_list st"
  proof -
    have "shm_id x \<noteq> next_shm st" if "x \<in> set (share_list st)" for x using n that by force
    then show ?thesis using D(5) by (simp add: forget_share_def filter_id_conv)
  qed
  then show "share_wf (forget_share (next_shm st) st1)" using old d unfolding share_wf_def by simp
  show "find_share (next_shm st) st1 = Some p" using D(5) by (simp add: find_share_def)
qed

lemma map_file_cases:
  assumes wf: "share_wf st" and m: "map_file ev file a sz flags create st = (r, st1)"
  shows "r = None \<and> st1 = st
    \<or> (\<exists>p. r = Some (shm_id p) \<and> p \<in> set (share_list st1) \<and> share_wf st1 \<and> attach_count p > 1 \<and> shm_file p = file
          \<and> shm_name p \<noteq> None)
    \<or> (\<exists>p. r = Some (next_shm st) \<and> fresh_share st p st1 \<and> shm_name p = None)"
proof (cases "find (\<lambda>p. shm_file p = file) (share_list st)")
  case None
  then have "file \<notin> shm_file ` set (share_list st)" by (auto simp: find_None_iff)
  then show ?thesis
    using m None by (auto simp: map_file_def Let_def set_map_def fresh_share_def split: if_splits)
next
  case (Some p)
  then have p: "p \<in> set (share_list st)" "shm_file p = file" by (auto dest: find_SomeD)
  let ?f = "\<lambda>s. s\<lparr>attach_count := attach_count s + 1\<rparr>"
  have "share_wf (upd_share (shm_id p) ?f st)"
    using share_wfD(1, 2) [OF wf] by (intro upd_share_wf [OF wf]) fastforce
  moreover have "?f p \<in> set (share_list (upd_share (shm_id p) ?f st))" 
    using upd_share_in [OF p(1) refl, of ?f] by simp
  moreover have "attach_count (?f p) > 1" "shm_name (?f p) \<noteq> None" using share_wfD [OF wf p(1)] by auto
  moreover have "r = None \<and> st1 = st \<or> r = Some (shm_id (?f p)) \<and> st1 = upd_share (shm_id p) ?f st"
    using m Some by (auto simp: map_file_def split: if_splits)
  moreover have "shm_file (?f p) = file" using p(2) by simp
  ultimately show ?thesis by blast
qed

lemma shminitmap_fresh:
  assumes "share_wf st" "fresh_share st p st1" "shm_id s = next_shm st"
  shows "fresh_share st (p\<lparr>shm_master := Some (shminit_master (strike ev)), shm_creator := True\<rparr>) (shminitmap ev s st1)"
  unfolding shminitmap_def Let_def assms(3)
  by (rule fresh_upd [OF assms(1) fresh_set_map [OF assms(2)]]) (use assms(2) in \<open>auto simp: fresh_share_def\<close>)

lemma create_attach_wf:
  assumes wf: "share_wf st0" and d: "doCreateOrAttach ev sharename filename sz flags st0 = (r, st')"
  shows "r \<noteq> RCrash \<and> share_wf st'"
proof -
  define nm where "nm = (if sharename = ''#auto'' then ''share'' @ format_int (autoshare st0 + 1) else sharename)"
  define st where "st = (if sharename = ''#auto'' then st0\<lparr>autoshare := autoshare st0 + 1\<rparr> else st0)"
  define sz' where "sz' = (if sz = ATTACH_ONLY then 0 else sz)"
  define cr where "cr \<longleftrightarrow> sz \<noteq> ATTACH_ONLY"
  obtain m st1 where mf: "map_file ev filename (share_base st) sz' flags cr st = (m, st1)" by fastforce
  have wf1: "share_wf st" using wf by (simp add: st_def share_wf_def)
  note d' = d [unfolded doCreateOrAttach_def Let_def, folded cr_def sz'_def]
  from map_file_cases [OF wf1 mf] consider "m = None" "st1 = st"
    | p where "m = Some (shm_id p)" "p \<in> set (share_list st1)" "share_wf st1" "attach_count p > 1" "shm_name p \<noteq> None"
    | p where "m = Some (next_shm st)" "fresh_share st p st1" "shm_name p = None"
    by blast
  then show ?thesis
  proof cases
    case 1
    then have "r = RError Shmem_Error \<and> st' = st"
      using d' mf by (auto simp: st_def nm_def split: if_splits)
    then show ?thesis using wf1 by simp
  next
    case 2
    have fp: "find_share (shm_id p) st1 = Some p"
    proof -
      obtain p' where p': "find_share (shm_id p) st1 = Some p'"
        using 2(2) unfolding find_share_def by (metis (mono_tags, lifting) find_None_iff not_None_eq)
      then show ?thesis using share_unique [OF 2(3) _ 2(2)] find_share_Some by blast
    qed
    have w: "share_wf (snd (unmap_file ev p st1))"
      by (rule unmap_wf [OF forget_wf [OF 2(3)] 2(2)]) (rule 2(3))
    have u: "share_wf (upd_share (shm_id p) (\<lambda>s. s\<lparr>shm_size := x\<rparr>) st1)" for x
      using share_wfD(1, 2) [OF 2(3)] by (intro upd_share_wf [OF 2(3)]) auto
    show ?thesis
      using d' mf 2(1, 5) fp w u by (auto simp: st_def split: if_splits)
  next
    case 3
    note F = fresh_wf [OF wf1 3(2)]
    have p: "shm_id p = next_shm st" "attach_count p = 1" "shm_objects p = []" "p \<in> set (share_list st1)"
      using 3(2) by (auto simp: fresh_share_def)
    have w: "share_wf (snd (unmap_file ev p st1))"
      by (rule unmap_wf) (use F(2) p in auto)
    have g: "share_wf (upd_share (next_shm st) (\<lambda>s. s\<lparr>shm_name := Some n\<rparr>) st2)" if "fresh_share st q st2" for q st2 n
      by (rule fresh_wf(1) [OF wf1 fresh_upd [OF wf1 that]]) (use that in \<open>auto simp: fresh_share_def\<close>)
    have i: "share_wf (upd_share (next_shm st) (\<lambda>s. s\<lparr>shm_name := Some n\<rparr>) (shminitmap ev p st1))" for n
      by (rule g [OF shminitmap_fresh [OF wf1 3(2) p(1)]])
    have j: "share_wf (upd_share (next_shm st) (\<lambda>s. s\<lparr>shm_name := Some n\<rparr>) (upd_share (next_shm st) (\<lambda>s. s\<lparr>shm_size := x\<rparr>) st1))" for n x
      by (rule g [OF fresh_upd [OF wf1 3(2)]]) (use 3(2) in \<open>auto simp: fresh_share_def\<close>)
    show ?thesis
      using d' mf 3(1, 3) F(3) w i j by (auto simp: st_def split: if_splits)
  qed
qed

lemma lookup_named:
  "\<forall>s\<in>set ss. shm_name s \<noteq> None \<Longrightarrow> lookup_share c n ss \<noteq> None"
  by (induction c n ss rule: lookup_share.induct) (auto split: option.splits)

lemma lookup_in: "lookup_share c n ss = Some (Some s) \<Longrightarrow> s \<in> set ss"
  by (induction c n ss rule: lookup_share.induct) (auto split: option.splits if_splits)

lemma detach_wf:
  assumes wf: "share_wf st" and s: "s \<in> set (share_list st)" "attach_count s = 1 \<or> shm_objects s \<noteq> []"
  shows "fst (doDetach ev s st) \<noteq> RCrash \<and> share_wf (snd (doDetach ev s st))"
proof (cases "shm_objects s = []")
  case True
  let ?f = "\<lambda>s. s\<lparr>shm_name := None\<rparr>"
  let ?st1 = "upd_share (shm_id s) ?f st"
  have in1: "?f s \<in> set (share_list ?st1)" using upd_share_in [OF s(1)] by simp
  have "forget_share (shm_id s) ?st1 = forget_share (shm_id s) st" by (rule forget_upd) simp
  then have "share_wf (forget_share (shm_id (?f s)) ?st1)" using forget_wf [OF wf] by simp
  from unmap_wf [OF this in1] have "share_wf (snd (unmap_file ev (?f s) ?st1))" using s(2) True by auto
  then show ?thesis using True by (auto simp: doDetach_def Let_def split: prod.splits)
next
  case False
  then show ?thesis using wf by (simp add: doDetach_def)
qed

lemma append_elements_names: "share_wf st \<Longrightarrow> append_elements (map shm_name (share_list st)) \<noteq> RCrash"
  by (auto simp: append_elements_def dest!: share_wfD(1) [rotated])

lemma multiget_no_crash: "multiget_loop m ns acc \<noteq> RCrash"
  by (induction m ns acc rule: multiget_loop.induct) (auto simp: Let_def)

lemma share_set_wf: "share_wf st \<Longrightarrow> fst (share_set ev objv n s st) \<noteq> RCrash \<and> share_wf (snd (share_set ev objv n s st))"
  by (auto simp: share_set_def set_map_wf)

lemma share_list_no_crash: "share_wf st \<Longrightarrow> share_list_cmd sh st \<noteq> RCrash"
  using append_elements_names by (auto simp: share_list_cmd_def split: option.splits)

lemma create_wf:
  assumes "share_wf st"
  shows "fst (share_create ev objv n sh st) \<noteq> RCrash \<and> share_wf (snd (share_create ev objv n sh st))"
    and "fst (share_attach ev objv n sh st) \<noteq> RCrash \<and> share_wf (snd (share_attach ev objv n sh st))"
  using assms create_attach_wf [OF assms]
  by (auto simp: share_create_def share_attach_def split: option.splits) (metis prod.collapse)+

lemma dispatch_safe:
  assumes "share_wf st" "objv ! 1 \<in> set share_commands"
    and "share = None \<Longrightarrow> objv ! 1 \<in> {''create'', ''attach'', ''list''}"
    and "\<And>s. share = Some s \<Longrightarrow> s \<in> set (share_list st) \<and> (objv ! 1 = ''detach'' \<longrightarrow> attach_count s = 1 \<or> shm_objects s \<noteq> [])"
  shows "fst (share_dispatch ev objv n share st) \<noteq> RCrash \<and> share_wf (snd (share_dispatch ev objv n share st))"
proof (cases share)
  case None
  then show ?thesis
    using assms(1, 3) create_wf [OF assms(1)] share_list_no_crash [OF assms(1)] by (auto simp: share_dispatch_def Let_def)
next
  case (Some s)
  then have "shm_name s \<noteq> None" using assms(4) share_wfD(1) [OF assms(1)] by blast
  then have "share_info ev s \<noteq> RCrash" by (auto simp: share_info_def append_elements_def)
  moreover have "objv ! 1 = ''detach'' \<Longrightarrow> fst (doDetach ev s st) \<noteq> RCrash \<and> share_wf (snd (doDetach ev s st))"
    using detach_wf [OF assms(1)] assms(4) [OF Some] by blast
  ultimately show ?thesis
    using Some assms(1) create_wf [OF assms(1)] share_list_no_crash [OF assms(1)] share_set_wf [OF assms(1)] multiget_no_crash
    by (auto simp: share_dispatch_def Let_def share_names_def share_get_def)
qed

section \<open>Properties of the command\<close>


text \<open>
  The exception is real: when a file was attached twice by a process, detaching the share once takes
  its name away but leaves it in the list, and the next listing of the shares passes \<^verbatim>\<open>NULL\<close> to Tcl.
\<close>

theorem detach_leaves_nameless:
  assumes "share_wf st" and "lookup_share (client_data ev) n (share_list st) = Some (Some s)"
    and "attach_count s > 1" and "shm_objects s = []"
  shows "fst (shareCmd ev [cmd, ''detach'', n] st) = ROk []
    \<and> fst (shareCmd ev [cmd, ''list''] (snd (shareCmd ev [cmd, ''detach'', n] st))) = RCrash"
proof -
  have ln: "lookup_share c n ss \<noteq> None" if "\<forall>s\<in>set ss. shm_name s \<noteq> None" for c n ss
    using lookup_named that .
  have s: "s \<in> set (share_list st)" using lookup_in assms(2) .
  let ?f = "\<lambda>s. s\<lparr>shm_name := None\<rparr>" and ?g = "\<lambda>s. s\<lparr>attach_count := attach_count s - 1\<rparr>"
  let ?st1 = "upd_share (shm_id s) ?f st"
  have in1: "?f s \<in> set (share_list ?st1)" using upd_share_in [OF s] by simp
  then have u: "unmap_file ev (?f s) ?st1 = (1, upd_share (shm_id s) ?g ?st1)"
    using unmap_cases [OF in1, of ev] assms(3, 4) by (auto intro: prod_eqI)
  have d: "shareCmd ev [cmd, ''detach'', n] st = (ROk [], upd_share (shm_id s) ?g ?st1)"
    using assms(2, 4) u by (simp add: shareCmd_def share_dispatch_def share_commands_def doDetach_def Let_def)
  have "?g (?f s) \<in> set (share_list (upd_share (shm_id s) ?g ?st1))"
    using in1 by (rule upd_share_in) simp
  then have "None \<in> set (map shm_name (share_list (upd_share (shm_id s) ?g ?st1)))"
    by (auto intro!: image_eqI [of _ _ "?g (?f s)"])
  then show ?thesis unfolding d
    by (simp add: shareCmd_def share_dispatch_def share_commands_def share_list_cmd_def append_elements_def del: set_map)
qed


text \<open>
  The block of a string value: \<^verbatim>\<open>add_symbol\<close> allocates room for its terminator, \<^verbatim>\<open>set_symbol\<close> does not:
  whenever it replaces a string, the copy with its terminator is one byte longer than its block.
\<close>

theorem symbol_room:
  assumes "add_symbol ev m name (0, val) SYM_TYPE_STRING = (1, m1)"
    and "set_symbol ev m1 name (0, val') SYM_TYPE_STRING = (1, m2)"
  shows "get_symbol m1 name SYM_TYPE_STRING + length val + 1 \<le> shmalloc ev m (26 + length name + length val)
        + block_size m1 (shmalloc ev m (26 + length name + length val))
    \<and> text_at m1 (get_symbol m1 name SYM_TYPE_STRING) = val
    \<and> text_at m2 (get_symbol m2 name SYM_TYPE_STRING) = val'
    \<and> block_size m2 (get_symbol m2 name SYM_TYPE_STRING) = length val'"
proof -
  let ?len = "26 + length name + length val"
  let ?s = "shmalloc ev m ?len"
  have len: "24 + length name + 1 + (length val + 1) = ?len" by simp
  have m1: "m1 = m\<lparr>block_size := (block_size m)(?s := ?len), text_at := (text_at m)(?s + 20 + length name + 1 := val),
      namelist := \<lparr>sym_name = name, sym_addr = ?s + 20 + length name + 1, sym_type = 1\<rparr> # namelist m\<rparr>"
    using assms(1) unfolding add_symbol_def sym_consts Let_def snd_conv if_True simp_thms len
    by (simp split: if_splits)
  let ?c = "shmalloc ev m1 (length val')"
  have m2: "m2 = m1\<lparr>block_size := (block_size m1)(?c := length val'), text_at := (text_at m1)(?c := val'),
      namelist := set_first name ?c (namelist m1)\<rparr>"
    using assms(2) by (simp add: set_symbol_def m1 Let_def split: if_splits)
  have g: "get_symbol m1 name 1 = ?s + 20 + length name + 1" "get_symbol m2 name 1 = ?c"
    by (simp_all add: get_symbol_def m2, simp_all add: m1)
  have "block_size m1 ?s = ?len" "text_at m1 (?s + 20 + length name + 1) = val" by (simp_all add: m1)
  moreover have "block_size m2 ?c = length val'" "text_at m2 ?c = val'" by (simp_all add: m2)
  ultimately show ?thesis unfolding sym_consts g by simp
qed

text \<open>A process to apply the theorems to: one share, attached twice, whose file has no symbols yet.\<close>

definition sample_env :: env where
  "sample_env = \<lparr>opens = (\<lambda>c f. True), shmalloc = (\<lambda>m k. 5000 * (1 + length (namelist m))), free_memory = (\<lambda>m. 0),
     getpid = 7, strike = 0, client_data = 0, map_pointer = (\<lambda>f. 4096)\<rparr>"

definition sample_share :: shm_t where
  "sample_share = \<lparr>shm_id = 1, shm_file = ''f'', shm_base = 4096, shm_size = 1024, shm_flags = 0, shm_creator = True,
     shm_name = Some ''a'', attach_count = 2, shm_objects = [], shm_master = Some (shminit_master 0)\<rparr>"

definition sample_proc :: share_proc where
  "sample_proc = \<lparr>autoshare = 0, share_base = 4096, share_list = [sample_share], files = [''f'' \<mapsto> zero_map], next_shm = 2\<rparr>"

lemma sample_wf: "share_wf sample_proc"
  by (simp add: share_wf_def sample_proc_def sample_share_def)


lemma sample_lookup: "lookup_share (client_data sample_env) ''a'' (share_list sample_proc) = Some (Some sample_share)"
  by (simp add: sample_env_def sample_proc_def sample_share_def)

lemma detach_leaves_nameless_witness:
  "fst (shareCmd sample_env [''share'', ''list''] (snd (shareCmd sample_env [''share'', ''detach'', ''a''] sample_proc))) = RCrash"
  using detach_leaves_nameless [OF sample_wf sample_lookup] by (simp add: sample_share_def)


lemma symbol_room_witness:
  "block_size (snd (set_symbol sample_env (snd (add_symbol sample_env zero_map ''n'' (0, ''v'') SYM_TYPE_STRING)) ''n'' (0, ''wxyz'') SYM_TYPE_STRING))
     (get_symbol (snd (set_symbol sample_env (snd (add_symbol sample_env zero_map ''n'' (0, ''v'') SYM_TYPE_STRING)) ''n'' (0, ''wxyz'') SYM_TYPE_STRING))
       ''n'' SYM_TYPE_STRING) = 4"
proof -
  let ?a = "add_symbol sample_env zero_map ''n'' (0, ''v'') SYM_TYPE_STRING"
  let ?b = "set_symbol sample_env (snd ?a) ''n'' (0, ''wxyz'') SYM_TYPE_STRING"
  have a: "?a = (1, snd ?a)" by (simp add: add_symbol_def sample_env_def Let_def)
  have b: "?b = (1, snd ?b)" by (simp add: set_symbol_def add_symbol_def sample_env_def Let_def)
  from symbol_room [OF a b] show ?thesis by simp
qed

text \<open>\<^verbatim>\<open>unmap_all\<close> ends with an empty list, whatever could not be unmapped.\<close>

lemma unmap_all_empty: "share_list (unmap_all ev st) = []"
proof -
  have "share_list (unmap_loop ev ss st) = []" if "ss \<noteq> [] \<or> share_list st = []" for ss st
    using that by (induction ev ss st rule: unmap_loop.induct) auto
  then show ?thesis by (simp add: unmap_all_def)
qed

end
