(* ===== verification/TableIndex.thy ===== *)
theory TableIndex
  imports SkipList
begin

text \<open>
  The indexes of a table, \<^verbatim>\<open>ctables/ctable_search.c\<close> from \<^verbatim>\<open>ctable_DropIndex\<close> to
  \<^verbatim>\<open>ctable_LappendIndexLowAndHi\<close>.  An index of a field is a skip list whose nodes head the lists of the
  rows of equal key; every row is in list 0, the list of all rows, and in one such list per index.  All
  lists live in one memory, which the skip lists of all fields share.
\<close>

section \<open>State\<close>

text \<open>What the generated code knows of the fields (\<^verbatim>\<open>ctable_CreatorTable\<close>, \<^verbatim>\<open>ctable_FieldInfo\<close>).\<close>

record creator =
  nFields :: nat
  indexNumber :: "nat \<Rightarrow> int"
  compareFunction :: "nat \<Rightarrow> addr cmp_t"
  unique :: "nat \<Rightarrow> bool"

text \<open>
  A table: its rows are in list 0, whose head is the word at address \<open>ll_head\<close>.  The skip lists are
  kept without the memory and the random generator, which they share (\<open>slist\<close> and \<open>slev\<close> are only
  looked at after \<open>with_mem\<close>).
\<close>

record ctable =
  tmem :: list_mem
  ll_head :: addr
  skipLists :: "nat \<Rightarrow> skiplist option"
  share_reader :: bool
  tlevel :: level_state

definition with_mem :: "list_mem \<Rightarrow> ctable \<Rightarrow> skiplist \<Rightarrow> skiplist" where
  "with_mem m t sk = sk\<lparr>slist := m, slev := tlevel t\<rparr>"

definition put_skip :: "nat \<Rightarrow> skiplist \<Rightarrow> ctable \<Rightarrow> ctable" where
  "put_skip f sk t = t\<lparr>tmem := slist sk, tlevel := slev sk, skipLists := (skipLists t)(f := Some sk)\<rparr>"

text \<open>Errors; \<open>Double_Insert\<close> and \<open>List_Failure\<close> are panics, the others messages of a Tcl error.\<close>

datatype index_error = Unique_Check_Failed nat | Not_Indexable nat | Read_Only_Table | No_Index | Append_Failed
  | Double_Insert nat | List_Failure list_error

section \<open>Operations\<close>

text \<open>
  \<^verbatim>\<open>ctable_InsertIntoIndex\<close>; \<open>a\<close> is the address a new node gets.  The outer option is \<open>None\<close> when the
  code does not return, the error is \<open>None\<close> for \<^verbatim>\<open>TCL_OK\<close>.
\<close>

definition ctable_InsertIntoIndex :: "creator \<Rightarrow> bool \<Rightarrow> addr \<Rightarrow> addr \<Rightarrow> nat \<Rightarrow> ctable \<Rightarrow> (index_error option \<times> ctable) option" where
  "ctable_InsertIntoIndex cr sanity a row field t =
     (case skipLists t field of
        None \<Rightarrow> Some (None, t)
      | Some skip \<Rightarrow>
          let index = nat (indexNumber cr field)
          in if lprev (tmem t) row index \<noteq> None then Some (Some (Double_Insert field), t)
             else Option.bind (jsw_sinsert_linked sanity (compareFunction cr field) a (with_mem (tmem t) t skip) row index (unique cr field))
               (\<lambda>r. Some (case r of
                  Inl e \<Rightarrow> (Some (List_Failure e), t)
                | Inr (ok, skip') \<Rightarrow> (if ok = 0 then Some (Unique_Check_Failed field) else None, put_skip field skip' t))))"

text \<open>
  \<^verbatim>\<open>ctable_RemoveFromIndex\<close>.  When the row was the last of its list, it is put back under the head of
  the list so that the comparison finds the node, and the head is cleared again after the node was
  unlinked (and freed).  The message for a node that is not found is not part of the state.
\<close>

definition ctable_RemoveFromIndex :: "creator \<Rightarrow> bool \<Rightarrow> addr \<Rightarrow> nat \<Rightarrow> ctable \<Rightarrow> (index_error option \<times> ctable) option" where
  "ctable_RemoveFromIndex cr sanity row field t =
     (case skipLists t field of
        None \<Rightarrow> Some (None, t)
      | Some skip \<Rightarrow>
          let index = nat (indexNumber cr field)
          in if lprev (tmem t) row index = None then Some (None, t)
             else case ctable_ListRemoveMightBeTheLastOne sanity (tmem t) row index of
               Inl e \<Rightarrow> Some (Some (List_Failure e), t)
             | Inr (ws, might) \<Rightarrow>
                 let m = run_writes ws (tmem t); t1 = t\<lparr>tmem := m\<rparr>
                 in if \<not> might then Some (None, t1)
                    else case lhead m row index of
                      None \<Rightarrow> Some (Some (List_Failure NullPointer), t1)
                    | Some head \<Rightarrow>
                        if read_slot m head \<noteq> 0 then Some (None, t1)
                        else Option.bind (jsw_serase (compareFunction cr field) (with_mem (run_writes [set_slot head row] m) t skip) row)
                          (\<lambda>(r, skip'). Some (None, put_skip field (skip'\<lparr>slist := run_writes [set_slot head 0] (slist skip')\<rparr>) t1)))"

text \<open>\<^verbatim>\<open>ctable_RemoveFromAllIndexes\<close>: list 0, then the fields in order.\<close>

fun remove_fields :: "creator \<Rightarrow> bool \<Rightarrow> addr \<Rightarrow> nat list \<Rightarrow> ctable \<Rightarrow> (index_error option \<times> ctable) option" where
  "remove_fields cr sanity row [] t = Some (None, t)"
| "remove_fields cr sanity row (field # fs) t =
     (if skipLists t field = None then remove_fields cr sanity row fs t
      else Option.bind (ctable_RemoveFromIndex cr sanity row field t)
        (\<lambda>(e, t1). if e \<noteq> None then Some (e, t1) else remove_fields cr sanity row fs t1))"

definition ctable_RemoveFromAllIndexes :: "creator \<Rightarrow> bool \<Rightarrow> addr \<Rightarrow> ctable \<Rightarrow> (index_error option \<times> ctable) option" where
  "ctable_RemoveFromAllIndexes cr sanity row t =
     (case ctable_ListRemove sanity (tmem t) row 0 of
        Inl e \<Rightarrow> Some (Some (List_Failure e), t)
      | Inr ws \<Rightarrow> remove_fields cr sanity row [0..<nFields cr] (t\<lparr>tmem := run_writes ws (tmem t)\<rparr>))"

text \<open>\<^verbatim>\<open>ctable_DropIndex\<close>: the rows of list 0 forget their place in the index.\<close>

partial_function (option) clear_nodes :: "nat \<Rightarrow> addr \<Rightarrow> list_mem \<Rightarrow> list_mem option" where
  "clear_nodes index row m =
     (if row = 0 then Some m
      else let m' = run_writes [SetNext row index 0, SetPrev row index None, SetHead row index None] m
           in clear_nodes index (lnext m' row 0) m')"

definition ctable_DropIndex :: "creator \<Rightarrow> nat \<Rightarrow> bool \<Rightarrow> ctable \<Rightarrow> ctable option" where
  "ctable_DropIndex cr field final t =
     (case skipLists t field of
        None \<Rightarrow> Some t
      | Some skip \<Rightarrow>
          let t1 = t\<lparr>skipLists := (skipLists t)(field := None)\<rparr>
          in if final then Some t1
             else Option.bind (clear_nodes (nat (indexNumber cr field)) (cell (tmem t1) (ll_head t1)) (tmem t1))
               (\<lambda>m. Some (t1\<lparr>tmem := m\<rparr>)))"

fun drop_fields :: "creator \<Rightarrow> nat list \<Rightarrow> bool \<Rightarrow> ctable \<Rightarrow> ctable option" where
  "drop_fields cr [] final t = Some t"
| "drop_fields cr (field # fs) final t = Option.bind (ctable_DropIndex cr field final t) (drop_fields cr fs final)"

definition ctable_DropAllIndexes :: "creator \<Rightarrow> bool \<Rightarrow> ctable \<Rightarrow> ctable option" where
  "ctable_DropAllIndexes cr final t = drop_fields cr [0..<nFields cr] final t"

text \<open>\<^verbatim>\<open>ctable_IndexCount\<close>; the count is cast to \<^verbatim>\<open>int\<close>.\<close>

definition ctable_IndexCount :: "nat \<Rightarrow> ctable \<Rightarrow> index_error + int" where
  "ctable_IndexCount field t =
     (case skipLists t field of None \<Rightarrow> Inl No_Index | Some skip \<Rightarrow> Inr (int (jsw_ssize skip)))"

text \<open>
  \<^verbatim>\<open>ctable_ListIndex\<close>: the values of the field, one per node; \<open>lappend\<close> is the generated
  \<^verbatim>\<open>lappend_field\<close>, \<open>None\<close> when it fails.
\<close>

partial_function (option) list_index_loop :: "(addr \<Rightarrow> 'v option) \<Rightarrow> skiplist \<Rightarrow> (index_error + 'v list) option" where
  "list_index_loop lappend skip =
     (let p = jsw_srow skip
      in if p = 0 then Some (Inr [])
         else case lappend p of
           None \<Rightarrow> Some (Inl Append_Failed)
         | Some v \<Rightarrow> Option.bind (list_index_loop lappend (snd (jsw_snext skip))) (\<lambda>r. Some (map_sum id ((#) v) r)))"

definition ctable_ListIndex :: "(addr \<Rightarrow> 'v option) \<Rightarrow> nat \<Rightarrow> ctable \<Rightarrow> (index_error + 'v list) option" where
  "ctable_ListIndex lappend field t =
     (case skipLists t field of
        None \<Rightarrow> Some (Inr [])
      | Some skip \<Rightarrow> list_index_loop lappend (jsw_sreset (with_mem (tmem t) t skip)))"

definition ctable_LappendIndexLowAndHi :: "(addr \<Rightarrow> 'v option) \<Rightarrow> nat \<Rightarrow> ctable \<Rightarrow> (index_error + 'v list) option" where
  "ctable_LappendIndexLowAndHi lappend field t =
     (case skipLists t field of
        None \<Rightarrow> Some (Inl No_Index)
      | Some skip \<Rightarrow>
          let sk = jsw_sreset (with_mem (tmem t) t skip); row = jsw_srow sk
          in if row = 0 then Some (Inr [])
             else case lappend row of
               None \<Rightarrow> Some (Inl Append_Failed)
             | Some lo \<Rightarrow> Option.bind (jsw_findlast sk) (\<lambda>(p, sk1).
                 Some (case lappend (jsw_srow sk1) of None \<Rightarrow> Inl Append_Failed | Some hi \<Rightarrow> Inr [lo, hi])))"

text \<open>
  \<^verbatim>\<open>ctable_CreateIndex\<close>: the rows of list 0 in order; \<open>new_at row\<close> is the address of the node that
  is allocated for a row, if one is.  On an error the skip list is given up, the rows inserted so far
  are not touched.  \<open>a\<close> and \<open>seed\<close> are the address of the head node and the clock in \<^verbatim>\<open>jsw_snew\<close>.
\<close>

partial_function (option) create_loop :: "creator \<Rightarrow> bool \<Rightarrow> (addr \<Rightarrow> addr) \<Rightarrow> nat \<Rightarrow> addr \<Rightarrow> ctable \<Rightarrow> (index_error option \<times> ctable) option" where
  "create_loop cr sanity new_at field row t =
     (if row = 0 then Some (None, t)
      else Option.bind (ctable_InsertIntoIndex cr sanity (new_at row) row field t) (\<lambda>(e, t1).
        case e of
          Some err \<Rightarrow>
            (case err of
               Unique_Check_Failed f \<Rightarrow> Some (Some err, t1\<lparr>skipLists := (skipLists t1)(field := None)\<rparr>)
             | _ \<Rightarrow> Some (Some err, t1))
        | None \<Rightarrow> create_loop cr sanity new_at field (lnext (tmem t1) row 0) t1))"

definition ctable_CreateIndex :: "creator \<Rightarrow> bool \<Rightarrow> addr \<Rightarrow> ulong \<Rightarrow> (addr \<Rightarrow> addr) \<Rightarrow> nat \<Rightarrow> nat \<Rightarrow> ctable \<Rightarrow> (index_error option \<times> ctable) option" where
  "ctable_CreateIndex cr sanity a seed new_at field depth t =
     (if indexNumber cr field < 0 then Some (Some (Not_Indexable field), t)
      else if share_reader t then Some (Some Read_Only_Table, t)
      else if skipLists t field \<noteq> None then Some (None, t)
      else let t1 = put_skip field (jsw_sinit a depth seed (tmem t) (tlevel t)) t
           in create_loop cr sanity new_at field (cell (tmem t1) (ll_head t1)) t1)"

section \<open>The rows of an index\<close>

text \<open>
  \<open>index_at cmp i sk ps rs\<close>: \<open>sk\<close> is a well formed skip list with the nodes \<open>ps\<close>, and every node \<open>p\<close>
  heads the non-empty list \<open>rs p\<close> of rows that compare equal, linked as list \<open>i\<close>.
\<close>

definition index_at :: "addr cmp_t \<Rightarrow> nat \<Rightarrow> skiplist \<Rightarrow> addr list \<Rightarrow> (addr \<Rightarrow> addr list) \<Rightarrow> bool" where
  "index_at cmp i sk ps rs \<longleftrightarrow> (\<exists>lv. skip_inv cmp sk lv \<and> lv 0 = ps)
     \<and> (\<forall>p\<in>set ps. rs p \<noteq> [] \<and> is_list (slist sk) p i (rs p) \<and> (\<forall>r\<in>set (rs p). cmp (srow sk p) r = 0))"

abbreviation index_rows :: "addr list \<Rightarrow> (addr \<Rightarrow> addr list) \<Rightarrow> addr list" where
  "index_rows ps rs \<equiv> concat (map rs ps)"

lemma is_list_first: "is_list m c i rs \<Longrightarrow> rs \<noteq> [] \<Longrightarrow> hd rs = cell m c \<and> cell m c \<noteq> 0"
  by (cases rs) (auto simp: is_list_def)

lemma is_list_null: "is_list m c i rs \<Longrightarrow> 0 \<notin> set rs"
  using reads_not_null by (auto simp: is_list_def)

lemma backs_prev: "backs m i s rs \<Longrightarrow> r \<in> set rs \<Longrightarrow> lprev m r i \<noteq> None"
  by (induction rs arbitrary: s) auto

lemma is_list_prev: "is_list m c i rs \<Longrightarrow> r \<in> set rs \<Longrightarrow> lprev m r i \<noteq> None \<and> lhead m r i = Some (HeadCell c)"
  by (auto simp: is_list_def dest: backs_prev)

lemma index_atD:
  assumes "index_at cmp i sk ps rs"
  shows "p \<in> set ps \<Longrightarrow> rs p \<noteq> []" "p \<in> set ps \<Longrightarrow> is_list (slist sk) p i (rs p)"
    "p \<in> set ps \<Longrightarrow> r \<in> set (rs p) \<Longrightarrow> cmp (srow sk p) r = 0" "p \<in> set ps \<Longrightarrow> srow sk p \<in> set (rs p)"
    "0 \<notin> set (index_rows ps rs)"
    "r \<in> set (index_rows ps rs) \<Longrightarrow> lprev (slist sk) r i \<noteq> None" "distinct ps" "shead sk \<notin> set ps" "shead sk \<noteq> 0"
proof -
  have *: "rs p \<noteq> [] \<and> is_list (slist sk) p i (rs p)" if "p \<in> set ps" for p
    using assms that by (auto simp: index_at_def)
  then show "p \<in> set ps \<Longrightarrow> rs p \<noteq> []" "p \<in> set ps \<Longrightarrow> is_list (slist sk) p i (rs p)" by auto
  show "p \<in> set ps \<Longrightarrow> r \<in> set (rs p) \<Longrightarrow> cmp (srow sk p) r = 0" using assms by (auto simp: index_at_def)
  show "p \<in> set ps \<Longrightarrow> srow sk p \<in> set (rs p)" using * is_list_first hd_in_set by metis
  show "0 \<notin> set (index_rows ps rs)" using * is_list_null by fastforce
  show "r \<in> set (index_rows ps rs) \<Longrightarrow> lprev (slist sk) r i \<noteq> None" using * is_list_prev by fastforce
  obtain lv where "levels_ok sk lv" "lv 0 = ps" using assms by (auto simp: index_at_def skip_inv_def)
  then show "distinct ps" "shead sk \<notin> set ps" "shead sk \<noteq> 0" using levels_okD [of sk lv] by auto
qed

lemma index_atE:
  assumes "index_at cmp i sk ps rs"
  obtains lv where "skip_inv cmp sk lv" "lv 0 = ps"
  using assms by (auto simp: index_at_def)

text \<open>Lists of other nodes or of another number do not disturb an index.\<close>

lemma index_at_frame:
  assumes "index_at cmp i sk ps rs" and "unchanged_for c j R (slist sk) m" and "c \<notin> set ps" and "i \<noteq> j"
  shows "index_at cmp i (sk\<lparr>slist := m\<rparr>) ps rs"
proof -
  obtain lv where lv: "skip_inv cmp sk lv" "lv 0 = ps" using assms(1) by (rule index_atE)
  have c: "cell m p = cell (slist sk) p" if "p \<in> set ps" for p
    using assms(2, 3) that by (auto simp: unchanged_for_def)
  have "levels_ok (sk\<lparr>slist := m\<rparr>) lv" using lv(1) by (auto simp: skip_inv_def intro: levels_ok_cong)
  moreover have "sorted_wrt (level_order cmp (sk\<lparr>slist := m\<rparr>)) ps"
    using lv by (auto simp: skip_inv_def level_order_def c elim!: sorted_wrt_mono_rel [rotated])
  ultimately have "skip_inv cmp (sk\<lparr>slist := m\<rparr>) lv" using lv(2) by (simp add: skip_inv_def)
  moreover have "is_list m p i (rs p)" if "p \<in> set ps" for p
    using other_list_kept [OF assms(2) index_atD(2) [OF assms(1) that]] that assms(3, 4) by blast
  ultimately show ?thesis
    using lv(2) index_atD(1, 3) [OF assms(1)] c unfolding index_at_def by auto
qed

lemma index_at_cong:
  assumes "index_at cmp i sk ps rs" "snodes sk' = snodes sk" "shead sk' = shead sk" "curh sk' = curh sk"
    "maxh sk' = maxh sk" "slist sk' = slist sk"
  shows "index_at cmp i sk' ps rs"
proof -
  obtain lv where lv: "skip_inv cmp sk lv" "lv 0 = ps" using assms(1) by (rule index_atE)
  have "levels_ok sk' lv" using lv(1) assms by (auto simp: skip_inv_def intro: levels_ok_cong)
  then have "skip_inv cmp sk' lv" using lv(1) assms(6) by (simp add: skip_inv_def level_order_def [abs_def])
  then show ?thesis using assms(1, 6) lv(2) by (auto simp: index_at_def)
qed

context row_comparator
begin

lemma same_key: "cmp a b = 0 \<Longrightarrow> cmp row a > 0 \<longleftrightarrow> cmp row b > 0" "cmp a b = 0 \<Longrightarrow> cmp row a = 0 \<longleftrightarrow> cmp row b = 0"
proof -
  assume ab: "cmp a b = 0"
  show "cmp row a > 0 \<longleftrightarrow> cmp row b > 0" using anti [of row a] anti [of row b] eq_less [OF ab, of row] by simp
  show "cmp row a = 0 \<longleftrightarrow> cmp row b = 0" using eq_trans [of row a b] eq_trans [of row b a] ab eq_sym [OF ab] by blast
qed

lemma index_before:
  assumes "index_at cmp i sk ps rs"
  shows "filter (\<lambda>r. cmp row r > 0) (index_rows ps rs) = index_rows (filter (before cmp sk row) ps) rs"
    and "filter (\<lambda>r. cmp row r \<le> 0) (index_rows ps rs) = index_rows (filter (\<lambda>q. \<not> before cmp sk row q) ps) rs"
proof -
  have k: "cmp row r > 0 \<longleftrightarrow> before cmp sk row p" if "p \<in> set ps" "r \<in> set (rs p)" for p r
    using same_key(1) [OF index_atD(3) [OF assms that]] by (simp add: before_def)
  have "filter (\<lambda>r. P r) (index_rows qs rs) = index_rows (filter Q qs) rs"
    if "\<And>p r. p \<in> set qs \<Longrightarrow> r \<in> set (rs p) \<Longrightarrow> P r = Q p" for P Q qs
    using that by (induction qs) (auto simp: filter_id_conv filter_empty_conv)
  from this [of ps "\<lambda>r. cmp row r > 0" "before cmp sk row"] this [of ps "\<lambda>r. cmp row r \<le> 0" "\<lambda>q. \<not> before cmp sk row q"]
  show "filter (\<lambda>r. cmp row r > 0) (index_rows ps rs) = index_rows (filter (before cmp sk row) ps) rs"
    "filter (\<lambda>r. cmp row r \<le> 0) (index_rows ps rs) = index_rows (filter (\<lambda>q. \<not> before cmp sk row q) ps) rs"
    using k by (auto simp: not_less [symmetric])
qed

text \<open>\<^verbatim>\<open>jsw_sinsert_linked\<close> of a row whose key is in the index: in front of the rows of that key.\<close>

lemma linked_known:
  assumes ix: "index_at cmp i sk ps rs" and p: "p \<in> set ps" "cmp row (srow sk p) = 0"
  shows "\<exists>fx. jsw_sinsert_linked sanity cmp a sk row i uniq =
    Some (if uniq then Inr (0, sk\<lparr>sfix := fx\<rparr>)
          else case ctable_ListInsertHead sanity (slist sk) p row i of
                 Inl e \<Rightarrow> Inl e
               | Inr ws \<Rightarrow> Inr (1, sk\<lparr>sfix := fx, slist := run_writes ws (slist sk), ssize := Suc (ssize sk)\<rparr>))"
proof -
  obtain lv where lv: "skip_inv cmp sk lv" "lv 0 = ps" using ix by (rule index_atE)
  obtain fx where fx: "locate cmp sk row = Some (pred_at cmp sk row (lv 0), sk\<lparr>sfix := fx\<rparr>)"
    using locate_inv [OF lv(1)] by blast
  have "p = hd (filter (\<lambda>q. \<not> before cmp sk row q) (lv 0) @ [0])"
    using found_iff(2) [OF lv(1) refl] p lv(2) by blast
  then have "snext sk (pred_at cmp sk row (lv 0)) 0 = p" using next_pred [OF lv(1), of row 0] by simp
  moreover have "p \<noteq> 0" using not_before_zero [OF lv(1), of p 0] p lv(2) by simp
  ultimately show ?thesis
    unfolding jsw_sinsert_linked_def fx using p(2) by (intro exI [of _ fx]) (auto simp: Let_def split: sum.splits)
qed

lemma insert_known:
  assumes ix: "index_at cmp i sk ps rs" and p: "p \<in> set ps" "cmp row (srow sk p) = 0"
    and row: "row \<noteq> 0" "lprev (slist sk) row i = None"
  shows "\<exists>sk'. jsw_sinsert_linked sanity cmp a sk row i False = Some (Inr (1, sk'))
    \<and> index_at cmp i sk' ps (rs(p := row # rs p)) \<and> slev sk' = slev sk \<and> maxh sk' = maxh sk \<and> shead sk' = shead sk
    \<and> unchanged_for p i (insert row (set (rs p))) (slist sk) (slist sk')"
proof -
  obtain fx where fx: "jsw_sinsert_linked sanity cmp a sk row i False =
      Some (case ctable_ListInsertHead sanity (slist sk) p row i of
                 Inl e \<Rightarrow> Inl e
               | Inr ws \<Rightarrow> Inr (1, sk\<lparr>sfix := fx, slist := run_writes ws (slist sk), ssize := Suc (ssize sk)\<rparr>))"
    using linked_known [OF ix p, of sanity a False] by auto
  have new: "row \<notin> set (rs q)" if "q \<in> set ps" for q
    using is_list_prev [OF index_atD(2) [OF ix that]] row(2) by fastforce
  obtain ws where ws: "ctable_ListInsertHead sanity (slist sk) p row i = Inr ws"
      "is_list (run_writes ws (slist sk)) p i (row # rs p)"
      "unchanged_for p i (insert row (set (rs p))) (slist sk) (run_writes ws (slist sk))"
    using insert_head_list [OF index_atD(2) [OF ix p(1)] row(1) new [OF p(1)], of sanity] row(2) by blast
  let ?m = "run_writes ws (slist sk)"
  let ?sk = "sk\<lparr>sfix := fx, slist := ?m, ssize := Suc (ssize sk)\<rparr>"
  obtain lv where lv: "skip_inv cmp sk lv" "lv 0 = ps" using ix by (rule index_atE)
  have cp: "cell ?m p = row" using is_list_first [OF ws(2)] by simp
  have co: "cell ?m q = cell (slist sk) q" if "q \<noteq> p" for q using ws(3) that by (auto simp: unchanged_for_def)
  have inv: "skip_inv cmp ?sk lv"
  proof (rule skip_inv_rows_cong [OF lv(1)])
    show "\<forall>q\<in>set (lv 0). cmp (srow ?sk q) (srow sk q) = 0" 
    proof
      fix q show "cmp (srow ?sk q) (srow sk q) = 0" using cp co [of q] p(2) by (cases "q = p") auto
    qed
    show "levels_ok ?sk lv" using lv(1) by (auto simp: skip_inv_def intro: levels_ok_cong)
  qed
  have dj: "set (rs q) \<inter> insert row (set (rs p)) = {}" if q: "q \<in> set ps" "q \<noteq> p" for q
  proof -
    have "cmp r r' \<noteq> 0" if "r \<in> set (rs q)" "r' \<in> set (rs p)" for r r'
    proof
      assume "cmp r r' = 0"
      then have "cmp row (srow sk q) = 0"
        using p(2) index_atD(3) [OF ix p(1) that(2)] index_atD(3) [OF ix q(1) that(1)] eq_sym eq_trans by metis
      then show False using found_iff(2) [OF lv(1) refl, of _ row] p q lv(2) by metis
    qed
    then show ?thesis using new [OF q(1)] le_refl by blast
  qed
  have "index_at cmp i ?sk ps (rs(p := row # rs p))"
    unfolding index_at_def
  proof (intro conjI ballI)
    show "\<exists>lv. skip_inv cmp ?sk lv \<and> lv 0 = ps" using inv lv(2) by blast
  next
    fix q assume q: "q \<in> set ps"
    show "(rs(p := row # rs p)) q \<noteq> []" using index_atD(1) [OF ix q] by simp
    show "is_list (slist ?sk) q i ((rs(p := row # rs p)) q)"
      using ws(2) other_list_kept [OF ws(3) index_atD(2) [OF ix q]] dj [OF q] by (cases "q = p") auto
    show "cmp (srow ?sk q) r = 0" if "r \<in> set ((rs(p := row # rs p)) q)" for r
    proof (cases "q = p")
      case True
      then have "r = row \<or> cmp (srow sk p) r = 0" using that index_atD(3) [OF ix p(1)] by auto
      then show ?thesis using True cp p(2) eq_trans [of row "srow sk p" r] by auto
    next
      case False
      then show ?thesis using that co index_atD(3) [OF ix q] by simp
    qed
  qed
  then show ?thesis using fx ws(1, 3) by (intro exI [of _ ?sk]) simp
qed

text \<open>\<^verbatim>\<open>jsw_sinsert_linked\<close> of a row of a new key: a new node, at its place in the order.\<close>

lemma insert_new:
  assumes ix: "index_at cmp i sk ps rs" and a: "a \<noteq> 0" "a \<noteq> shead sk" "a \<notin> set ps"
    and absent: "\<forall>p\<in>set ps. cmp row (srow sk p) \<noteq> 0" and row: "row \<noteq> 0" "lprev (slist sk) row i = None"
    and lev: "rlevel (maxh sk) (slev sk) = Some (h, lev)" and mx: "2 \<le> maxh sk"
  shows "\<exists>sk'. jsw_sinsert_linked sanity cmp a sk row i uniq = Some (Inr (1, sk'))
    \<and> index_at cmp i sk' (filter (before cmp sk row) ps @ a # filter (\<lambda>q. \<not> before cmp sk row q) ps) (rs(a := [row]))
    \<and> slev sk' = lev \<and> maxh sk' = maxh sk \<and> shead sk' = shead sk
    \<and> unchanged_for a i {row} (slist sk) (slist sk')"
proof -
  obtain lv where lv: "skip_inv cmp sk lv" "lv 0 = ps" using ix by (rule index_atE)
  obtain fx where fx: "locate cmp sk row = Some (pred_at cmp sk row (lv 0), sk\<lparr>sfix := fx\<rparr>)"
    "\<forall>i\<le>curh sk. fx i = pred_at cmp sk row (lv i)"
    using locate_inv [OF lv(1)] by blast
  have h: "1 \<le> h" "h < maxh sk" using rlevel_range [OF mx lev] by auto
  let ?B = "before cmp sk row"
  let ?z = "(slist sk)\<lparr>cell := (cell (slist sk))(a := 0)\<rparr>"
  have "is_list ?z a i []" by (simp add: is_list_def)
  moreover have "lprev ?z row i = None" using row by simp
  ultimately obtain ws where ws: "ctable_ListInsertHead sanity ?z a row i = Inr ws"
      "is_list (run_writes ws ?z) a i [row]" "unchanged_for a i {row} ?z (run_writes ws ?z)"
    using insert_head_list [of ?z a i "[]" row sanity] row(1) by auto
  let ?m = "run_writes ws ?z"
  have un: "unchanged_for a i {row} (slist sk) ?m" using ws(3) by (simp add: unchanged_for_def)
  let ?sk3 = "(new_node a row h (sk\<lparr>sfix := fx, slev := lev\<rparr>))\<lparr>slist := ?m\<rparr>"
  let ?sk4 = "raise_and_link a h ?sk3"
  let ?sk5 = "?sk4\<lparr>ssize := Suc (ssize ?sk4)\<rparr>"
  have op: "jsw_sinsert_linked sanity cmp a sk row i uniq = Some (Inr (1, ?sk5))"
    unfolding jsw_sinsert_linked_def fx(1)
    using lev next_pred [OF lv(1), of row 0] found_iff(1) [OF lv(1) refl, of row] lv(2) absent
    by (auto simp add: Let_def ctable_ListInit_def ws(1) simp del: neq0_conv)
  define lv' where "lv' = (\<lambda>i. if i < linked_height ?sk3 h
      then filter ?B (lv i) @ a # filter (\<lambda>q. \<not> ?B q) (lv i) else lv i)"
  have ca: "cell ?m a = row" using is_list_first [OF ws(2)] by simp
  have co: "cell ?m q = cell (slist sk) q" if "q \<noteq> a" for q using un that by (auto simp: unchanged_for_def)
  have "skip_inv cmp ?sk4 lv'"
    unfolding lv'_def
  proof (rule insert_at_position [OF lv(1) a(1, 2) _ _ h])
    show "\<forall>q\<in>set (lv 0). srow ?sk3 q = srow sk q" using co a(3) lv(2) by fastforce
  qed (use a(3) absent fx(2) ca lv(2) in auto)
  then have inv: "skip_inv cmp ?sk5 lv'"
    by (auto simp: skip_inv_def level_order_def [abs_def] intro: levels_ok_cong)
  have l0: "lv' 0 = filter ?B ps @ a # filter (\<lambda>q. \<not> ?B q) ps"
    using h lv(2) by (simp add: lv'_def linked_height_def)
  have "index_at cmp i ?sk5 (filter ?B ps @ a # filter (\<lambda>q. \<not> ?B q) ps) (rs(a := [row]))"
    unfolding index_at_def
  proof (intro conjI ballI)
    show "\<exists>lv. skip_inv cmp ?sk5 lv \<and> lv 0 = filter ?B ps @ a # filter (\<lambda>q. \<not> ?B q) ps" using inv l0 by blast
  next
    fix q assume "q \<in> set (filter ?B ps @ a # filter (\<lambda>q. \<not> ?B q) ps)"
    then have q: "q = a \<or> q \<in> set ps" by auto
    show "(rs(a := [row])) q \<noteq> []" using index_atD(1) [OF ix] q by auto
    show "is_list (slist ?sk5) q i ((rs(a := [row])) q)"
    proof (cases "q = a")
      case False
      then have "q \<in> set ps" using q by simp
      then have "row \<notin> set (rs q)" using is_list_prev [OF index_atD(2) [OF ix]] row(2) by fastforce
      then show ?thesis using other_list_kept [OF un index_atD(2) [OF ix \<open>q \<in> set ps\<close>] False] False by simp
    qed (use ws(2) in simp)
    show "cmp (srow ?sk5 q) r = 0" if "r \<in> set ((rs(a := [row])) q)" for r
      using that ca co index_atD(3) [OF ix] q a(3) by (auto split: if_splits)
  qed
  then show ?thesis using op un by (intro exI [of _ ?sk5]) simp
qed

text \<open>Both cases in terms of rows: behind the rows of smaller keys, in front of all others.\<close>

lemma index_rows_insert:
  assumes ix: "index_at cmp i sk ps rs" and p: "p \<in> set ps" "cmp row (srow sk p) = 0"
  shows "index_rows ps (rs(p := row # rs p)) =
    filter (\<lambda>r. cmp row r > 0) (index_rows ps rs) @ row # filter (\<lambda>r. cmp row r \<le> 0) (index_rows ps rs)"
proof -
  obtain lv where lv: "skip_inv cmp sk lv" "lv 0 = ps" using ix by (rule index_atE)
  let ?F = "filter (before cmp sk row) ps" and ?G = "filter (\<lambda>q. \<not> before cmp sk row q) ps"
  have ps: "ps = ?F @ ?G" using before_split(2) [OF skip_sorted [OF lv(1), of 0]] lv(2) by simp
  have "p = hd (?G @ [0])" using found_iff(2) [OF lv(1) refl] p lv(2) by blast
  moreover have "p \<noteq> 0" using not_before_zero [OF lv(1), of p 0] p lv(2) by simp
  ultimately obtain gs where gs: "?G = p # gs" by (cases ?G) auto
  have d: "distinct (?F @ p # gs)" using index_atD(7) [OF ix] ps gs by metis
  have "map (rs(p := row # rs p)) qs = map rs qs" if "p \<notin> set qs" for qs using that by auto
  then have "index_rows (?F @ p # gs) (rs(p := row # rs p)) = index_rows ?F rs @ row # index_rows (p # gs) rs"
    using d by simp
  moreover have "index_rows ps x = index_rows (?F @ p # gs) x" for x using ps gs by metis
  ultimately show ?thesis unfolding index_before [OF ix] gs by simp
qed

lemma index_rows_new:
  assumes ix: "index_at cmp i sk ps rs" and a: "a \<notin> set ps"
  shows "index_rows (filter (before cmp sk row) ps @ a # filter (\<lambda>q. \<not> before cmp sk row q) ps) (rs(a := [row])) =
    filter (\<lambda>r. cmp row r > 0) (index_rows ps rs) @ row # filter (\<lambda>r. cmp row r \<le> 0) (index_rows ps rs)"
proof -
  have "map (rs(a := [row])) qs = map rs qs" if "a \<notin> set qs" for qs using that by auto
  then show ?thesis using a unfolding index_before [OF ix] by simp
qed

lemma index_sorted:
  assumes ix: "index_at cmp i sk ps rs"
  shows "sorted_wrt (\<lambda>r s. cmp r s \<le> 0) (index_rows ps rs)"
proof -
  obtain lv where lv: "skip_inv cmp sk lv" "lv 0 = ps" using ix by (rule index_atE)
  have "sorted_wrt (\<lambda>r s. cmp r s \<le> 0) (index_rows qs rs)"
    if "sorted_wrt (level_order cmp sk) qs" "set qs \<subseteq> set ps" for qs
    using that
  proof (induction qs)
    case (Cons q qs)
    have eq: "cmp r s = 0" if "r \<in> set (rs q)" "s \<in> set (rs q)" for r s
      using index_atD(3) [OF ix, of q] Cons.prems(2) that eq_trans eq_sym by (metis list.set_intros(1) subset_code(1))
    have lt: "cmp r s \<le> 0" if "r \<in> set (rs q)" "q' \<in> set qs" "s \<in> set (rs q')" for r s q'
    proof -
      have "cmp (srow sk q) (srow sk q') < 0" using Cons.prems(1) that(2) by (auto simp: level_order_def)
      moreover have "cmp (srow sk q) r = 0" "cmp (srow sk q') s = 0"
        using index_atD(3) [OF ix] Cons.prems(2) that by auto
      ultimately have "cmp r (srow sk q') < 0" using eq_less by blast
      then show ?thesis using \<open>cmp (srow sk q') s = 0\<close> less_trans [of r "srow sk q'" s] by simp
    qed
    have "sorted_wrt (\<lambda>r s. cmp r s \<le> 0) (rs q)"
      using eq by (auto simp: sorted_wrt_iff_nth_less)
    then show ?case using Cons lt by (auto simp: sorted_wrt_append)
  qed simp
  then show ?thesis using skip_sorted [OF lv(1), of 0] lv(2) by simp
qed

lemma index_distinct:
  assumes ix: "index_at cmp i sk ps rs"
  shows "distinct (index_rows ps rs)"
    and "p \<in> set ps \<Longrightarrow> q \<in> set ps \<Longrightarrow> r \<in> set (rs p) \<Longrightarrow> r \<in> set (rs q) \<Longrightarrow> p = q"
proof -
  have un: "p = q" if "p \<in> set ps" "q \<in> set ps" "r \<in> set (rs p)" "r \<in> set (rs q)" for p q r
    using is_list_prev [OF index_atD(2) [OF ix that(1)] that(3)] is_list_prev [OF index_atD(2) [OF ix that(2)] that(4)] by simp
  then show "p \<in> set ps \<Longrightarrow> q \<in> set ps \<Longrightarrow> r \<in> set (rs p) \<Longrightarrow> r \<in> set (rs q) \<Longrightarrow> p = q" .
  have d: "distinct (rs p)" if "p \<in> set ps" for p using index_atD(2) [OF ix that] by (simp add: is_list_def)
  have "distinct (index_rows qs rs)" if "distinct qs" "set qs \<subseteq> set ps" for qs
    using that
  proof (induction qs)
    case (Cons q qs)
    have "set (rs q) \<inter> set (index_rows qs rs) = {}" using un Cons.prems by fastforce
    then show ?case using Cons d by simp
  qed simp
  then show "distinct (index_rows ps rs)" using index_atD(7) [OF ix] by simp
qed

text \<open>Removal: the rows of one key lose a row, or the node of the last one is erased.\<close>

lemma remove_some:
  assumes ix: "index_at cmp i sk ps rs" and p: "p \<in> set ps" "rs p = xs @ row # ys" "xs @ ys \<noteq> []"
    and m: "is_list m p i (xs @ ys)" "unchanged_for p i (set (rs p)) (slist sk) m"
  shows "index_at cmp i (sk\<lparr>slist := m\<rparr>) ps (rs(p := xs @ ys))"
proof -
  obtain lv where lv: "skip_inv cmp sk lv" "lv 0 = ps" using ix by (rule index_atE)
  have co: "cell m q = cell (slist sk) q" if "q \<noteq> p" for q using m(2) that by (auto simp: unchanged_for_def)
  have "cell m p \<in> set (xs @ ys)" using is_list_first [OF m(1) p(3)] hd_in_set [OF p(3)] by simp
  then have cp: "cmp (srow sk p) (cell m p) = 0" using index_atD(3) [OF ix p(1)] p(2) by auto
  have "skip_inv cmp (sk\<lparr>slist := m\<rparr>) lv"
  proof (rule skip_inv_rows_cong [OF lv(1)])
    show "\<forall>q\<in>set (lv 0). cmp (srow (sk\<lparr>slist := m\<rparr>) q) (srow sk q) = 0"
    proof
      fix q show "cmp (srow (sk\<lparr>slist := m\<rparr>) q) (srow sk q) = 0"
        using eq_sym [OF cp] co [of q] by (cases "q = p") auto
    qed
    show "levels_ok (sk\<lparr>slist := m\<rparr>) lv" using lv(1) by (auto simp: skip_inv_def intro: levels_ok_cong)
  qed
  moreover have "is_list m q i ((rs(p := xs @ ys)) q)" if "q \<in> set ps" for q
  proof (cases "q = p")
    case False
    then have "set (rs q) \<inter> set (rs p) = {}" using index_distinct(2) [OF ix that p(1)] by blast
    then show ?thesis using other_list_kept [OF m(2) index_atD(2) [OF ix that] False] False by simp
  qed (use m(1) in simp)
  moreover have "cmp (cell m q) r = 0" if "q \<in> set ps" "r \<in> set ((rs(p := xs @ ys)) q)" for q r
  proof (cases "q = p")
    case True
    then have "cmp (srow sk p) r = 0" using that(2) index_atD(3) [OF ix p(1), of r] p(2) by auto
    then show ?thesis using True eq_trans [OF eq_sym [OF cp]] by simp
  next
    case False
    then show ?thesis using co index_atD(3) [OF ix that(1)] that(2) by simp
  qed
  ultimately show ?thesis
    using lv(2) p(3) index_atD(1) [OF ix] unfolding index_at_def by auto
qed

lemma remove_last:
  assumes ix: "index_at cmp i sk ps rs" and p: "p \<in> set ps" "rs p = [row]"
    and m: "unchanged_for p i {row} (slist sk) m"
  shows "\<exists>sk'. jsw_serase cmp (sk\<lparr>slist := lwrite_to (SetCell p row) m\<rparr>) row = Some (1, sk')
    \<and> slist sk' = lwrite_to (SetCell p row) m \<and> index_at cmp i (sk'\<lparr>slist := m\<rparr>) (filter (\<lambda>q. q \<noteq> p) ps) rs"
proof -
  obtain lv where lv: "skip_inv cmp sk lv" "lv 0 = ps" using ix by (rule index_atE)
  let ?m = "lwrite_to (SetCell p row) m"
  let ?sk = "sk\<lparr>slist := ?m\<rparr>"
  have first: "srow sk p = row" using index_atD(4) [OF ix p(1)] p(2) by simp
  have co: "cell m q = cell (slist sk) q" if "q \<noteq> p" for q using m that by (auto simp: unchanged_for_def)
  have ce: "cell ?m = cell (slist sk)" using co first by auto
  have "levels_ok ?sk lv" using lv(1) by (auto simp: skip_inv_def intro: levels_ok_cong)
  then have inv: "skip_inv cmp ?sk lv"
    using lv(1) ce by (simp add: skip_inv_def level_order_def [abs_def])
  have p0: "p \<in> set (lv 0)" "cmp row (srow ?sk p) = 0" using p(1) lv(2) ce first by auto
  obtain sk' where sk': "jsw_serase cmp ?sk row = Some (1, sk')" "skip_inv cmp sk' (\<lambda>i. filter (\<lambda>q. q \<noteq> p) (lv i))"
      "slist sk' = ?m"
    using serase_known [OF inv p0] by auto
  let ?sk' = "sk'\<lparr>slist := m\<rparr>" and ?lv = "\<lambda>i. filter (\<lambda>q. q \<noteq> p) (lv i)"
  have "skip_inv cmp ?sk' ?lv"
  proof -
    have "levels_ok ?sk' ?lv" using sk'(2) by (auto simp: skip_inv_def intro: levels_ok_cong)
    moreover have "sorted_wrt (level_order cmp ?sk') (?lv 0)"
      using sk'(2, 3) by (auto simp: skip_inv_def level_order_def elim!: sorted_wrt_mono_rel [rotated])
    ultimately show ?thesis by (simp add: skip_inv_def)
  qed
  moreover have "is_list m q i (rs q)" if "q \<in> set ps" "q \<noteq> p" for q
    using other_list_kept [OF m index_atD(2) [OF ix that(1)] that(2)] index_distinct(2) [OF ix that(1) p(1)] p(2) that(2)
    by fastforce
  moreover have "cmp (cell m q) r = 0" if "q \<in> set ps" "q \<noteq> p" "r \<in> set (rs q)" for q r
    using co [OF that(2)] index_atD(3) [OF ix that(1, 3)] by simp
  ultimately have "index_at cmp i ?sk' (filter (\<lambda>q. q \<noteq> p) ps) rs"
    using lv(2) index_atD(1) [OF ix] unfolding index_at_def by auto
  then show ?thesis using sk' by blast
qed

lemma index_rows_remove:
  assumes ix: "index_at cmp i sk ps rs" and p: "p \<in> set ps" "rs p = xs @ row # ys"
  shows "index_rows ps (rs(p := xs @ ys)) = filter (\<lambda>r. r \<noteq> row) (index_rows ps rs)"
    and "xs @ ys = [] \<Longrightarrow> index_rows (filter (\<lambda>q. q \<noteq> p) ps) rs = filter (\<lambda>r. r \<noteq> row) (index_rows ps rs)"
proof -
  have "distinct (xs @ row # ys)" using index_atD(2) [OF ix p(1)] p(2) by (simp add: is_list_def)
  then have here: "filter (\<lambda>r. r \<noteq> row) (rs p) = xs @ ys" unfolding p(2) by (rule filter_neq_middle)
  have there: "filter (\<lambda>r. r \<noteq> row) (rs q) = rs q" if "q \<in> set ps" "q \<noteq> p" for q
    using index_distinct(2) [OF ix that(1) p(1), of row] that(2) p(2) by (auto simp: filter_id_conv)
  have "index_rows qs (rs(p := xs @ ys)) = filter (\<lambda>r. r \<noteq> row) (index_rows qs rs)" if "set qs \<subseteq> set ps" for qs
    using that here there by (induction qs) auto
  then show "index_rows ps (rs(p := xs @ ys)) = filter (\<lambda>r. r \<noteq> row) (index_rows ps rs)" by blast
  have "index_rows (filter (\<lambda>q. q \<noteq> p) qs) rs = filter (\<lambda>r. r \<noteq> row) (index_rows qs rs)"
    if "xs @ ys = []" "set qs \<subseteq> set ps" for qs
    using that here there by (induction qs) auto
  then show "xs @ ys = [] \<Longrightarrow> index_rows (filter (\<lambda>q. q \<noteq> p) ps) rs = filter (\<lambda>r. r \<noteq> row) (index_rows ps rs)" by blast
qed

end

lemma serase_keeps:
  assumes "jsw_serase cmp sk row = Some (r, sk')"
  shows "maxh sk' = maxh sk" "slev sk' = slev sk" "shead sk' = shead sk"
  using assms by (auto simp: jsw_serase_def locate_def jsw_sreset_def Let_def split: Option.bind_splits if_splits)

lemma set_slot_head [simp]: "lhead (lwrite_to (set_slot p v) m) = lhead m"
  by (cases p) auto

lemma remove_keeps_head: "ctable_ListRemove sanity m row i = Inr ws \<Longrightarrow> lhead (run_writes ws m) = lhead m"
  by (cases "lprev m row i") (auto simp: ctable_ListRemove_def)

definition rows_after_insert :: "addr cmp_t \<Rightarrow> addr \<Rightarrow> addr list \<Rightarrow> addr list" where
  "rows_after_insert cmp row xs = filter (\<lambda>r. cmp row r > 0) xs @ row # filter (\<lambda>r. cmp row r \<le> 0) xs"

lemma set_rows_after_insert [simp]: "set (rows_after_insert cmp row xs) = insert row (set xs)"
  by (auto simp: rows_after_insert_def)

lemma unchanged_mono: "unchanged_for c i R m m' \<Longrightarrow> R \<subseteq> S \<Longrightarrow> unchanged_for c i S m m'"
  by (auto simp: unchanged_for_def)

context row_comparator
begin

lemma index_ex:
  assumes "index_at cmp i sk ps rs"
  shows "(\<exists>r\<in>set (index_rows ps rs). cmp row r = 0) \<longleftrightarrow> (\<exists>p\<in>set ps. cmp row (srow sk p) = 0)"
  using index_atD(3, 4) [OF assms] same_key(2) by fastforce

lemma insert_index:
  assumes ix: "index_at cmp i sk ps rs" and a: "a \<noteq> 0" "a \<noteq> shead sk" "a \<notin> set ps"
    and row: "row \<noteq> 0" "lprev (slist sk) row i = None"
    and lev: "rlevel (maxh sk) (slev sk) = Some (h, lev)" and mx: "2 \<le> maxh sk"
  defines "old \<equiv> index_rows ps rs"
  defines "ex \<equiv> \<exists>r\<in>set old. cmp row r = 0"
  shows "\<exists>c sk' ps' rs'. jsw_sinsert_linked sanity cmp a sk row i uniq = Some (Inr (if ex \<and> uniq then 0 else 1, sk'))
    \<and> index_at cmp i sk' ps' rs' \<and> (slev sk' = slev sk \<or> slev sk' = lev) \<and> maxh sk' = maxh sk \<and> shead sk' = shead sk
    \<and> c \<in> insert a (set ps) \<and> set ps' \<subseteq> insert a (set ps)
    \<and> unchanged_for c i (insert row (set old)) (slist sk) (slist sk')
    \<and> (if ex \<and> uniq then slist sk' = slist sk \<and> ps' = ps \<and> rs' = rs
       else index_rows ps' rs' = rows_after_insert cmp row old)"
proof (cases "\<exists>p\<in>set ps. cmp row (srow sk p) = 0")
  case True
  then obtain p where p: "p \<in> set ps" "cmp row (srow sk p) = 0" by blast
  have ex: "ex" using True index_ex [OF ix] by (simp add: ex_def old_def)
  show ?thesis
  proof (cases uniq)
    case True
    obtain fx where fx: "jsw_sinsert_linked sanity cmp a sk row i uniq = Some (Inr (0, sk\<lparr>sfix := fx\<rparr>))"
      using linked_known [OF ix p, of sanity a uniq] True by auto
    have "index_at cmp i (sk\<lparr>sfix := fx\<rparr>) ps rs" by (rule index_at_cong [OF ix]) auto
    then show ?thesis using fx ex True
      by (intro exI [of _ a] exI [of _ "sk\<lparr>sfix := fx\<rparr>"] exI [of _ ps] exI [of _ rs]) (auto simp: unchanged_for_def)
  next
    case False
    obtain sk' where sk': "jsw_sinsert_linked sanity cmp a sk row i False = Some (Inr (1, sk'))"
      "index_at cmp i sk' ps (rs(p := row # rs p))" "slev sk' = slev sk" "maxh sk' = maxh sk" "shead sk' = shead sk"
      "unchanged_for p i (insert row (set (rs p))) (slist sk) (slist sk')"
      using insert_known [OF ix p row, of sanity a] by blast
    have "unchanged_for p i (insert row (set old)) (slist sk) (slist sk')"
      by (rule unchanged_mono [OF sk'(6)]) (use p in \<open>auto simp: old_def\<close>)
    then show ?thesis using sk' ex False p index_rows_insert [OF ix p]
      by (intro exI [of _ p] exI [of _ sk'] exI [of _ ps] exI [of _ "rs(p := row # rs p)"])
        (auto simp: rows_after_insert_def old_def)
  qed
next
  case False
  then have ab: "\<forall>p\<in>set ps. cmp row (srow sk p) \<noteq> 0" and ex: "\<not> ex"
    using index_ex [OF ix] by (auto simp: ex_def old_def)
  let ?ps = "filter (before cmp sk row) ps @ a # filter (\<lambda>q. \<not> before cmp sk row q) ps"
  obtain sk' where sk': "jsw_sinsert_linked sanity cmp a sk row i uniq = Some (Inr (1, sk'))"
      "index_at cmp i sk' ?ps (rs(a := [row]))" "slev sk' = lev" "maxh sk' = maxh sk" "shead sk' = shead sk"
      "unchanged_for a i {row} (slist sk) (slist sk')"
    using insert_new [OF ix a ab row lev mx, of sanity uniq] by blast
  have "unchanged_for a i (insert row (set old)) (slist sk) (slist sk')"
    by (rule unchanged_mono [OF sk'(6)]) auto
  then show ?thesis using sk' ex index_rows_new [OF ix a(3), of row]
    by (intro exI [of _ a] exI [of _ sk'] exI [of _ ?ps] exI [of _ "rs(a := [row])"])
      (auto simp: rows_after_insert_def old_def)
qed

text \<open>The steps of \<^verbatim>\<open>ctable_RemoveFromIndex\<close> for a row of the index, on the memory.\<close>

lemma remove_index:
  assumes ix: "index_at cmp i sk ps rs" and row: "row \<in> set (index_rows ps rs)"
  shows "\<exists>p\<in>set ps. \<exists>ws m ps' rs'. ctable_ListRemove sanity (slist sk) row i = Inr ws \<and> m = run_writes ws (slist sk)
    \<and> lprev m row i = None \<and> lhead m row i = Some (HeadCell p)
    \<and> unchanged_for p i (set (index_rows ps rs)) (slist sk) m
    \<and> set ps' \<subseteq> set ps \<and> index_rows ps' rs' = filter (\<lambda>r. r \<noteq> row) (index_rows ps rs)
    \<and> (if cell m p \<noteq> 0 then index_at cmp i (sk\<lparr>slist := m\<rparr>) ps' rs'
       else lnext (slist sk) row i = 0
         \<and> (\<exists>sk'. jsw_serase cmp (sk\<lparr>slist := lwrite_to (SetCell p row) m\<rparr>) row = Some (1, sk')
          \<and> lwrite_to (SetCell p 0) (slist sk') = m \<and> index_at cmp i (sk'\<lparr>slist := m\<rparr>) ps' rs'))
    \<and> (lnext (slist sk) row i \<noteq> 0 \<longrightarrow> cell m p \<noteq> 0)"
proof -
  obtain p where p: "p \<in> set ps" "row \<in> set (rs p)" using row by auto
  obtain xs ys where xy: "rs p = xs @ row # ys" using p(2) by (meson split_list)
  note l = index_atD(2) [OF ix p(1), unfolded xy]
  obtain ws where ws: "ctable_ListRemove sanity (slist sk) row i = Inr ws" "is_list (run_writes ws (slist sk)) p i (xs @ ys)"
      "lprev (run_writes ws (slist sk)) row i = None"
      "unchanged_for p i (set (rs p)) (slist sk) (run_writes ws (slist sk))"
    using remove_list [OF l, of sanity] unfolding xy by blast
  let ?m = "run_writes ws (slist sk)"
  have un: "unchanged_for p i (set (index_rows ps rs)) (slist sk) ?m"
    by (rule unchanged_mono [OF ws(4)]) (use p in auto)
  have hd: "lhead ?m row i = Some (HeadCell p)"
    using remove_keeps_head [OF ws(1)] is_list_prev [OF index_atD(2) [OF ix p(1)] p(2)] by simp
  have nx: "lnext (slist sk) row i \<noteq> 0 \<Longrightarrow> ys \<noteq> []"
    using l reads_tail [of "slist sk" i "HeadCell p" xs "row # ys"] by (auto simp: is_list_def)
  have c: "cell ?m p \<noteq> 0 \<longleftrightarrow> xs @ ys \<noteq> []"
    using ws(2) is_list_first [OF ws(2)] by (cases "xs @ ys") (auto simp: is_list_def)
  show ?thesis
  proof (cases "xs @ ys = []")
    case False
    have ix': "index_at cmp i (sk\<lparr>slist := ?m\<rparr>) ps (rs(p := xs @ ys))"
      by (rule remove_some [OF ix p(1) xy False ws(2, 4)])
    have ne: "cell ?m p \<noteq> 0" using c False by simp
    show ?thesis
      by (rule bexI [OF _ p(1)], rule exI [of _ ws], rule exI [of _ ?m], rule exI [of _ ps], rule exI [of _ "rs(p := xs @ ys)"])
        (use ws un hd ix' ne index_rows_remove(1) [OF ix p(1) xy] in \<open>simp del: neq0_conv\<close>)
  next
    case True
    then have one: "rs p = [row]" using xy by simp
    have z: "cell ?m p = 0" using c True by simp
    obtain sk' where sk': "jsw_serase cmp (sk\<lparr>slist := lwrite_to (SetCell p row) ?m\<rparr>) row = Some (1, sk')"
        "slist sk' = lwrite_to (SetCell p row) ?m" "index_at cmp i (sk'\<lparr>slist := ?m\<rparr>) (filter (\<lambda>q. q \<noteq> p) ps) rs"
      using remove_last [OF ix p(1) one] ws(4) one by fastforce
    have "lwrite_to (SetCell p 0) (slist sk') = ?m"
      unfolding sk'(2) using z by (simp add: fun_upd_idem)
    moreover have "lnext (slist sk) row i = 0" using nx True by auto
    ultimately show ?thesis
      by (intro bexI [OF _ p(1)] exI [of _ ws] exI [of _ ?m] exI [of _ "filter (\<lambda>q. q \<noteq> p) ps"] exI [of _ rs])
        (use ws un hd sk' z index_rows_remove(2) [OF ix p(1) xy True] in auto)
  qed
qed

end

section \<open>Tables\<close>

text \<open>
  What the generated code guarantees: comparison functions that are total preorders, and list numbers
  that differ from each other and from 0.
\<close>

definition creator_ok :: "creator \<Rightarrow> bool" where
  "creator_ok cr \<longleftrightarrow> (\<forall>f. row_comparator (compareFunction cr f)) \<and> (\<forall>f. indexNumber cr f \<noteq> 0)
     \<and> (\<forall>f g. f \<noteq> g \<and> 0 < indexNumber cr f \<longrightarrow> indexNumber cr f \<noteq> indexNumber cr g)"

abbreviation list_no :: "creator \<Rightarrow> nat \<Rightarrow> nat" where
  "list_no cr f \<equiv> nat (indexNumber cr f)"

text \<open>
  The invariant of a table with the rows \<open>rows\<close>: every index is well formed, no two indexes share a
  node, and among the rows \<open>V\<close> exactly those in the index are marked as linked in its list.
\<close>

definition table_ok :: "creator \<Rightarrow> addr set \<Rightarrow> ctable \<Rightarrow> addr list \<Rightarrow> (nat \<Rightarrow> addr list) \<Rightarrow> (nat \<Rightarrow> addr \<Rightarrow> addr list) \<Rightarrow> bool" where
  "table_ok cr V t rows ps rs \<longleftrightarrow> is_list (tmem t) (ll_head t) 0 rows
     \<and> (\<forall>f sk. skipLists t f = Some sk \<longrightarrow> 0 < indexNumber cr f \<and> 2 \<le> maxh sk \<and> ll_head t \<notin> set (ps f)
          \<and> index_at (compareFunction cr f) (list_no cr f) (sk\<lparr>slist := tmem t\<rparr>) (ps f) (rs f)
          \<and> (\<forall>r\<in>V. lprev (tmem t) r (list_no cr f) \<noteq> None \<longrightarrow> r \<in> set (index_rows (ps f) (rs f))))
     \<and> (\<forall>f g. f \<noteq> g \<and> skipLists t f \<noteq> None \<and> skipLists t g \<noteq> None \<longrightarrow> set (ps f) \<inter> set (ps g) = {})"

lemma table_okD:
  assumes "table_ok cr V t rows ps rs"
  shows "is_list (tmem t) (ll_head t) 0 rows"
    and "skipLists t f = Some sk \<Longrightarrow> 0 < indexNumber cr f \<and> 2 \<le> maxh sk \<and> ll_head t \<notin> set (ps f)"
    and "skipLists t f = Some sk \<Longrightarrow> index_at (compareFunction cr f) (list_no cr f) (sk\<lparr>slist := tmem t\<rparr>) (ps f) (rs f)"
    and "skipLists t f = Some sk \<Longrightarrow> r \<in> V \<Longrightarrow> lprev (tmem t) r (list_no cr f) \<noteq> None \<Longrightarrow> r \<in> set (index_rows (ps f) (rs f))"
    and "f \<noteq> g \<Longrightarrow> skipLists t f \<noteq> None \<Longrightarrow> skipLists t g \<noteq> None \<Longrightarrow> set (ps f) \<inter> set (ps g) = {}"
  using assms unfolding table_ok_def by blast+

lemma creator_okD:
  assumes "creator_ok cr"
  shows "row_comparator (compareFunction cr f)" "indexNumber cr f \<noteq> 0"
    "f \<noteq> g \<Longrightarrow> 0 < indexNumber cr f \<Longrightarrow> indexNumber cr f \<noteq> indexNumber cr g"
  using assms unfolding creator_ok_def by blast+

lemma list_no_differs:
  assumes "creator_ok cr" "0 < indexNumber cr f"
  shows "list_no cr f \<noteq> 0" "f \<noteq> g \<Longrightarrow> 0 < indexNumber cr g \<Longrightarrow> list_no cr g \<noteq> list_no cr f"
  using assms(2) creator_okD(3) [OF assms(1), of f g] by auto

text \<open>A change of one index, through one head word and rows of its own list, leaves the others alone.\<close>

lemma table_ok_change:
  assumes cr: "creator_ok cr" and ok: "table_ok cr V t rows ps rs" and f: "0 < indexNumber cr f" "2 \<le> maxh sk'"
    and t': "skipLists t' = (skipLists t)(f := Some sk')" "ll_head t' = ll_head t"
    and un: "unchanged_for c (list_no cr f) R (tmem t) (tmem t')"
    and c: "c \<noteq> ll_head t" "\<forall>g. g \<noteq> f \<and> skipLists t g \<noteq> None \<longrightarrow> c \<notin> set (ps g) \<and> set ps' \<inter> set (ps g) = {}"
    and ix: "index_at (compareFunction cr f) (list_no cr f) (sk'\<lparr>slist := tmem t'\<rparr>) ps' rs'" "ll_head t \<notin> set ps'"
    and lp: "\<forall>r\<in>V. lprev (tmem t') r (list_no cr f) \<noteq> None \<longrightarrow> r \<in> set (index_rows ps' rs')"
  shows "table_ok cr V t' rows (ps(f := ps')) (rs(f := rs'))"
proof -
  note D = table_okD [OF ok]
  have l0: "is_list (tmem t') (ll_head t') 0 rows"
    using other_list_kept [OF un D(1)] c(1) list_no_differs(1) [OF cr f(1)] t'(2) by simp
  have other: "index_at (compareFunction cr g) (list_no cr g) (sk\<lparr>slist := tmem t'\<rparr>) (ps g) (rs g)
      \<and> (\<forall>r\<in>V. lprev (tmem t') r (list_no cr g) \<noteq> None \<longrightarrow> r \<in> set (index_rows (ps g) (rs g)))"
    if g: "g \<noteq> f" "skipLists t g = Some sk" for g sk
  proof -
    have n: "list_no cr g \<noteq> list_no cr f" using list_no_differs(2) [OF cr f(1)] g D(2) [OF g(2)] by metis
    have "lprev (tmem t') r (list_no cr g) = lprev (tmem t) r (list_no cr g)" for r
      using un n by (simp add: unchanged_for_def)
    moreover have "index_at (compareFunction cr g) (list_no cr g) (sk\<lparr>slist := tmem t, slist := tmem t'\<rparr>) (ps g) (rs g)"
      by (rule index_at_frame [OF D(3) [OF g(2)] _ _ n]) (use un c(2) g in auto)
    ultimately show ?thesis using D(4) [OF g(2)] by simp
  qed
  have dj: "set ps' \<inter> set (ps g) = {}" if "g \<noteq> f" "skipLists t' g \<noteq> None" for g
    using c(2) that t'(1) by (metis fun_upd_apply)
  show ?thesis
    unfolding table_ok_def
  proof (intro conjI allI impI)
    fix g sk assume g: "skipLists t' g = Some sk"
    show "0 < indexNumber cr g" "2 \<le> maxh sk" "ll_head t' \<notin> set ((ps(f := ps')) g)"
      using g f t' ix(2) D(2) [of g sk] by (auto split: if_splits)
    show "index_at (compareFunction cr g) (list_no cr g) (sk\<lparr>slist := tmem t'\<rparr>) ((ps(f := ps')) g) ((rs(f := rs')) g)"
      using g t'(1) ix(1) other [of g sk] by (auto split: if_splits)
    show "\<forall>r\<in>V. lprev (tmem t') r (list_no cr g) \<noteq> None \<longrightarrow> r \<in> set (index_rows ((ps(f := ps')) g) ((rs(f := rs')) g))"
      using g t'(1) lp other [of g sk] by (cases "g = f") simp_all
  next
    fix g h assume gh: "g \<noteq> h \<and> skipLists t' g \<noteq> None \<and> skipLists t' h \<noteq> None"
    consider "g = f" | "h = f" | "g \<noteq> f" "h \<noteq> f" by blast
    then show "set ((ps(f := ps')) g) \<inter> set ((ps(f := ps')) h) = {}"
    proof cases
      case 1
      then show ?thesis using gh dj [of h] by simp
    next
      case 2
      then show ?thesis using gh dj [of g] by (simp add: inf_commute)
    next
      case 3
      then show ?thesis using gh t'(1) D(5) [of g h] by simp
    qed
  qed (rule l0)
qed

text \<open>The addresses a new node may get.\<close>

definition fresh_node :: "ctable \<Rightarrow> (nat \<Rightarrow> addr list) \<Rightarrow> addr \<Rightarrow> bool" where
  "fresh_node t ps a \<longleftrightarrow> a \<noteq> 0 \<and> a \<noteq> ll_head t
     \<and> (\<forall>g sk. skipLists t g = Some sk \<longrightarrow> a \<noteq> shead sk \<and> a \<notin> set (ps g))"

lemma with_mem_simps [simp]:
  "slist (with_mem m t sk) = m" "slev (with_mem m t sk) = tlevel t" "maxh (with_mem m t sk) = maxh sk"
  "shead (with_mem m t sk) = shead sk" "snodes (with_mem m t sk) = snodes sk" "curh (with_mem m t sk) = curh sk"
  by (simp_all add: with_mem_def)

lemma index_at_with_mem:
  "index_at cmp i (with_mem m t sk) ps rs \<longleftrightarrow> index_at cmp i (sk\<lparr>slist := m\<rparr>) ps rs"
  by (rule iffI; erule index_at_cong) auto

text \<open>
  What the operations on the index of one field leave as it was; \<open>same_elsewhere\<close> is the part of a table
  they do not touch.
\<close>

definition same_elsewhere :: "nat \<Rightarrow> ctable \<Rightarrow> ctable \<Rightarrow> bool" where
  "same_elsewhere f t t' \<longleftrightarrow> ll_head t' = ll_head t \<and> share_reader t' = share_reader t
     \<and> (\<forall>g. g \<noteq> f \<longrightarrow> skipLists t' g = skipLists t g)
     \<and> (\<forall>sk. skipLists t f = Some sk \<longrightarrow> (\<exists>sk'. skipLists t' f = Some sk' \<and> shead sk' = shead sk \<and> maxh sk' = maxh sk))"

lemma insert_index_table:
  assumes cr: "creator_ok cr" and ok: "table_ok cr V t rows ps rs" and sk: "skipLists t f = Some sk"
    and row: "row \<noteq> 0" "lprev (tmem t) row (list_no cr f) = None" and a: "fresh_node t ps a"
    and lev: "rlevel (maxh sk) (tlevel t) = Some (h, lev)"
  defines "cmp \<equiv> compareFunction cr f" and "old \<equiv> index_rows (ps f) (rs f)"
  shows "\<exists>t' ps' rs'. same_elsewhere f t t' \<and> (tlevel t' = tlevel t \<or> tlevel t' = lev)
    \<and> table_ok cr V t' rows (ps(f := ps')) (rs(f := rs')) \<and> set ps' \<subseteq> insert a (set (ps f))
    \<and> (\<exists>c\<in>insert a (set (ps f)). unchanged_for c (list_no cr f) (insert row (set old)) (tmem t) (tmem t'))
    \<and> (if (\<exists>r\<in>set old. cmp row r = 0) \<and> unique cr f
       then ctable_InsertIntoIndex cr sanity a row f t = Some (Some (Unique_Check_Failed f), t')
         \<and> tmem t' = tmem t \<and> index_rows ps' rs' = old
       else ctable_InsertIntoIndex cr sanity a row f t = Some (None, t')
         \<and> index_rows ps' rs' = rows_after_insert cmp row old)"
proof -
  let ?i = "list_no cr f" and ?sk = "with_mem (tmem t) t sk"
  let ?ex = "\<exists>r\<in>set old. cmp row r = 0"
  note D = table_okD [OF ok]
  have ix: "index_at cmp ?i ?sk (ps f) (rs f)" using D(3) [OF sk] by (simp add: index_at_with_mem cmp_def)
  have fa: "a \<noteq> 0" "a \<noteq> shead ?sk" "a \<notin> set (ps f)" "a \<noteq> ll_head t" using a sk by (auto simp: fresh_node_def)
  have r2: "lprev (slist ?sk) row ?i = None" and l2: "rlevel (maxh ?sk) (slev ?sk) = Some (h, lev)" and m2: "2 \<le> maxh ?sk"
    using row(2) lev D(2) [OF sk] by simp_all
  from row_comparator.insert_index [OF creator_okD(1) [OF cr], of f, folded cmp_def, OF ix fa(1-3) row(1) r2 l2 m2,
      of sanity "unique cr f", folded old_def, unfolded with_mem_simps]
  obtain c sk' ps' rs' where R: "jsw_sinsert_linked sanity cmp a ?sk row ?i (unique cr f) =
        Some (Inr (if ?ex \<and> unique cr f then 0 else 1, sk'))"
      "index_at cmp ?i sk' ps' rs'" "slev sk' = tlevel t \<or> slev sk' = lev" "maxh sk' = maxh sk" "shead sk' = shead sk"
      "c \<in> insert a (set (ps f))" "set ps' \<subseteq> insert a (set (ps f))"
      "unchanged_for c ?i (insert row (set old)) (tmem t) (slist sk')"
      "if ?ex \<and> unique cr f then slist sk' = tmem t \<and> ps' = ps f \<and> rs' = rs f
       else index_rows ps' rs' = rows_after_insert cmp row old"
    by blast
  let ?t = "put_skip f sk' t"
  have t': "skipLists ?t = (skipLists t)(f := Some sk')" "ll_head ?t = ll_head t" "tmem ?t = slist sk'" "tlevel ?t = slev sk'"
    "share_reader ?t = share_reader t"
    by (simp_all add: put_skip_def)
  have lp: "\<forall>r\<in>V. lprev (tmem ?t) r ?i \<noteq> None \<longrightarrow> r \<in> set (index_rows ps' rs')"
  proof (intro ballI impI)
    fix r assume r: "r \<in> V" "lprev (tmem ?t) r ?i \<noteq> None"
    have "r \<in> set old" if "r \<noteq> row"
      using R(8) r that D(4) [OF sk r(1)] t'(3) unfolding old_def [symmetric] by (cases "r \<in> set old") (auto simp: unchanged_for_def)
    moreover have "r \<noteq> row" if "?ex \<and> unique cr f" using R(9) that r(2) row(2) t'(3) by auto
    moreover have "set (index_rows ps' rs') = (if ?ex \<and> unique cr f then set old else insert row (set old))"
      using R(9) unfolding old_def by (cases "?ex \<and> unique cr f") (auto simp del: set_concat simp: old_def)
    ultimately show "r \<in> set (index_rows ps' rs')" by (auto split: if_splits)
  qed
  have sep: "c \<noteq> ll_head t" "ll_head t \<notin> set ps'" using R(6, 7) fa(4) D(2) [OF sk] by auto
  have dj: "\<forall>g. g \<noteq> f \<and> skipLists t g \<noteq> None \<longrightarrow> c \<notin> set (ps g) \<and> set ps' \<inter> set (ps g) = {}"
  proof (intro allI impI)
    fix g assume g: "g \<noteq> f \<and> skipLists t g \<noteq> None"
    then have "set (ps f) \<inter> set (ps g) = {}" "a \<notin> set (ps g)" using D(5) [of f g] sk a by (auto simp: fresh_node_def)
    then show "c \<notin> set (ps g) \<and> set ps' \<inter> set (ps g) = {}" using R(6, 7) by blast
  qed
  have "table_ok cr V ?t rows (ps(f := ps')) (rs(f := rs'))"
  proof (rule table_ok_change [OF cr ok _ _ t'(1, 2) _ sep(1) dj _ sep(2) lp])
    show "unchanged_for c ?i (insert row (set old)) (tmem t) (tmem ?t)" using R(8) t'(3) by simp
    show "index_at (compareFunction cr f) ?i (sk'\<lparr>slist := tmem ?t\<rparr>) ps' rs'" using R(2) t'(3) by (simp add: cmp_def)
  qed (use D(2) [OF sk] R(4) in auto)
  moreover have "same_elsewhere f t ?t" using t' sk R(4, 5) by (auto simp: same_elsewhere_def)
  moreover have "ctable_InsertIntoIndex cr sanity a row f t =
      Some (if ?ex \<and> unique cr f then Some (Unique_Check_Failed f) else None, ?t)"
    using sk row(2) R(1) by (simp add: ctable_InsertIntoIndex_def Let_def cmp_def)
  moreover have "tmem ?t = tmem t \<and> index_rows ps' rs' = old" if "?ex \<and> unique cr f"
    using R(9) that t'(3) by (simp add: old_def)
  moreover have "index_rows ps' rs' = rows_after_insert cmp row old" if "\<not> (?ex \<and> unique cr f)"
    using R(9) that by argo
  moreover have "\<exists>c\<in>insert a (set (ps f)). unchanged_for c ?i (insert row (set old)) (tmem t) (tmem ?t)"
    using R(6, 8) t'(3) by auto
  ultimately show ?thesis using R(3, 7) t'(4)
    by (intro exI [of _ ?t] exI [of _ ps'] exI [of _ rs']) presburger
qed

lemma remove_index_table:
  assumes cr: "creator_ok cr" and ok: "table_ok cr V t rows ps rs" and sk: "skipLists t f = Some sk" and row: "row \<in> V"
  defines "old \<equiv> index_rows (ps f) (rs f)"
  shows "\<exists>t' ps' rs'. ctable_RemoveFromIndex cr sanity row f t = Some (None, t')
    \<and> same_elsewhere f t t' \<and> tlevel t' = tlevel t
    \<and> table_ok cr V t' rows (ps(f := ps')) (rs(f := rs')) \<and> index_rows ps' rs' = filter (\<lambda>r. r \<noteq> row) old
    \<and> lprev (tmem t') row (list_no cr f) = None
    \<and> (\<exists>c\<in>insert (ll_head t) (set (ps f)). unchanged_for c (list_no cr f) (set old) (tmem t) (tmem t')) \<and> set ps' \<subseteq> set (ps f)"
proof (cases "lprev (tmem t) row (list_no cr f) = None")
  case True
  note D = table_okD [OF ok]
  have "row \<notin> set old" using index_atD(6) [OF D(3) [OF sk], of row] True by (auto simp: old_def)
  then have "filter (\<lambda>r. r \<noteq> row) old = old" by (auto simp: filter_id_conv)
  then have "index_rows (ps f) (rs f) = filter (\<lambda>r. r \<noteq> row) old" by (simp add: old_def)
  moreover have "ctable_RemoveFromIndex cr sanity row f t = Some (None, t)"
    using sk True by (simp add: ctable_RemoveFromIndex_def Let_def)
  ultimately show ?thesis using ok True sk
    by (intro exI [of _ t] exI [of _ "ps f"] exI [of _ "rs f"]) (auto simp: same_elsewhere_def unchanged_for_def)
next
  case False
  let ?i = "list_no cr f" and ?sk = "with_mem (tmem t) t sk" and ?cmp = "compareFunction cr f"
  note D = table_okD [OF ok]
  have ix: "index_at ?cmp ?i ?sk (ps f) (rs f)" using D(3) [OF sk] by (simp add: index_at_with_mem)
  have mem: "row \<in> set (index_rows (ps f) (rs f))" using D(4) [OF sk row False] .
  obtain p ws m ps' rs' where p: "p \<in> set (ps f)" and ws: "ctable_ListRemove sanity (tmem t) row ?i = Inr ws"
      "m = run_writes ws (tmem t)" "lprev m row ?i = None" "lhead m row ?i = Some (HeadCell p)"
      "unchanged_for p ?i (set old) (tmem t) m" "set ps' \<subseteq> set (ps f)" "index_rows ps' rs' = filter (\<lambda>r. r \<noteq> row) old"
    and res: "if cell m p \<noteq> 0 then index_at ?cmp ?i (?sk\<lparr>slist := m\<rparr>) ps' rs'
       else lnext (tmem t) row ?i = 0
         \<and> (\<exists>sk'. jsw_serase ?cmp (?sk\<lparr>slist := lwrite_to (SetCell p row) m\<rparr>) row = Some (1, sk')
          \<and> lwrite_to (SetCell p 0) (slist sk') = m \<and> index_at ?cmp ?i (sk'\<lparr>slist := m\<rparr>) ps' rs')"
    and nx: "lnext (tmem t) row ?i \<noteq> 0 \<longrightarrow> cell m p \<noteq> 0"
    using row_comparator.remove_index [OF creator_okD(1) [OF cr] ix mem, of sanity, folded old_def, unfolded with_mem_simps]
    by blast
  have might: "ctable_ListRemoveMightBeTheLastOne sanity (tmem t) row ?i = Inr (ws, lnext (tmem t) row ?i = 0)"
    using ws(1) by (simp add: remove_might_be_last)
  have lp: "\<forall>r\<in>V. lprev m r ?i \<noteq> None \<longrightarrow> r \<in> set (index_rows ps' rs')"
  proof (intro ballI impI)
    fix r assume r: "r \<in> V" "lprev m r ?i \<noteq> None"
    have "r \<in> set old"
      using ws(5) r D(4) [OF sk r(1)] unfolding old_def [symmetric] by (cases "r \<in> set old") (auto simp: unchanged_for_def)
    then show "r \<in> set (index_rows ps' rs')" using ws(3, 7) r(2) by auto
  qed
  have sep: "p \<noteq> ll_head t" "ll_head t \<notin> set ps'" using p ws(6) D(2) [OF sk] by blast+
  have dj: "\<forall>g. g \<noteq> f \<and> skipLists t g \<noteq> None \<longrightarrow> p \<notin> set (ps g) \<and> set ps' \<inter> set (ps g) = {}"
  proof (intro allI impI)
    fix g assume "g \<noteq> f \<and> skipLists t g \<noteq> None"
    then have "set (ps f) \<inter> set (ps g) = {}" using D(5) [of f g] sk by simp
    then show "p \<notin> set (ps g) \<and> set ps' \<inter> set (ps g) = {}" using p ws(6) by blast
  qed
  have main: "table_ok cr V t' rows (ps(f := ps')) (rs(f := rs')) \<and> same_elsewhere f t t'"
    if "skipLists t' = (skipLists t)(f := Some sk')" "ll_head t' = ll_head t" "tmem t' = m" "share_reader t' = share_reader t"
      "maxh sk' = maxh sk" "shead sk' = shead sk" "index_at ?cmp ?i (sk'\<lparr>slist := m\<rparr>) ps' rs'" for t' sk'
  proof
    show "table_ok cr V t' rows (ps(f := ps')) (rs(f := rs'))"
      by (rule table_ok_change [OF cr ok _ _ that(1, 2) _ sep(1) dj _ sep(2)])
        (use that ws(5) lp D(2) [OF sk] in auto)
    show "same_elsewhere f t t'" using that sk by (auto simp: same_elsewhere_def)
  qed
  have "\<exists>t' sk'. ctable_RemoveFromIndex cr sanity row f t = Some (None, t') \<and> tlevel t' = tlevel t
      \<and> skipLists t' = (skipLists t)(f := Some sk') \<and> ll_head t' = ll_head t \<and> tmem t' = m \<and> share_reader t' = share_reader t
      \<and> maxh sk' = maxh sk \<and> shead sk' = shead sk \<and> index_at ?cmp ?i (sk'\<lparr>slist := m\<rparr>) ps' rs'"
  proof (cases "cell m p \<noteq> 0")
    case True
    have "index_at ?cmp ?i (sk\<lparr>slist := m\<rparr>) ps' rs'"
      by (rule index_at_cong [where sk = "?sk\<lparr>slist := m\<rparr>"]) (use res True in auto)
    moreover have "ctable_RemoveFromIndex cr sanity row f t = Some (None, t\<lparr>tmem := m\<rparr>)"
      using sk False might ws(2, 4) True by (auto simp: ctable_RemoveFromIndex_def Let_def)
    ultimately show ?thesis using sk
      by (intro exI [of _ "t\<lparr>tmem := m\<rparr>"] exI [of _ sk]) (simp add: fun_upd_idem)
  next
    case c0: False
    then obtain sk' where sk': "jsw_serase ?cmp (?sk\<lparr>slist := lwrite_to (SetCell p row) m\<rparr>) row = Some (1, sk')"
        "lwrite_to (SetCell p 0) (slist sk') = m" "index_at ?cmp ?i (sk'\<lparr>slist := m\<rparr>) ps' rs'" "lnext (tmem t) row ?i = 0"
      using res by auto
    let ?t = "put_skip f (sk'\<lparr>slist := m\<rparr>) (t\<lparr>tmem := m\<rparr>)"
    have w: "with_mem (run_writes [set_slot (HeadCell p) row] m) t sk = ?sk\<lparr>slist := lwrite_to (SetCell p row) m\<rparr>"
      by (simp add: with_mem_def)
    have "ctable_RemoveFromIndex cr sanity row f t = Some (None, ?t)"
      using sk False might ws(2, 4) c0 sk'(1, 2, 4) w by (auto simp: ctable_RemoveFromIndex_def Let_def)
    moreover have "index_at ?cmp ?i (sk'\<lparr>slist := m, slist := m\<rparr>) ps' rs'" using sk'(3) by simp
    ultimately show ?thesis using serase_keeps [OF sk'(1)]
      by (intro exI [of _ ?t] exI [of _ "sk'\<lparr>slist := m\<rparr>"]) (simp add: put_skip_def)
  qed
  then obtain t' sk' where T: "ctable_RemoveFromIndex cr sanity row f t = Some (None, t')" "tlevel t' = tlevel t"
      "tmem t' = m" "table_ok cr V t' rows (ps(f := ps')) (rs(f := rs'))" "same_elsewhere f t t'"
    using main by blast
  then show ?thesis using ws(3, 5, 7) p ws(6) by (intro exI [of _ t'] exI [of _ ps'] exI [of _ rs'] conjI) auto
qed

lemma remove_fields_table:
  assumes cr: "creator_ok cr" and row: "row \<in> V" and ok: "table_ok cr V t rows ps rs"
  shows "\<exists>t' ps' rs'. remove_fields cr sanity row fs t = Some (None, t') \<and> table_ok cr V t' rows ps' rs'
    \<and> (\<forall>f. skipLists t' f = None \<longleftrightarrow> skipLists t f = None)
    \<and> (\<forall>f. skipLists t f \<noteq> None \<longrightarrow> index_rows (ps' f) (rs' f) =
          (if f \<in> set fs then filter (\<lambda>r. r \<noteq> row) (index_rows (ps f) (rs f)) else index_rows (ps f) (rs f)))"
  using ok
proof (induction fs arbitrary: t ps rs)
  case Nil
  then show ?case by (intro exI [of _ t] exI [of _ ps] exI [of _ rs]) simp
next
  case (Cons f fs)
  show ?case
  proof (cases "skipLists t f")
    case None
    from Cons.IH [OF Cons.prems] obtain t' ps' rs' where R: "remove_fields cr sanity row fs t = Some (None, t')"
        "table_ok cr V t' rows ps' rs'" "\<forall>f. skipLists t' f = None \<longleftrightarrow> skipLists t f = None"
        "\<forall>f. skipLists t f \<noteq> None \<longrightarrow> index_rows (ps' f) (rs' f) =
          (if f \<in> set fs then filter (\<lambda>r. r \<noteq> row) (index_rows (ps f) (rs f)) else index_rows (ps f) (rs f))"
      by blast
    have "\<forall>g. skipLists t g \<noteq> None \<longrightarrow> index_rows (ps' g) (rs' g) =
          (if g \<in> set (f # fs) then filter (\<lambda>r. r \<noteq> row) (index_rows (ps g) (rs g)) else index_rows (ps g) (rs g))"
      using R(4) None by (metis set_ConsD list.set_intros(2))
    then show ?thesis using R(1-3) None by (intro exI [of _ t'] exI [of _ ps'] exI [of _ rs']) simp
  next
    case (Some sk)
    from remove_index_table [OF cr Cons.prems Some row, of sanity] obtain t1 ps1 rs1 where
      S: "ctable_RemoveFromIndex cr sanity row f t = Some (None, t1)" "same_elsewhere f t t1"
        "table_ok cr V t1 rows (ps(f := ps1)) (rs(f := rs1))"
        "index_rows ps1 rs1 = filter (\<lambda>r. r \<noteq> row) (index_rows (ps f) (rs f))"
      by blast
    have dom: "skipLists t1 g = None \<longleftrightarrow> skipLists t g = None" for g
      using S(2) Some by (cases "g = f") (auto simp: same_elsewhere_def)
    from Cons.IH [OF S(3)] obtain t' ps' rs' where R: "remove_fields cr sanity row fs t1 = Some (None, t')"
        "table_ok cr V t' rows ps' rs'" "\<forall>f. skipLists t' f = None \<longleftrightarrow> skipLists t1 f = None"
        "\<forall>g. skipLists t1 g \<noteq> None \<longrightarrow> index_rows (ps' g) (rs' g) =
          (if g \<in> set fs then filter (\<lambda>r. r \<noteq> row) (index_rows ((ps(f := ps1)) g) ((rs(f := rs1)) g))
           else index_rows ((ps(f := ps1)) g) ((rs(f := rs1)) g))"
      by blast
    have "index_rows (ps' g) (rs' g) =
          (if g \<in> set (f # fs) then filter (\<lambda>r. r \<noteq> row) (index_rows (ps g) (rs g)) else index_rows (ps g) (rs g))"
      if g: "skipLists t g \<noteq> None" for g
    proof -
      have "skipLists t1 g \<noteq> None" using dom [of g] g by simp
      with R(4) have e: "index_rows (ps' g) (rs' g) =
          (if g \<in> set fs then filter (\<lambda>r. r \<noteq> row) (index_rows ((ps(f := ps1)) g) ((rs(f := rs1)) g))
           else index_rows ((ps(f := ps1)) g) ((rs(f := rs1)) g))" by blast
      show ?thesis
      proof (cases "g = f")
        case True
        have "filter (\<lambda>r. r \<noteq> row) (index_rows ps1 rs1) = index_rows ps1 rs1" unfolding S(4) by simp
        then show ?thesis using e S(4) True by (cases "f \<in> set fs") simp_all
      next
        case False
        then show ?thesis using e by simp
      qed
    qed
    then show ?thesis using S(1) R(1-3) dom Some by (intro exI [of _ t'] exI [of _ ps'] exI [of _ rs']) simp
  qed
qed

text \<open>Removal from list 0 does not disturb an index.\<close>

lemma remove_row_table:
  assumes cr: "creator_ok cr" and ok: "table_ok cr V t (xs @ row # ys) ps rs"
  shows "\<exists>ws. ctable_ListRemove sanity (tmem t) row 0 = Inr ws
    \<and> table_ok cr V (t\<lparr>tmem := run_writes ws (tmem t)\<rparr>) (xs @ ys) ps rs"
proof -
  note D = table_okD [OF ok]
  obtain ws where ws: "ctable_ListRemove sanity (tmem t) row 0 = Inr ws"
      "is_list (run_writes ws (tmem t)) (ll_head t) 0 (xs @ ys)"
      "unchanged_for (ll_head t) 0 (set (xs @ row # ys)) (tmem t) (run_writes ws (tmem t))"
    using remove_list [OF D(1), of sanity] by blast
  let ?m = "run_writes ws (tmem t)"
  have "index_at (compareFunction cr f) (list_no cr f) (sk\<lparr>slist := ?m\<rparr>) (ps f) (rs f)
      \<and> (\<forall>r. lprev ?m r (list_no cr f) = lprev (tmem t) r (list_no cr f))" if "skipLists t f = Some sk" for f sk
  proof -
    have n: "list_no cr f \<noteq> 0" using D(2) [OF that] list_no_differs(1) [OF cr] by blast
    have "index_at (compareFunction cr f) (list_no cr f) (sk\<lparr>slist := tmem t, slist := ?m\<rparr>) (ps f) (rs f)"
      by (rule index_at_frame [OF D(3) [OF that] _ _ n]) (use ws(3) D(2) [OF that] in auto)
    then show ?thesis using ws(3) n by (simp add: unchanged_for_def)
  qed
  then have "table_ok cr V (t\<lparr>tmem := ?m\<rparr>) (xs @ ys) ps rs"
    using ws(2) D(2, 4, 5) unfolding table_ok_def by simp
  then show ?thesis using ws(1) by blast
qed

section \<open>Creating an index\<close>

text \<open>The random generator yields a height in each of the next \<open>n\<close> draws.\<close>

fun heights_ok :: "nat \<Rightarrow> nat \<Rightarrow> level_state \<Rightarrow> bool" where
  "heights_ok mx 0 lev \<longleftrightarrow> True"
| "heights_ok mx (Suc n) lev \<longleftrightarrow> (case rlevel mx lev of None \<Rightarrow> False | Some (h, lev') \<Rightarrow> heights_ok mx n lev')"

lemma heights_ok_less: "heights_ok mx (Suc n) lev \<Longrightarrow> heights_ok mx n lev"
  by (induction n arbitrary: lev) (auto split: option.splits)

lemma heights_ok_step:
  assumes "heights_ok mx (Suc n) lev"
  obtains h lev' where "rlevel mx lev = Some (h, lev')" "heights_ok mx n lev'" "heights_ok mx n lev"
  using assms heights_ok_less [OF assms] by (auto split: option.splits)

lemma is_list_next: "is_list m c i (xs @ r # ys) \<Longrightarrow> lnext m r i = hd (ys @ [0])"
  using reads_tail [of m i "HeadCell c" xs "r # ys"] by (cases ys) (auto simp: is_list_def)

text \<open>No two rows of the list compare equal (the later one is the first argument).\<close>

definition distinct_keys :: "addr cmp_t \<Rightarrow> addr list \<Rightarrow> bool" where
  "distinct_keys cmp xs \<longleftrightarrow> sorted_wrt (\<lambda>r s. cmp s r \<noteq> 0) xs"

lemma distinct_keys_append:
  "distinct_keys cmp (xs @ [r]) \<longleftrightarrow> distinct_keys cmp xs \<and> (\<forall>x\<in>set xs. cmp r x \<noteq> 0)"
  "distinct_keys cmp (xs @ ys) \<Longrightarrow> distinct_keys cmp xs"
  by (auto simp: distinct_keys_def sorted_wrt_append)

lemma create_loop_table:
  assumes cr: "creator_ok cr"
    and "table_ok cr (set (xs @ todo)) t (xs @ todo) ps rs" "skipLists t f = Some sk" "maxh sk = mx"
    and "set (index_rows (ps f) (rs f)) = set xs" "heights_ok mx (length todo) (tlevel t)"
    and "\<forall>r\<in>set todo. fresh_node t ps (new_at r)" "inj_on new_at (set todo)"
    and "unique cr f \<longrightarrow> distinct_keys (compareFunction cr f) xs"
  shows "\<exists>t'. ll_head t' = ll_head t \<and> share_reader t' = share_reader t
    \<and> (if unique cr f \<and> \<not> distinct_keys (compareFunction cr f) (xs @ todo)
       then create_loop cr sanity new_at f (hd (todo @ [0])) t = Some (Some (Unique_Check_Failed f), t')
         \<and> skipLists t' f = None \<and> is_list (tmem t') (ll_head t') 0 (xs @ todo)
         \<and> (xs @ todo \<noteq> [] \<longrightarrow> lprev (tmem t') (hd (xs @ todo)) (list_no cr f) \<noteq> None)
       else create_loop cr sanity new_at f (hd (todo @ [0])) t = Some (None, t')
         \<and> (\<exists>ps' rs'. table_ok cr (set (xs @ todo)) t' (xs @ todo) (ps(f := ps')) (rs(f := rs'))
              \<and> set (index_rows ps' rs') = set (xs @ todo) \<and> skipLists t' f \<noteq> None))"
  using assms(2-)
proof (induction todo arbitrary: xs t ps rs sk)
  case Nil
  have "create_loop cr sanity new_at f 0 t = Some (None, t)" by (simp add: create_loop.simps)
  then show ?case using Nil by (intro exI [of _ t]) (auto intro!: exI [of _ "ps f"] exI [of _ "rs f"])
next
  case (Cons row todo)
  let ?cmp = "compareFunction cr f" and ?old = "index_rows (ps f) (rs f)"
  note ok = Cons.prems(1) and sk = Cons.prems(2)
  note D = table_okD [OF ok]
  have l: "is_list (tmem t) (ll_head t) 0 (xs @ row # todo)" using D(1) .
  have row0: "row \<noteq> 0" using is_list_null [OF l] by auto
  have "row \<notin> set xs" using l by (auto simp: is_list_def)
  then have "row \<notin> set ?old" using Cons.prems(4) by blast
  then have unl: "lprev (tmem t) row (list_no cr f) = None" using D(4) [OF sk, of row] by (meson in_set_conv_decomp)
  obtain h lev where lev: "rlevel (maxh sk) (tlevel t) = Some (h, lev)" "heights_ok mx (length todo) lev"
      "heights_ok mx (length todo) (tlevel t)"
    using Cons.prems(3, 5) heights_ok_step [of mx "length todo" "tlevel t"] by auto
  have a: "fresh_node t ps (new_at row)" using Cons.prems(6) by simp
  from insert_index_table [OF cr ok sk row0 unl a lev(1), of sanity] obtain t1 ps1 rs1 where
    S: "same_elsewhere f t t1" "tlevel t1 = tlevel t \<or> tlevel t1 = lev"
      "table_ok cr (set (xs @ row # todo)) t1 (xs @ row # todo) (ps(f := ps1)) (rs(f := rs1))"
      "set ps1 \<subseteq> insert (new_at row) (set (ps f))"
      "if (\<exists>r\<in>set ?old. ?cmp row r = 0) \<and> unique cr f
       then ctable_InsertIntoIndex cr sanity (new_at row) row f t = Some (Some (Unique_Check_Failed f), t1)
         \<and> tmem t1 = tmem t \<and> index_rows ps1 rs1 = ?old
       else ctable_InsertIntoIndex cr sanity (new_at row) row f t = Some (None, t1)
         \<and> index_rows ps1 rs1 = rows_after_insert ?cmp row ?old"
    by blast
  obtain sk1 where sk1: "skipLists t1 f = Some sk1" "maxh sk1 = mx" "shead sk1 = shead sk"
    using S(1) sk Cons.prems(3) by (auto simp: same_elsewhere_def)
  have el: "ll_head t1 = ll_head t" "share_reader t1 = share_reader t" "\<And>g. g \<noteq> f \<Longrightarrow> skipLists t1 g = skipLists t g"
    using S(1) by (auto simp: same_elsewhere_def)
  have l1: "is_list (tmem t1) (ll_head t1) 0 (xs @ row # todo)" using table_okD(1) [OF S(3)] .
  show ?case
  proof (cases "(\<exists>r\<in>set ?old. ?cmp row r = 0) \<and> unique cr f")
    case True
    then have ins: "ctable_InsertIntoIndex cr sanity (new_at row) row f t = Some (Some (Unique_Check_Failed f), t1)"
        "tmem t1 = tmem t" using S(5) by simp_all
    let ?t = "t1\<lparr>skipLists := (skipLists t1)(f := None)\<rparr>"
    have run: "create_loop cr sanity new_at f row t = Some (Some (Unique_Check_Failed f), ?t)"
      using ins(1) row0 by (simp add: create_loop.simps [of cr sanity new_at f row])
    have "\<not> distinct_keys ?cmp (xs @ [row])"
      using True Cons.prems(4) by (auto simp: distinct_keys_append)
    then have nd: "unique cr f \<and> \<not> distinct_keys ?cmp (xs @ row # todo)"
      using True distinct_keys_append(2) [of ?cmp "xs @ [row]" todo] by auto
    have "xs \<noteq> []" using True Cons.prems(4) by (cases xs) auto
    then have "hd xs \<in> set ?old" using Cons.prems(4) hd_in_set by blast
    then have "lprev (tmem t) (hd xs) (list_no cr f) \<noteq> None" using index_atD(6) [OF D(3) [OF sk]] by simp
    then show ?thesis using run nd l1 ins(2) el(1, 2) \<open>xs \<noteq> []\<close> by (intro exI [of _ ?t]) simp
  next
    case False
    then have ins: "ctable_InsertIntoIndex cr sanity (new_at row) row f t = Some (None, t1)"
        "index_rows ps1 rs1 = rows_after_insert ?cmp row ?old" using S(5) by (auto simp only: if_False)
    have run: "create_loop cr sanity new_at f (hd ((row # todo) @ [0])) t = create_loop cr sanity new_at f (hd (todo @ [0])) t1"
      using ins(1) row0 is_list_next [OF l1] by (simp add: create_loop.simps [of cr sanity new_at f row])
    have uk: "unique cr f \<longrightarrow> distinct_keys ?cmp (xs @ [row])"
      using False Cons.prems(4, 8) by (auto simp: distinct_keys_append)
    have fr: "\<forall>r\<in>set todo. fresh_node t1 (ps(f := ps1)) (new_at r)"
    proof
      fix r assume r: "r \<in> set todo"
      have d: "distinct (row # todo)" using l by (auto simp: is_list_def)
      have "new_at r \<noteq> new_at row" using Cons.prems(7) d r by (auto simp: inj_on_def)
      moreover have "fresh_node t ps (new_at r)" using Cons.prems(6) r by simp
      ultimately show "fresh_node t1 (ps(f := ps1)) (new_at r)"
        using S(4) sk1 sk el by (auto simp: fresh_node_def)
    qed
    have inj: "inj_on new_at (set todo)" using Cons.prems(7) by (rule inj_on_subset) auto
    have st: "set (index_rows ((ps(f := ps1)) f) ((rs(f := rs1)) f)) = set (xs @ [row])"
      unfolding fun_upd_same ins(2) set_rows_after_insert Cons.prems(4) by simp
    have ht: "heights_ok mx (length todo) (tlevel t1)" using S(2) lev by auto
    have app: "(xs @ [row]) @ todo = xs @ row # todo" by simp
    note IH = Cons.IH [of "xs @ [row]" t1 "ps(f := ps1)" "rs(f := rs1)" sk1, unfolded app, OF S(3) sk1(1, 2) st ht fr inj uk,
        unfolded fun_upd_upd el(1, 2)]
    show ?thesis unfolding run by (rule IH)
  qed
qed

lemma new_index_table:
  fixes seed :: ulong and r0 :: "addr \<Rightarrow> addr list"
  assumes cr: "creator_ok cr" and ok: "table_ok cr V t rows ps rs" and f: "skipLists t f = None" "0 < indexNumber cr f"
    and unl: "\<forall>r\<in>V. lprev (tmem t) r (list_no cr f) = None" and a: "fresh_node t ps a" and d: "1 \<le> depth"
  defines "t1 \<equiv> put_skip f (jsw_sinit a depth seed (tmem t) (tlevel t)) t"
  shows "table_ok cr V t1 rows (ps(f := [])) (rs(f := r0))" "ll_head t1 = ll_head t" "share_reader t1 = share_reader t"
    "tlevel t1 = (tlevel t)\<lparr>lrand := jsw_seed seed (lrand (tlevel t))\<rparr>" "lprev (tmem t1) = lprev (tmem t)"
    "cell (tmem t1) = (cell (tmem t))(a := 0)"
    "\<exists>sk. skipLists t1 = (skipLists t)(f := Some sk) \<and> shead sk = a \<and> maxh sk = Suc depth"
proof -
  let ?sk = "jsw_sinit a depth seed (tmem t) (tlevel t)"
  have a0: "a \<noteq> 0" "a \<noteq> ll_head t" using a by (auto simp: fresh_node_def)
  have m: "tmem t1 = (tmem t)\<lparr>cell := (cell (tmem t))(a := 0)\<rparr>" by (simp add: t1_def put_skip_def jsw_sinit_def)
  show el: "ll_head t1 = ll_head t" "share_reader t1 = share_reader t" by (simp_all add: t1_def put_skip_def)
  show "tlevel t1 = (tlevel t)\<lparr>lrand := jsw_seed seed (lrand (tlevel t))\<rparr>"
    by (simp add: t1_def put_skip_def jsw_sinit_def)
  show "lprev (tmem t1) = lprev (tmem t)" "cell (tmem t1) = (cell (tmem t))(a := 0)" by (simp_all add: m)
  have sk: "skipLists t1 = (skipLists t)(f := Some ?sk)" "shead ?sk = a" "maxh ?sk = Suc depth"
    by (simp_all add: t1_def put_skip_def jsw_sinit_def)
  then show "\<exists>sk. skipLists t1 = (skipLists t)(f := Some sk) \<and> shead sk = a \<and> maxh sk = Suc depth" by blast
  have un: "unchanged_for a (list_no cr f) {} (tmem t) (tmem t1)" by (simp add: unchanged_for_def m)
  have "skip_inv (compareFunction cr f) ?sk (\<lambda>i. [])"
    using a0 by (simp add: skip_inv_def levels_ok_def jsw_sinit_def)
  then have "index_at (compareFunction cr f) (list_no cr f) ?sk [] r0" unfolding index_at_def by auto
  then have ix: "index_at (compareFunction cr f) (list_no cr f) (?sk\<lparr>slist := tmem t1\<rparr>) [] r0"
    by (rule index_at_cong) (simp_all add: m jsw_sinit_def)
  show "table_ok cr V t1 rows (ps(f := [])) (rs(f := r0))"
    by (rule table_ok_change [OF cr ok f(2) _ sk(1) el(1) un a0(2) _ ix])
      (use sk(3) d a unl m in \<open>auto simp: fresh_node_def\<close>)
qed

section \<open>Properties\<close>

text \<open>
  \<^verbatim>\<open>ctable_InsertIntoIndex\<close> on a table in good order: a key that a unique index has already is
  refused and nothing changes; otherwise the row comes behind the rows of smaller keys and in front
  of all others.  The index stays sorted by the field, and the other indexes and the list of all
  rows stay as they were.
\<close>

theorem index_insert_correct:
  assumes "creator_ok cr" and "table_ok cr V t rows ps rs" and "skipLists t f = Some sk"
    and "row \<noteq> 0" and "lprev (tmem t) row (list_no cr f) = None" and "fresh_node t ps a"
    and "rlevel (maxh sk) (tlevel t) = Some (h, lev)"
  shows "\<exists>t' ps' rs'. table_ok cr V t' rows (ps(f := ps')) (rs(f := rs'))
    \<and> sorted_wrt (\<lambda>r s. compareFunction cr f r s \<le> 0) (index_rows ps' rs')
    \<and> (if (\<exists>r\<in>set (index_rows (ps f) (rs f)). compareFunction cr f row r = 0) \<and> unique cr f
       then ctable_InsertIntoIndex cr sanity a row f t = Some (Some (Unique_Check_Failed f), t')
         \<and> tmem t' = tmem t \<and> index_rows ps' rs' = index_rows (ps f) (rs f)
       else ctable_InsertIntoIndex cr sanity a row f t = Some (None, t')
         \<and> index_rows ps' rs' = rows_after_insert (compareFunction cr f) row (index_rows (ps f) (rs f)))"
proof -
  from insert_index_table [OF assms, of sanity] obtain t' ps' rs' where R: "same_elsewhere f t t'"
      "table_ok cr V t' rows (ps(f := ps')) (rs(f := rs'))"
      "if (\<exists>r\<in>set (index_rows (ps f) (rs f)). compareFunction cr f row r = 0) \<and> unique cr f
       then ctable_InsertIntoIndex cr sanity a row f t = Some (Some (Unique_Check_Failed f), t')
         \<and> tmem t' = tmem t \<and> index_rows ps' rs' = index_rows (ps f) (rs f)
       else ctable_InsertIntoIndex cr sanity a row f t = Some (None, t')
         \<and> index_rows ps' rs' = rows_after_insert (compareFunction cr f) row (index_rows (ps f) (rs f))"
    by blast
  obtain sk' where "skipLists t' f = Some sk'" using R(1) assms(3) by (auto simp: same_elsewhere_def)
  from row_comparator.index_sorted [OF creator_okD(1) [OF assms(1)] table_okD(3) [OF R(2) this]] show ?thesis
    using R(2, 3) by (intro exI [of _ t'] exI [of _ ps'] exI [of _ rs']) simp
qed

text \<open>
  C37. \<^verbatim>\<open>ctable_RemoveFromAllIndexes\<close>: the row leaves the list of all rows and every index, is marked as
  linked nowhere, and every other row stays where it is, in every index, in order.
\<close>

theorem remove_from_all_correct:
  assumes "creator_ok cr" and "table_ok cr V t (xs @ row # ys) ps rs" and "row \<in> V"
    and "\<forall>f\<ge>nFields cr. skipLists t f = None"
  shows "\<exists>t' ps' rs'. ctable_RemoveFromAllIndexes cr sanity row t = Some (None, t') \<and> table_ok cr V t' (xs @ ys) ps' rs'
    \<and> (\<forall>f. skipLists t f \<noteq> None \<longrightarrow> skipLists t' f \<noteq> None
         \<and> index_rows (ps' f) (rs' f) = filter (\<lambda>r. r \<noteq> row) (index_rows (ps f) (rs f))
         \<and> lprev (tmem t') row (list_no cr f) = None)"
proof -
  obtain ws where ws: "ctable_ListRemove sanity (tmem t) row 0 = Inr ws"
      "table_ok cr V (t\<lparr>tmem := run_writes ws (tmem t)\<rparr>) (xs @ ys) ps rs"
    using remove_row_table [OF assms(1, 2), of sanity] by blast
  let ?t = "t\<lparr>tmem := run_writes ws (tmem t)\<rparr>"
  from remove_fields_table [OF assms(1, 3) ws(2), of sanity "[0..<nFields cr]"] obtain t' ps' rs' where
    R: "remove_fields cr sanity row [0..<nFields cr] ?t = Some (None, t')" "table_ok cr V t' (xs @ ys) ps' rs'"
      "\<forall>f. skipLists t' f = None \<longleftrightarrow> skipLists t f = None"
      "\<forall>f. skipLists t f \<noteq> None \<longrightarrow> index_rows (ps' f) (rs' f) =
          (if f \<in> set [0..<nFields cr] then filter (\<lambda>r. r \<noteq> row) (index_rows (ps f) (rs f)) else index_rows (ps f) (rs f))"
    by auto
  have "index_rows (ps' f) (rs' f) = filter (\<lambda>r. r \<noteq> row) (index_rows (ps f) (rs f)) \<and> lprev (tmem t') row (list_no cr f) = None"
    if f: "skipLists t f \<noteq> None" for f
  proof
    have "f < nFields cr" using f assms(4) by (meson leI)
    then show e: "index_rows (ps' f) (rs' f) = filter (\<lambda>r. r \<noteq> row) (index_rows (ps f) (rs f))" using R(4) f by simp
    obtain sk' where "skipLists t' f = Some sk'" using R(3) f by fastforce
    moreover have "row \<notin> set (index_rows (ps' f) (rs' f))" unfolding e by simp
    ultimately show "lprev (tmem t') row (list_no cr f) = None" using table_okD(4) [OF R(2) _ assms(3)] by blast
  qed
  moreover have "ctable_RemoveFromAllIndexes cr sanity row t = Some (None, t')"
    using ws(1) R(1) by (simp add: ctable_RemoveFromAllIndexes_def)
  ultimately show ?thesis using R(2, 3) by (intro exI [of _ t'] exI [of _ ps'] exI [of _ rs']) simp
qed

text \<open>
  C38. \<^verbatim>\<open>ctable_CreateIndex\<close> for a field whose list is unused: all rows of the table are in the new index.
  When the index is unique and two rows have the same key it fails and there is no index, but the
  rows it had inserted stay marked as linked, and the next attempt panics with a double insertion.
\<close>

theorem create_index_correct:
  assumes "creator_ok cr" and "table_ok cr (set rows) t rows ps rs" and "skipLists t f = None" and "0 < indexNumber cr f"
    and "\<not> share_reader t" and "\<forall>r\<in>set rows. lprev (tmem t) r (list_no cr f) = None" and "fresh_node t ps a"
    and "\<forall>r\<in>set rows. fresh_node t ps (new_at r) \<and> new_at r \<noteq> a" and "inj_on new_at (set rows)" and "1 \<le> depth"
    and "heights_ok (Suc depth) (length rows) ((tlevel t)\<lparr>lrand := jsw_seed seed (lrand (tlevel t))\<rparr>)"
  shows "\<exists>t'. if unique cr f \<and> \<not> distinct_keys (compareFunction cr f) rows
    then ctable_CreateIndex cr sanity a seed new_at f depth t = Some (Some (Unique_Check_Failed f), t')
      \<and> skipLists t' f = None
      \<and> (a' \<noteq> ll_head t \<longrightarrow> (\<exists>t''. ctable_CreateIndex cr sanity a' seed' new_at' f depth' t' = Some (Some (Double_Insert f), t'')))
    else ctable_CreateIndex cr sanity a seed new_at f depth t = Some (None, t')
      \<and> (\<exists>ps' rs'. table_ok cr (set rows) t' rows (ps(f := ps')) (rs(f := rs')) \<and> set (index_rows ps' rs') = set rows
           \<and> skipLists t' f \<noteq> None)"
proof -
  let ?cmp = "compareFunction cr f"
  let ?t1 = "put_skip f (jsw_sinit a depth seed (tmem t) (tlevel t)) t"
  note N = new_index_table [OF assms(1-4, 6, 7, 10), where seed = seed]
  obtain sk where sk: "skipLists ?t1 = (skipLists t)(f := Some sk)" "shead sk = a" "maxh sk = Suc depth" using N(7) by blast
  have "a \<noteq> ll_head t" using assms(7) by (simp add: fresh_node_def)
  then have first: "cell (tmem ?t1) (ll_head ?t1) = hd (rows @ [0])"
    using N(2, 6) table_okD(1) [OF assms(2)] by (cases rows) (auto simp: is_list_def)
  have run: "ctable_CreateIndex cr sanity a seed new_at f depth t = create_loop cr sanity new_at f (hd (rows @ [0])) ?t1"
    using assms(3-5) first by (simp add: ctable_CreateIndex_def Let_def)
  have fr: "\<forall>r\<in>set rows. fresh_node ?t1 (ps(f := [])) (new_at r)"
    using assms(8) sk N(2) by (auto simp: fresh_node_def)
  have "\<exists>t'. ll_head t' = ll_head ?t1 \<and> share_reader t' = share_reader ?t1
    \<and> (if unique cr f \<and> \<not> distinct_keys ?cmp ([] @ rows)
       then create_loop cr sanity new_at f (hd (rows @ [0])) ?t1 = Some (Some (Unique_Check_Failed f), t')
         \<and> skipLists t' f = None \<and> is_list (tmem t') (ll_head t') 0 ([] @ rows)
         \<and> ([] @ rows \<noteq> [] \<longrightarrow> lprev (tmem t') (hd ([] @ rows)) (list_no cr f) \<noteq> None)
       else create_loop cr sanity new_at f (hd (rows @ [0])) ?t1 = Some (None, t')
         \<and> (\<exists>ps' rs'. table_ok cr (set ([] @ rows)) t' ([] @ rows) (ps(f := [], f := ps')) (rs(f := \<lambda>p. [], f := rs'))
              \<and> set (index_rows ps' rs') = set ([] @ rows) \<and> skipLists t' f \<noteq> None))"
    by (rule create_loop_table [OF assms(1) _ _ sk(3)]) (use N(1, 4) sk(1) assms(9, 11) fr in \<open>simp_all add: distinct_keys_def\<close>)
  then obtain t' where t': "ll_head t' = ll_head t" "share_reader t' = share_reader t"
    "if unique cr f \<and> \<not> distinct_keys ?cmp rows
       then create_loop cr sanity new_at f (hd (rows @ [0])) ?t1 = Some (Some (Unique_Check_Failed f), t')
         \<and> skipLists t' f = None \<and> is_list (tmem t') (ll_head t) 0 rows
         \<and> (rows \<noteq> [] \<longrightarrow> lprev (tmem t') (hd rows) (list_no cr f) \<noteq> None)
       else create_loop cr sanity new_at f (hd (rows @ [0])) ?t1 = Some (None, t')
         \<and> (\<exists>ps' rs'. table_ok cr (set rows) t' rows (ps(f := ps')) (rs(f := rs'))
              \<and> set (index_rows ps' rs') = set rows \<and> skipLists t' f \<noteq> None)"
    unfolding fun_upd_upd append_Nil N(2, 3) by metis
  have again: "\<exists>t''. ctable_CreateIndex cr sanity a' seed' new_at' f depth' t' = Some (Some (Double_Insert f), t'')"
    if "skipLists t' f = None" "is_list (tmem t') (ll_head t) 0 rows" "rows \<noteq> []" "lprev (tmem t') (hd rows) (list_no cr f) \<noteq> None"
      "a' \<noteq> ll_head t"
  proof -
    let ?t2 = "put_skip f (jsw_sinit a' depth' seed' (tmem t') (tlevel t')) t'"
    have m: "lprev (tmem ?t2) = lprev (tmem t')" "cell (tmem ?t2) (ll_head ?t2) = hd rows" "skipLists ?t2 f \<noteq> None" "hd rows \<noteq> 0"
      using that is_list_first [OF that(2, 3)] t'(1) by (simp_all add: put_skip_def jsw_sinit_def)
    then have "ctable_InsertIntoIndex cr sanity (new_at' (hd rows)) (hd rows) f ?t2 = Some (Some (Double_Insert f), ?t2)"
      using that(4) by (auto simp: ctable_InsertIntoIndex_def Let_def)
    then have "create_loop cr sanity new_at' f (hd rows) ?t2 = Some (Some (Double_Insert f), ?t2)"
      using m(4) by (simp add: create_loop.simps [of cr sanity new_at' f "hd rows"])
    then show ?thesis using assms(4, 5) t'(2) that(1) m(2) by (simp add: ctable_CreateIndex_def Let_def)
  qed
  have "rows \<noteq> []" if "\<not> distinct_keys ?cmp rows" using that by (auto simp: distinct_keys_def)
  then show ?thesis using t'(3) again run by (intro exI [of _ t']) (auto split: if_splits)
qed

section \<open>Reading and dropping an index\<close>

lemma walk_rows_Cons:
  "walk_rows sk = Some (r # rows) \<Longrightarrow> jsw_srow sk = r \<and> r \<noteq> 0 \<and> walk_rows (snd (jsw_snext sk)) = Some rows"
  by (subst (asm) walk_rows.simps) (auto split: if_splits Option.bind_splits)

lemma list_index_loop_walk:
  assumes "walk_rows sk = Some rows" "\<forall>r\<in>set rows. lappend r = Some (v r)"
  shows "list_index_loop lappend sk = Some (Inr (map v rows))"
  using assms
proof (induction rows arbitrary: sk)
  case Nil
  then have "jsw_srow sk = 0" by (subst (asm) walk_rows.simps) (auto split: if_splits Option.bind_splits)
  then show ?case by (simp add: list_index_loop.simps [of lappend sk])
next
  case (Cons r rows)
  have "jsw_srow sk = r" "r \<noteq> 0" "walk_rows (snd (jsw_snext sk)) = Some rows"
    using walk_rows_Cons [OF Cons.prems(1)] by auto
  then show ?case using Cons.IH [of "snd (jsw_snext sk)"] Cons.prems(2)
    by (simp add: list_index_loop.simps [of lappend sk] Let_def)
qed

lemma index_walk:
  assumes "index_at cmp i sk ps rs"
  shows "walk_rows (jsw_sreset sk) = Some (map (\<lambda>p. hd (rs p)) ps)"
proof -
  obtain lv where lv: "skip_inv cmp sk lv" "lv 0 = ps" using assms by (rule index_atE)
  have hd: "hd (rs p) = srow sk p \<and> srow sk p \<noteq> 0" if "p \<in> set ps" for p
    using is_list_first [OF index_atD(2) [OF assms that] index_atD(1) [OF assms that]] .
  have "walk_rows (jsw_sreset sk) = Some (map (srow (jsw_sreset sk)) (lv 0))"
    by (rule walk_rows_chain) (use levels_okD(5) [of sk lv 0] lv hd in \<open>force simp: jsw_sreset_def skip_inv_def\<close>)+
  moreover have "map (srow sk) ps = map (\<lambda>p. hd (rs p)) ps" using hd by (intro map_cong) auto
  ultimately show ?thesis using lv(2) by (simp add: jsw_sreset_def)
qed

text \<open>\<^verbatim>\<open>ctable_ListIndex\<close> lists one value per key, in order; the low and high values are those of the ends.\<close>

lemma list_index_values:
  assumes "table_ok cr V t rows ps rs" "skipLists t f = Some sk" "\<forall>r\<in>set (index_rows (ps f) (rs f)). lappend r = Some (v r)"
  shows "ctable_ListIndex lappend f t = Some (Inr (map (\<lambda>p. v (hd (rs f p))) (ps f)))"
proof -
  have ix: "index_at (compareFunction cr f) (list_no cr f) (with_mem (tmem t) t sk) (ps f) (rs f)"
    using table_okD(3) [OF assms(1, 2)] by (simp add: index_at_with_mem)
  have "hd (rs f p) \<in> set (index_rows (ps f) (rs f))" if "p \<in> set (ps f)" for p
    using index_atD(1) [OF ix that] hd_in_set that by fastforce
  then have "list_index_loop lappend (jsw_sreset (with_mem (tmem t) t sk)) = Some (Inr (map v (map (\<lambda>p. hd (rs f p)) (ps f))))"
    by (intro list_index_loop_walk index_walk [OF ix]) (use assms(3) in fastforce)
  then show ?thesis using assms(2) by (simp add: ctable_ListIndex_def comp_def)
qed

lemma clear_nodes_list:
  assumes "is_list m c 0 (xs @ ys)" "index \<noteq> 0"
  shows "\<exists>m'. clear_nodes index (hd (ys @ [0])) m = Some m' \<and> is_list m' c 0 (xs @ ys) \<and> cell m' = cell m
    \<and> (\<forall>r j. lprev m' r j = (if r \<in> set ys \<and> j = index then None else lprev m r j))
    \<and> (\<forall>r j. j \<noteq> index \<longrightarrow> lnext m' r j = lnext m r j \<and> lhead m' r j = lhead m r j)"
  using assms(1)
proof (induction ys arbitrary: xs m)
  case Nil
  then show ?case by (simp add: clear_nodes.simps)
next
  case (Cons r ys)
  let ?m = "run_writes [SetNext r index 0, SetPrev r index None, SetHead r index None] m"
  have r0: "r \<noteq> 0" using is_list_null [OF Cons.prems] by auto
  have "unchanged_for (Suc c) index {r} m ?m" by (simp add: unchanged_for_def)
  then have l: "is_list ?m c 0 (xs @ r # ys)" using other_list_kept [OF _ Cons.prems] assms(2) by simp
  then have nx: "lnext ?m r 0 = hd (ys @ [0])" by (rule is_list_next)
  from Cons.IH [of "?m" "xs @ [r]"] l obtain m' where R: "clear_nodes index (hd (ys @ [0])) ?m = Some m'"
      "is_list m' c 0 (xs @ r # ys)" "cell m' = cell ?m"
      "\<forall>r' j. lprev m' r' j = (if r' \<in> set ys \<and> j = index then None else lprev ?m r' j)"
      "\<forall>r' j. j \<noteq> index \<longrightarrow> lnext m' r' j = lnext ?m r' j \<and> lhead m' r' j = lhead ?m r' j"
    by auto
  have "clear_nodes index r m = Some m'" using r0 R(1) nx by (simp add: clear_nodes.simps [of index r] Let_def)
  then show ?case using R(2-5) by (intro exI [of _ m']) auto
qed

text \<open>\<^verbatim>\<open>ctable_DropIndex\<close> leaves no row of the table linked in the list of the field.\<close>

lemma drop_index_clears:
  assumes "creator_ok cr" "table_ok cr V t rows ps rs" "skipLists t f \<noteq> None"
  shows "\<exists>t'. ctable_DropIndex cr f False t = Some t' \<and> skipLists t' = (skipLists t)(f := None)
    \<and> is_list (tmem t') (ll_head t') 0 rows \<and> (\<forall>r\<in>set rows. lprev (tmem t') r (list_no cr f) = None)"
proof -
  obtain sk where sk: "skipLists t f = Some sk" using assms(3) by auto
  have l: "is_list (tmem t) (ll_head t) 0 ([] @ rows)" using table_okD(1) [OF assms(2)] by simp
  have n: "list_no cr f \<noteq> 0" using table_okD(2) [OF assms(2) sk] by simp
  have "cell (tmem t) (ll_head t) = hd (rows @ [0])" using l by (cases rows) (auto simp: is_list_def)
  then show ?thesis using clear_nodes_list [OF l n] sk
    by (auto simp: ctable_DropIndex_def Let_def)
qed

section \<open>Witnesses\<close>

text \<open>A table of two rows and one field, with a list number and no index yet.\<close>

definition sample_creator :: creator where
  "sample_creator = \<lparr>nFields = 1, indexNumber = (\<lambda>f. int f + 1), compareFunction = (\<lambda>f. address_order), unique = (\<lambda>f. False)\<rparr>"

definition sample_memory :: list_mem where
  "sample_memory = \<lparr>lnext = (\<lambda>r j. if r = 24 \<and> j = 0 then 40 else 0),
     lprev = (\<lambda>r j. if j \<noteq> 0 then None else if r = 24 then Some (HeadCell 8) else if r = 40 then Some (NextCell 24 0) else None),
     lhead = (\<lambda>r j. if j = 0 then Some (HeadCell 8) else None), cell = (\<lambda>c. if c = 8 then 24 else 0)\<rparr>"

definition sample_table :: ctable where
  "sample_table = \<lparr>tmem = sample_memory, ll_head = 8, skipLists = (\<lambda>f. None), share_reader = False,
     tlevel = \<lparr>lbits = 7, lreset = 31, lrand = \<lparr>rx = [], rnext = 0\<rparr>\<rparr>\<rparr>"

lemma sample_creator_ok: "creator_ok sample_creator"
  using addresses.row_comparator_axioms by (auto simp: creator_ok_def sample_creator_def)

lemma sample_table_ok: "table_ok sample_creator V sample_table [24, 40] ps rs"
  by (simp add: table_ok_def sample_table_def sample_memory_def is_list_def)

lemma sample_draws:
  "rlevel 5 \<lparr>lbits = 7, lreset = 31, lrand = r\<rparr> = Some (1, \<lparr>lbits = 3, lreset = 30, lrand = r\<rparr>)"
  "rlevel 5 \<lparr>lbits = 3, lreset = 30, lrand = r\<rparr> = Some (1, \<lparr>lbits = 1, lreset = 29, lrand = r\<rparr>)"
  "rlevel 5 \<lparr>lbits = 1, lreset = 29, lrand = r\<rparr> = Some (1, \<lparr>lbits = 0, lreset = 28, lrand = r\<rparr>)"
  by (simp_all add: rlevel_def rlevel_loop.simps draw_bits_def Let_def drop_bit_Suc)

lemma sample_heights: "heights_ok 5 2 \<lparr>lbits = 7, lreset = 31, lrand = r\<rparr>"
  by (simp add: numeral_2_eq_2 sample_draws)

definition sample_indexed :: ctable where
  "sample_indexed = put_skip 0 (jsw_sinit 16 4 0 (tmem sample_table) (tlevel sample_table)) sample_table"

lemma sample_fresh: "a \<notin> {0, 8} \<Longrightarrow> fresh_node sample_table ps a"
  by (simp add: fresh_node_def sample_table_def)

lemma sample_unlinked: "\<forall>r\<in>V. lprev (tmem sample_table) r (list_no sample_creator 0) = None"
  by (simp add: sample_table_def sample_memory_def sample_creator_def)

lemma sample_indexed_ok:
  "table_ok sample_creator {24, 40} sample_indexed [24, 40] (\<lambda>f. []) (\<lambda>f p. [])"
  "\<exists>sk. skipLists sample_indexed 0 = Some sk \<and> maxh sk = 5 \<and> shead sk = 16" "skipLists sample_indexed (Suc f) = None"
  "ll_head sample_indexed = 8" "\<exists>r. tlevel sample_indexed = \<lparr>lbits = 7, lreset = 31, lrand = r\<rparr>"
  "lprev (tmem sample_indexed) 24 (list_no sample_creator 0) = None"
proof -
  have f: "skipLists sample_table 0 = None" "0 < indexNumber sample_creator 0" "1 \<le> (4 :: nat)"
    by (simp_all add: sample_table_def sample_creator_def)
  have N: "table_ok sample_creator {24, 40} sample_indexed [24, 40] ((\<lambda>f. [])(0 := [])) ((\<lambda>f p. [])(0 := \<lambda>p. []))"
    unfolding sample_indexed_def
    by (rule new_index_table [OF sample_creator_ok sample_table_ok f(1, 2) sample_unlinked sample_fresh f(3)]) simp
  show "table_ok sample_creator {24, 40} sample_indexed [24, 40] (\<lambda>f. []) (\<lambda>f p. [])"
    using N by (simp add: fun_upd_idem)
  show "\<exists>sk. skipLists sample_indexed 0 = Some sk \<and> maxh sk = 5 \<and> shead sk = 16" "skipLists sample_indexed (Suc f) = None"
    by (auto simp: sample_indexed_def put_skip_def jsw_sinit_def sample_table_def)
  show "ll_head sample_indexed = 8" "\<exists>r. tlevel sample_indexed = \<lparr>lbits = 7, lreset = 31, lrand = r\<rparr>"
    "lprev (tmem sample_indexed) 24 (list_no sample_creator 0) = None"
    by (simp_all add: sample_indexed_def put_skip_def jsw_sinit_def sample_table_def sample_memory_def sample_creator_def)
qed

lemma sample_indexed_fresh: "fresh_node sample_indexed (\<lambda>f. []) 32"
  unfolding fresh_node_def
proof (intro conjI allI impI)
  fix g sk assume "skipLists sample_indexed g = Some sk"
  then show "32 \<noteq> shead sk" "32 \<notin> set []" using sample_indexed_ok(2, 3) by (cases g; auto)+
qed (simp_all add: sample_indexed_ok(4))

lemma index_insert_correct_witness:
  "\<exists>t' ps' rs'. ctable_InsertIntoIndex sample_creator False 32 24 0 sample_indexed = Some (None, t') \<and> index_rows ps' rs' = [24]"
proof -
  obtain sk r where sk: "skipLists sample_indexed 0 = Some sk" "maxh sk = 5" "shead sk = 16"
      "tlevel sample_indexed = \<lparr>lbits = 7, lreset = 31, lrand = r\<rparr>"
    using sample_indexed_ok(2, 5) by blast
  note sample_indexed_fresh
  moreover have "rlevel (maxh sk) (tlevel sample_indexed) = Some (1, \<lparr>lbits = 3, lreset = 30, lrand = r\<rparr>)"
    by (simp add: sk sample_draws)
  ultimately have "\<exists>t' ps' rs'. ctable_InsertIntoIndex sample_creator False 32 24 0 sample_indexed = Some (None, t')
      \<and> index_rows ps' rs' = rows_after_insert (compareFunction sample_creator 0) 24 []"
    using index_insert_correct [OF sample_creator_ok sample_indexed_ok(1) sk(1) _ sample_indexed_ok(6), of 32 1
        "\<lparr>lbits = 3, lreset = 30, lrand = r\<rparr>" False]
    by auto
  then show ?thesis by (simp add: rows_after_insert_def)
qed

lemma one_row_indexed:
  "\<exists>t ps rs. table_ok sample_creator {24, 40} t [24, 40] ps rs \<and> index_rows (ps 0) (rs 0) = [24]
    \<and> (\<forall>f\<ge>nFields sample_creator. skipLists t f = None) \<and> skipLists t 0 \<noteq> None"
proof -
  obtain sk r where sk: "skipLists sample_indexed 0 = Some sk" "maxh sk = 5" "shead sk = 16"
      "tlevel sample_indexed = \<lparr>lbits = 7, lreset = 31, lrand = r\<rparr>"
    using sample_indexed_ok(2, 5) by blast
  note a = sample_indexed_fresh
  have lev: "rlevel (maxh sk) (tlevel sample_indexed) = Some (1, \<lparr>lbits = 3, lreset = 30, lrand = r\<rparr>)"
    by (simp add: sk sample_draws)
  have "(24 :: addr) \<noteq> 0" by simp
  from insert_index_table [OF sample_creator_ok sample_indexed_ok(1) sk(1) this sample_indexed_ok(6) a lev, of False]
  obtain t ps' rs' where R: "same_elsewhere 0 sample_indexed t"
      "table_ok sample_creator {24, 40} t [24, 40] ((\<lambda>f. [])(0 := ps')) ((\<lambda>f p. [])(0 := rs'))"
      "index_rows ps' rs' = rows_after_insert (compareFunction sample_creator 0) 24 []"
    by auto
  have "skipLists t f = None" if "nFields sample_creator \<le> f" for f
    using R(1) that sample_indexed_ok(3) [of "f - 1"] by (cases f) (auto simp: same_elsewhere_def sample_creator_def)
  moreover have "skipLists t 0 \<noteq> None" using R(1) sk(1) by (auto simp: same_elsewhere_def)
  ultimately show ?thesis using R(2, 3)
    by (intro exI [of _ t] exI [of _ "(\<lambda>f. [])(0 := ps')"] exI [of _ "(\<lambda>f p. [])(0 := rs')"]) (simp add: rows_after_insert_def)
qed

lemma remove_from_all_correct_witness:
  "\<exists>t t' ps' rs'. ctable_RemoveFromAllIndexes sample_creator False 24 t = Some (None, t')
    \<and> table_ok sample_creator {24, 40} t' [40] ps' rs' \<and> index_rows (ps' 0) (rs' 0) = []"
proof -
  obtain t ps rs where t: "table_ok sample_creator {24, 40} t ([] @ 24 # [40]) ps rs" "index_rows (ps 0) (rs 0) = [24]"
      "\<forall>f\<ge>nFields sample_creator. skipLists t f = None" "skipLists t 0 \<noteq> None"
    using one_row_indexed by auto
  have "24 \<in> {24, 40 :: addr}" by simp
  from remove_from_all_correct [OF sample_creator_ok t(1) this t(3), of False] obtain t' ps' rs' where
    R: "ctable_RemoveFromAllIndexes sample_creator False 24 t = Some (None, t')" "table_ok sample_creator {24, 40} t' ([] @ [40]) ps' rs'"
      "index_rows (ps' 0) (rs' 0) = filter (\<lambda>r. r \<noteq> 24) (index_rows (ps 0) (rs 0))"
    using t(4) by blast
  have "index_rows (ps' 0) (rs' 0) = []" unfolding R(3) t(2) by simp
  then show ?thesis using R(1, 2)
    by (intro exI [of _ t] exI [of _ t'] exI [of _ ps'] exI [of _ rs']) simp
qed

lemma create_index_correct_witness:
  "\<exists>t ps rs. ctable_CreateIndex sample_creator False 16 0 (\<lambda>r. r + 4) 0 4 sample_table = Some (None, t)
    \<and> table_ok sample_creator {24, 40} t [24, 40] ps rs \<and> set (index_rows (ps 0) (rs 0)) = {24, 40}"
proof -
  have h: "heights_ok (Suc 4) (length [24, 40 :: addr]) ((tlevel sample_table)\<lparr>lrand := jsw_seed 0 (lrand (tlevel sample_table))\<rparr>)"
    using sample_heights by (simp add: sample_table_def numeral_2_eq_2 sample_draws)
  have fr: "\<forall>r\<in>set [24, 40]. fresh_node sample_table (\<lambda>f. []) (r + 4) \<and> r + 4 \<noteq> 16" using sample_fresh by auto
  have ok: "table_ok sample_creator (set [24, 40]) sample_table [24, 40] (\<lambda>f. []) (\<lambda>f p. [])" by (rule sample_table_ok)
  have s: "skipLists sample_table 0 = None" "0 < indexNumber sample_creator 0" "\<not> share_reader sample_table" "1 \<le> (4 :: nat)"
      "inj_on (\<lambda>r :: addr. r + 4) (set [24, 40])" "\<not> unique sample_creator 0"
    by (simp_all add: sample_table_def sample_creator_def)
  have "fresh_node sample_table (\<lambda>f. []) 16" by (rule sample_fresh) simp
  from create_index_correct [OF sample_creator_ok ok s(1-3) sample_unlinked this fr s(5, 4) h, of False 0 0 "\<lambda>r. r" 0]
  obtain t ps' rs' where R: "ctable_CreateIndex sample_creator False 16 0 (\<lambda>r. r + 4) 0 4 sample_table = Some (None, t)"
      "table_ok sample_creator (set [24, 40]) t [24, 40] ((\<lambda>f. [])(0 := ps')) ((\<lambda>f p. [])(0 := rs'))"
      "set (index_rows ps' rs') = set [24, 40]"
    using s(6) by auto
  then show ?thesis
    by (intro exI [of _ t] exI [of _ "(\<lambda>f. [])(0 := ps')"] exI [of _ "(\<lambda>f p. [])(0 := rs')"]) simp
qed

end
