(* ===== verification/TableCursor.thy ===== *)
theory TableCursor
  imports Prelude
begin

text \<open>
  Cursors, the end of \<^verbatim>\<open>ctables/ctable_search.c\<close>: a search can leave its result behind as a cursor, with a
  Tcl command of its own.  Cursors are heap objects named by address; a table chains its cursors, and
  deleting the command of a cursor destroys it, as destroying it deletes the command.
\<close>

section \<open>State\<close>

datatype cursor_mode = CURSOR_NEW | CURSOR_OK | CURSOR_DELETING

record cursor =
  cu_name :: "string option"
  cu_table :: "addr list option"
  cu_index :: int
  cu_offset :: int
  cu_offsetLimit :: int
  cu_state :: cursor_mode
  cu_owned :: bool
  cu_command :: bool
  cu_lockCycle :: int

text \<open>
  The cursors of a table: the objects, the chain from \<^verbatim>\<open>ctable->cursors\<close> on, the Tcl commands that exist,
  the objects that were freed, in order, and the calls of \<^verbatim>\<open>read_unlock\<close> and \<^verbatim>\<open>end_write\<close>.
\<close>

record cursor_sys =
  cu_heap :: "addr \<Rightarrow> cursor option"
  cu_chain :: "addr list"
  cu_commands :: "addr set"
  cu_freed :: "addr list"
  cu_lock :: bool
  cu_unlocks :: nat
  cu_ends :: nat

text \<open>A use of an object that is not allocated is \<open>None\<close>.\<close>

definition cu_update :: "addr \<Rightarrow> (cursor \<Rightarrow> cursor) \<Rightarrow> cursor_sys \<Rightarrow> cursor_sys option" where
  "cu_update a f st = (case cu_heap st a of None \<Rightarrow> None | Some c \<Rightarrow> Some (st\<lparr>cu_heap := (cu_heap st)(a := Some (f c))\<rparr>))"

definition cu_free :: "addr \<Rightarrow> cursor_sys \<Rightarrow> cursor_sys option" where
  "cu_free a st = (if cu_heap st a = None then None
     else Some (st\<lparr>cu_heap := (cu_heap st)(a := None), cu_freed := cu_freed st @ [a]\<rparr>))"

section \<open>Creation\<close>

definition ctable_CreateEmptyCursor :: "addr \<Rightarrow> string option \<Rightarrow> cursor_sys \<Rightarrow> cursor_sys" where
  "ctable_CreateEmptyCursor a name st =
     st\<lparr>cu_heap := (cu_heap st)(a := Some \<lparr>cu_name = name, cu_table = Some [0], cu_index = 0, cu_offset = 0,
          cu_offsetLimit = 0, cu_state = CURSOR_OK, cu_owned = True, cu_command = False, cu_lockCycle = 0\<rparr>),
        cu_chain := a # cu_chain st\<rparr>"

text \<open>
  \<^verbatim>\<open>ctable_CreateCursor\<close> from the transaction table, the name and the limits of a search; the table and
  the name move to the cursor.  The result is \<^verbatim>\<open>NULL\<close> when one of the two is missing.
\<close>

definition ctable_CreateCursor :: "addr \<Rightarrow> addr list option \<Rightarrow> string option \<Rightarrow> int \<Rightarrow> int \<Rightarrow> cursor_sys \<Rightarrow> addr option \<times> cursor_sys" where
  "ctable_CreateCursor a table name off offLimit st =
     (if table = None \<or> name = None then (None, st)
      else (Some a, st\<lparr>cu_heap := (cu_heap st)(a := Some \<lparr>cu_name = name, cu_table = table, cu_index = off, cu_offset = off,
              cu_offsetLimit = offLimit, cu_state = CURSOR_OK, cu_owned = True, cu_command = False, cu_lockCycle = 0\<rparr>),
            cu_chain := a # cu_chain st\<rparr>))"

definition ctable_CreateCursorCommand :: "addr \<Rightarrow> cursor_sys \<Rightarrow> cursor_sys option" where
  "ctable_CreateCursorCommand a st =
     (case cu_heap st a of
        None \<Rightarrow> None
      | Some c \<Rightarrow>
          if cu_command c then Some st
          else cu_update a (\<lambda>c. c\<lparr>cu_command := True\<rparr>) (st\<lparr>cu_commands := insert a (cu_commands st)\<rparr>))"

section \<open>Destruction\<close>

text \<open>
  \<^verbatim>\<open>ctable_DestroyCursor\<close>; \<open>interp\<close> tells whether it got an interpreter.  \<^verbatim>\<open>Tcl_DeleteCommandFromToken\<close>
  removes the command and calls its delete procedure \<^verbatim>\<open>ctable_DeleteCursorCommand\<close>, which comes back
  here without an interpreter.
\<close>

definition release_locks :: "cursor \<Rightarrow> cursor_sys \<Rightarrow> cursor_sys" where
  "release_locks c st =
     (let st1 = (if cu_lockCycle c \<noteq> 0 then st\<lparr>cu_lock := True\<rparr> else st)
      in if cu_chain st1 = []
         then let st2 = (if cu_lock st1 then st1\<lparr>cu_unlocks := cu_unlocks st1 + 1, cu_lock := False\<rparr> else st1)
              in st2\<lparr>cu_ends := cu_ends st2 + 1\<rparr>
         else st1)"

function ctable_DestroyCursor :: "bool \<Rightarrow> addr \<Rightarrow> cursor_sys \<Rightarrow> cursor_sys option" where
  "ctable_DestroyCursor interp a st =
     (case cu_heap st a of
        None \<Rightarrow> None
      | Some c \<Rightarrow>
          if \<not> cu_owned c then Some st
          else Option.bind (cu_update a (\<lambda>c. c\<lparr>cu_owned := False\<rparr>) st) (\<lambda>st1.
            if a \<notin> set (cu_chain st1) then Some st1
            else Option.bind (cu_update a (\<lambda>c. c\<lparr>cu_table := None, cu_name := None\<rparr>) (st1\<lparr>cu_chain := remove1 a (cu_chain st1)\<rparr>)) (\<lambda>st2.
              Option.bind
                (if interp \<and> cu_command c
                 then Option.bind (cu_update a (\<lambda>c. c\<lparr>cu_command := False\<rparr>) st2) (\<lambda>st3.
                        if a \<in> cu_commands st3
                        then Option.bind (cu_update a (\<lambda>c. c\<lparr>cu_command := False\<rparr>) (st3\<lparr>cu_commands := cu_commands st3 - {a}\<rparr>))
                               (ctable_DestroyCursor False a)
                        else Some st3)
                 else Some st2)
                (\<lambda>st4. case cu_heap st4 a of
                   None \<Rightarrow> None
                 | Some c4 \<Rightarrow> cu_free a (release_locks c4 st4)))))"
  by pat_completeness auto
termination
  by (relation "measure (\<lambda>(interp, _, _). if interp then 1 else 0)") auto

declare ctable_DestroyCursor.simps [simp del]

text \<open>The delete procedure of the command, called by Tcl when the command was removed.\<close>

definition ctable_DeleteCursorCommand :: "addr \<Rightarrow> cursor_sys \<Rightarrow> cursor_sys option" where
  "ctable_DeleteCursorCommand a st =
     Option.bind (cu_update a (\<lambda>c. c\<lparr>cu_command := False\<rparr>) (st\<lparr>cu_commands := cu_commands st - {a}\<rparr>)) (ctable_DestroyCursor False a)"

definition ctable_CursorToName :: "addr \<Rightarrow> cursor_sys \<Rightarrow> string option" where
  "ctable_CursorToName a st = Option.bind (cu_heap st a) cu_name"

section \<open>The life of a cursor\<close>

text \<open>
  In good order: the chain names each live cursor once, all are owned by the table and named, and a
  cursor knows of a command exactly when it exists.
\<close>

definition cursors_ok :: "cursor_sys \<Rightarrow> bool" where
  "cursors_ok st \<longleftrightarrow> distinct (cu_chain st) \<and> (\<forall>a. cu_heap st a \<noteq> None \<longleftrightarrow> a \<in> set (cu_chain st))
     \<and> (\<forall>a c. cu_heap st a = Some c \<longrightarrow> cu_owned c \<and> cu_name c \<noteq> None \<and> (cu_command c \<longleftrightarrow> a \<in> cu_commands st))
     \<and> cu_commands st \<subseteq> set (cu_chain st)"

lemma cursors_okD:
  assumes "cursors_ok st"
  shows "distinct (cu_chain st)" "cu_heap st a \<noteq> None \<longleftrightarrow> a \<in> set (cu_chain st)"
    "cu_heap st a = Some c \<Longrightarrow> cu_owned c \<and> cu_name c \<noteq> None \<and> (cu_command c \<longleftrightarrow> a \<in> cu_commands st)"
    "cu_commands st \<subseteq> set (cu_chain st)"
  using assms unfolding cursors_ok_def by blast+

text \<open>What is left after the cursor \<open>a\<close> is gone.\<close>

definition without_cursor :: "addr \<Rightarrow> cursor \<Rightarrow> cursor_sys \<Rightarrow> cursor_sys" where
  "without_cursor a c st =
     (release_locks c (st\<lparr>cu_chain := remove1 a (cu_chain st), cu_commands := cu_commands st - {a}\<rparr>))
       \<lparr>cu_heap := (cu_heap st)(a := None), cu_freed := cu_freed st @ [a]\<rparr>"

lemma release_locks_simps [simp]:
  "cu_heap (release_locks c st) = cu_heap st" "cu_chain (release_locks c st) = cu_chain st"
  "cu_commands (release_locks c st) = cu_commands st" "cu_freed (release_locks c st) = cu_freed st"
  by (simp_all add: release_locks_def Let_def)

lemma release_locks_heap:
  "release_locks c (st\<lparr>cu_heap := h\<rparr>) = (release_locks c st)\<lparr>cu_heap := h\<rparr>"
  "release_locks (c\<lparr>cu_command := b\<rparr>) st = release_locks c st" "release_locks (c\<lparr>cu_owned := b\<rparr>) st = release_locks c st"
  "release_locks (c\<lparr>cu_table := ta\<rparr>) st = release_locks c st" "release_locks (c\<lparr>cu_name := na\<rparr>) st = release_locks c st"
  by (simp_all add: release_locks_def Let_def)

text \<open>Coming back through the delete procedure does nothing: the cursor has no owner by then.\<close>

lemma destroy_unowned: "cu_heap st a = Some c \<Longrightarrow> \<not> cu_owned c \<Longrightarrow> ctable_DestroyCursor i a st = Some st"
  by (simp add: ctable_DestroyCursor.simps [of i a st])

lemma destroy_cursor:
  assumes "cursors_ok st" "cu_heap st a = Some c" "interp \<or> a \<notin> cu_commands st"
  shows "ctable_DestroyCursor interp a st = Some (without_cursor a c st)"
proof -
  note D = cursors_okD [OF assms(1)]
  have c: "cu_owned c" "a \<in> set (cu_chain st)" using D(2, 3) assms(2) by auto
  show ?thesis
  proof (cases "a \<in> cu_commands st")
    case True
    then have "cu_command c" interp using D(3) [OF assms(2)] assms(3) by auto
    then show ?thesis
      using assms(2) c True
      by (subst ctable_DestroyCursor.simps)
        (simp add: cu_update_def cu_free_def destroy_unowned release_locks_heap without_cursor_def Let_def)
  next
    case False
    then have "\<not> cu_command c" "cu_commands st - {a} = cu_commands st" using D(3) [OF assms(2)] by auto
    then show ?thesis
      using assms(2) c
      by (subst ctable_DestroyCursor.simps)
        (simp add: cu_update_def cu_free_def release_locks_heap without_cursor_def Let_def)
  qed
qed

lemma without_cursor_ok:
  assumes "cursors_ok st" "cu_heap st a = Some c"
  shows "cursors_ok (without_cursor a c st)"
  using cursors_okD [OF assms(1)] assms(2)
  by (auto simp: cursors_ok_def without_cursor_def split: if_splits)

lemma without_cursor_command:
  "without_cursor a (c\<lparr>cu_command := b\<rparr>) (st\<lparr>cu_commands := cu_commands st - {a}, cu_heap := (cu_heap st)(a := x)\<rparr>)
     = without_cursor a c st"
  by (simp add: without_cursor_def release_locks_def Let_def)

lemma create_cursor_ok:
  assumes "cursors_ok st" "cu_heap st a = None"
  shows "name \<noteq> None \<Longrightarrow> cursors_ok (ctable_CreateEmptyCursor a name st)"
    and "cursors_ok (snd (ctable_CreateCursor a table name off lim st))"
    and "cu_heap st b = Some c \<Longrightarrow> \<exists>st'. ctable_CreateCursorCommand b st = Some st' \<and> cursors_ok st' \<and> b \<in> cu_commands st'"
proof -
  note D = cursors_okD [OF assms(1)]
  have n: "a \<notin> set (cu_chain st)" "a \<notin> cu_commands st" using D(2) [of a] D(4) assms(2) by auto
  show "name \<noteq> None \<Longrightarrow> cursors_ok (ctable_CreateEmptyCursor a name st)"
    using D n by (auto simp: cursors_ok_def ctable_CreateEmptyCursor_def split: if_splits)
  show "cursors_ok (snd (ctable_CreateCursor a table name off lim st))"
    using D n by (auto simp: cursors_ok_def ctable_CreateCursor_def split: if_splits)
  assume b: "cu_heap st b = Some c"
  then have "b \<in> set (cu_chain st)" using D(2) by auto
  then show "\<exists>st'. ctable_CreateCursorCommand b st = Some st' \<and> cursors_ok st' \<and> b \<in> cu_commands st'"
    using D b by (cases "cu_command c") (auto simp: ctable_CreateCursorCommand_def cu_update_def cursors_ok_def)
qed

text \<open>
  C39. Destroying a cursor.  Whether it starts with the cursor or with its Tcl command being deleted, the
  result is the same: the command is gone, the cursor is out of the chain and freed exactly once,
  nothing that was freed is used, and the other cursors stay.  When it was the last one the table
  ends its write, and gives up its read lock if any cursor since had held one.
\<close>

theorem cursor_destroyed:
  assumes "cursors_ok st" and "cu_heap st a = Some c"
  shows "\<exists>st'. ctable_DestroyCursor True a st = Some st'
    \<and> (a \<in> cu_commands st \<longrightarrow> ctable_DeleteCursorCommand a st = Some st')
    \<and> cursors_ok st' \<and> cu_heap st' = (cu_heap st)(a := None) \<and> cu_freed st' = cu_freed st @ [a]
    \<and> cu_chain st' = remove1 a (cu_chain st) \<and> cu_commands st' = cu_commands st - {a}
    \<and> (if cu_chain st' = [] then \<not> cu_lock st' \<and> cu_ends st' = cu_ends st + 1
          \<and> cu_unlocks st' = cu_unlocks st + (if cu_lock st \<or> cu_lockCycle c \<noteq> 0 then 1 else 0)
       else cu_lock st' = (cu_lock st \<or> cu_lockCycle c \<noteq> 0) \<and> cu_ends st' = cu_ends st \<and> cu_unlocks st' = cu_unlocks st)"
proof -
  note D = cursors_okD [OF assms(1)]
  have "ctable_DeleteCursorCommand a st = Some (without_cursor a c st)" if "a \<in> cu_commands st"
  proof -
    let ?st = "st\<lparr>cu_commands := cu_commands st - {a}, cu_heap := (cu_heap st)(a := Some (c\<lparr>cu_command := False\<rparr>))\<rparr>"
    have "cursors_ok ?st" using assms(2) D by (auto simp: cursors_ok_def)
    moreover have "cu_heap ?st a = Some (c\<lparr>cu_command := False\<rparr>)" "False \<or> a \<notin> cu_commands ?st" by simp_all
    ultimately have "ctable_DestroyCursor False a ?st = Some (without_cursor a (c\<lparr>cu_command := False\<rparr>) ?st)"
      by (rule destroy_cursor)
    then have "ctable_DestroyCursor False a ?st = Some (without_cursor a c st)" by (simp only: without_cursor_command)
    then show ?thesis using assms(2) by (simp add: ctable_DeleteCursorCommand_def cu_update_def)
  qed
  then show ?thesis
    using destroy_cursor [OF assms, of True] without_cursor_ok [OF assms]
    by (intro exI [of _ "without_cursor a c st"]) (simp add: without_cursor_def release_locks_def Let_def)
qed

definition sample_cursors :: cursor_sys where
  "sample_cursors = \<lparr>cu_heap = (\<lambda>a. None), cu_chain = [], cu_commands = {}, cu_freed = [], cu_lock = False, cu_unlocks = 0, cu_ends = 0\<rparr>"

lemma cursor_destroyed_witness:
  "\<exists>st. ctable_DestroyCursor True 8 (ctable_CreateEmptyCursor 8 (Some ''c'') sample_cursors) = Some st
    \<and> cu_freed st = [8] \<and> cu_ends st = 1 \<and> cu_unlocks st = 0"
proof -
  let ?st = "ctable_CreateEmptyCursor 8 (Some ''c'') sample_cursors"
  have "cursors_ok sample_cursors" by (simp add: cursors_ok_def sample_cursors_def)
  then have ok: "cursors_ok ?st" by (rule create_cursor_ok) (simp_all add: sample_cursors_def)
  obtain c where c: "cu_heap ?st 8 = Some c" "cu_lockCycle c = 0" "cu_chain ?st = [8]" "\<not> cu_lock ?st"
      "cu_freed ?st = []" "cu_ends ?st = 0" "cu_unlocks ?st = 0"
    by (auto simp: ctable_CreateEmptyCursor_def sample_cursors_def)
  from cursor_destroyed [OF ok c(1)] show ?thesis using c(2-) by auto
qed

end
