(* ===== verification/TableSearch.thy ===== *)
theory TableSearch
  imports TableIndex TableCursor QSort
begin

text \<open>
  Searching a table, \<^verbatim>\<open>ctables/ctable_search.c\<close>: the choice of an index, the three ways to walk the rows,
  the comparison of a row, and what happens to the rows that match.  This is the search of the process
  that owns the table; a reader of a shared table restarts its walk when the master changes the rows
  under it, which is not modelled.  The Tcl code a search runs, and the generated functions of the
  table, are parameters (\<open>search_env\<close>); they do not change the table while the search walks it.
\<close>

section \<open>State\<close>

datatype tcl_code = TCL_OK | TCL_ERROR | TCL_RETURN | TCL_BREAK | TCL_CONTINUE

datatype comp_type = COMP_FALSE | COMP_TRUE | COMP_NULL | COMP_NOTNULL | COMP_LT | COMP_LE | COMP_EQ | COMP_NE
  | COMP_GE | COMP_GT | COMP_MATCH | COMP_NOTMATCH | COMP_MATCH_CASE | COMP_NOTMATCH_CASE | COMP_RANGE | COMP_IN

text \<open>A component of the search; rows that hold the values to compare with are named by address, 0 is \<^verbatim>\<open>NULL\<close>.\<close>

record component =
  row1 :: addr
  row2 :: addr
  row3 :: addr
  inListObj :: "string list"
  inListRows :: "addr list option"
  fieldID :: nat
  comparisonType :: comp_type

datatype action_t = ACTION_NONE | ACTION_GET | ACTION_ARRAY_GET | ACTION_ARRAY_GET_WITH_NULLS | ACTION_ARRAY
  | ACTION_ARRAY_WITH_NULLS | ACTION_WRITE_TABSEP | ACTION_TRANSACTION_ONLY | ACTION_CODE | ACTION_CURSOR

datatype tran_t = TRAN_NONE | TRAN_DELETE | TRAN_UPDATE | TRAN_CURSOR

definition BUFFER_PROVISIONAL :: int where "BUFFER_PROVISIONAL = - 2"
definition BUFFER_NONE :: int where "BUFFER_NONE = 0"
definition BUFFER_DEFER :: int where "BUFFER_DEFER = 1"
definition INDEX_NONE :: int where "INDEX_NONE = - 1"
definition INDEX_ANY :: int where "INDEX_ANY = - 2"

text \<open>Faults: an assertion, a write past the transaction table, and panics.\<close>

datatype fault = Assertion_Failed | Table_Overrun | Search_Panic

text \<open>
  A running search.  \<open>tranTable\<close> are the entries written so far into a table of \<open>tranRoom\<close> entries,
  \<open>acted\<close> the rows \<^verbatim>\<open>ctable_SearchAction\<close> was called for, \<open>deleted\<close> those \<^verbatim>\<open>delete_row\<close> was called for, and
  \<open>updated\<close> the calls of \<^verbatim>\<open>set\<close>, in order.
\<close>

record search =
  components :: "component list"
  filters :: "(addr \<Rightarrow> tcl_code) list"
  pattern :: "string option"
  sortFields :: "(nat \<times> int) list"
  reqIndexField :: int
  has_code :: bool
  tranType :: tran_t
  tranData :: "string list option"
  action :: action_t
  bufferResults :: int
  offset :: int
  limit :: int
  offsetLimit :: int
  pollInterval :: int
  nextPoll :: int
  matchCount :: int
  alreadySearched :: "nat option"
  tranTable :: "addr list option"
  tranRoom :: nat
  searchField :: int
  cursorName :: "string option"
  search_cursor :: "addr option"
  acted :: "addr list"
  deleted :: "addr list"
  updated :: "(addr \<times> nat \<times> string) list"

record search_env =
  creator :: creator
  keyField :: int
  count :: nat
  row_key :: "addr \<Rightarrow> string"
  find_row :: "string \<Rightarrow> addr"
  key_matches :: "string \<Rightarrow> addr \<Rightarrow> bool"
  field_compare :: "component \<Rightarrow> addr \<Rightarrow> bool"
  in_row :: "nat \<Rightarrow> string \<Rightarrow> addr option"
  row_action :: "addr list \<Rightarrow> addr \<Rightarrow> tcl_code"
  sort_compare :: "(nat \<times> int) list \<Rightarrow> addr cmp_t"
  set_field :: "addr \<Rightarrow> nat \<Rightarrow> string \<Rightarrow> bool"
  field_number :: "string \<Rightarrow> nat option"
  previous_fields :: "int list"

abbreviation field_cmp :: "search_env \<Rightarrow> nat \<Rightarrow> addr cmp_t" where
  "field_cmp ev f \<equiv> compareFunction (creator ev) f"

text \<open>An \<^verbatim>\<open>int\<close> that wraps around, as \<^verbatim>\<open>offset + limit\<close> does in two's complement.\<close>

definition c_int :: "int \<Rightarrow> int" where
  "c_int i = sint (word_of_int i :: 32 word)"

section \<open>Comparing a row\<close>

text \<open>\<^verbatim>\<open>ctable_CreateInRows\<close>: the rows of an \<^verbatim>\<open>in\<close> list, made when they are needed; \<open>None\<close> is an error.\<close>

definition ctable_CreateInRows :: "search_env \<Rightarrow> component \<Rightarrow> addr list option" where
  "ctable_CreateInRows ev c =
     (case inListRows c of
        Some rows \<Rightarrow> Some rows
      | None \<Rightarrow> those (map (in_row ev (fieldID c)) (inListObj c)))"

text \<open>
  \<^verbatim>\<open>search_compare\<close> as \<^verbatim>\<open>gentable.tcl\<close> generates it; the comparison types that depend on the type of
  the field are \<^verbatim>\<open>field_compare\<close>.
\<close>

definition component_holds :: "search_env \<Rightarrow> component \<Rightarrow> addr list \<Rightarrow> addr \<Rightarrow> bool" where
  "component_holds ev c in_rows row =
     (let cmp = field_cmp ev (fieldID c)
      in case comparisonType c of
           COMP_IN \<Rightarrow> list_ex (\<lambda>r. cmp row r = 0) in_rows
         | COMP_LT \<Rightarrow> cmp row (row1 c) < 0
         | COMP_LE \<Rightarrow> cmp row (row1 c) \<le> 0
         | COMP_EQ \<Rightarrow> cmp row (row1 c) = 0
         | COMP_NE \<Rightarrow> cmp row (row1 c) \<noteq> 0
         | COMP_GE \<Rightarrow> cmp row (row1 c) \<ge> 0
         | COMP_GT \<Rightarrow> cmp row (row1 c) > 0
         | COMP_RANGE \<Rightarrow> \<not> cmp row (row1 c) < 0 \<and> \<not> cmp row (row2 c) \<ge> 0
         | _ \<Rightarrow> field_compare ev c row)"

fun search_compare :: "search_env \<Rightarrow> nat option \<Rightarrow> nat \<Rightarrow> component list \<Rightarrow> addr \<Rightarrow> tcl_code" where
  "search_compare ev already i [] row = TCL_OK"
| "search_compare ev already i (c # cs) row =
     (if already = Some i then search_compare ev already (Suc i) cs row
      else if comparisonType c = COMP_IN \<and> ctable_CreateInRows ev c = None then TCL_ERROR
      else if component_holds ev c (if comparisonType c = COMP_IN then the (ctable_CreateInRows ev c) else []) row
           then search_compare ev already (Suc i) cs row
           else TCL_CONTINUE)"

text \<open>The poll counter; the poll code itself cannot end a search.\<close>

definition poll :: "search \<Rightarrow> search" where
  "poll s = (if pollInterval s \<noteq> 0
     then (let n = nextPoll s - 1 in s\<lparr>nextPoll := if n \<le> 0 then pollInterval s else n\<rparr>) else s)"

fun run_filters :: "(addr \<Rightarrow> tcl_code) list \<Rightarrow> addr \<Rightarrow> tcl_code" where
  "run_filters [] row = TCL_OK"
| "run_filters (f # fs) row = (if f row \<noteq> TCL_OK then f row else run_filters fs row)"

definition limit_met :: "search \<Rightarrow> bool" where
  "limit_met s \<longleftrightarrow> limit s \<noteq> 0 \<and> matchCount s \<ge> offsetLimit s"

text \<open>The entry of a matching row in the transaction table, if there is one, and the count of matches.\<close>

definition note_match :: "search_env \<Rightarrow> search \<Rightarrow> addr \<Rightarrow> fault + search" where
  "note_match ev s row =
     (case tranTable s of
        None \<Rightarrow> Inr (s\<lparr>matchCount := matchCount s + 1\<rparr>)
      | Some tt \<Rightarrow>
          if \<not> matchCount s \<le> int (count ev) then Inl Assertion_Failed
          else if length tt \<ge> tranRoom s then Inl Table_Overrun
          else Inr (s\<lparr>tranTable := Some (tt @ [row]), matchCount := matchCount s + 1\<rparr>))"

definition call_action :: "search_env \<Rightarrow> search \<Rightarrow> addr \<Rightarrow> tcl_code \<times> search" where
  "call_action ev s row = (row_action ev (acted s) row, s\<lparr>acted := acted s @ [row]\<rparr>)"

definition ctable_SearchCompareRow :: "search_env \<Rightarrow> addr \<Rightarrow> search \<Rightarrow> fault + (tcl_code \<times> search)" where
  "ctable_SearchCompareRow ev row s0 =
     (let s = poll s0
      in if (case pattern s of None \<Rightarrow> False | Some p \<Rightarrow> \<not> key_matches ev p row) then Inr (TCL_CONTINUE, s)
         else if run_filters (filters s) row \<noteq> TCL_OK then Inr (run_filters (filters s) row, s)
         else let r = search_compare ev (alreadySearched s) 0 (components s) row
              in if r = TCL_CONTINUE then Inr (TCL_CONTINUE, s)
                 else if r = TCL_ERROR then Inr (TCL_ERROR, s)
                 else case note_match ev s row of
                   Inl e \<Rightarrow> Inl e
                 | Inr s1 \<Rightarrow>
                     if tranTable s1 \<noteq> None \<and> bufferResults s1 = BUFFER_DEFER then Inr (TCL_CONTINUE, s1)
                     else if matchCount s1 \<le> offset s1 then Inr (TCL_CONTINUE, s1)
                     else if action s1 = ACTION_NONE then Inr (if limit_met s1 then TCL_BREAK else TCL_CONTINUE, s1)
                     else let (a, s2) = call_action ev s1 row
                          in if a = TCL_ERROR then Inr (TCL_ERROR, s2)
                             else if a = TCL_CONTINUE \<or> a = TCL_OK
                             then Inr (if limit_met s2 then TCL_BREAK else TCL_CONTINUE, s2)
                             else Inr (a, s2))"

section \<open>Choosing an index\<close>

datatype skip_start = START_NONE | START_GE_ROW1 | START_GT_ROW1 | START_EQ_ROW1 | START_RESET
datatype skip_end = END_NONE | END_NE_ROW1 | END_GE_ROW1 | END_GT_ROW1 | END_GE_ROW2
datatype skip_next = NEXT_NONE | NEXT_ROW | NEXT_MATCH | NEXT_IN_LIST
datatype walk_type = WALK_DEFAULT | WALK_SKIP | WALK_HASH_EQ | WALK_HASH_IN

fun skipTypes :: "comp_type \<Rightarrow> skip_start \<times> skip_end \<times> skip_next \<times> int" where
  "skipTypes COMP_LT = (START_RESET, END_GE_ROW1, NEXT_ROW, 2)"
| "skipTypes COMP_LE = (START_RESET, END_GT_ROW1, NEXT_ROW, 2)"
| "skipTypes COMP_EQ = (START_EQ_ROW1, END_GT_ROW1, NEXT_ROW, 6)"
| "skipTypes COMP_GE = (START_GE_ROW1, END_NONE, NEXT_ROW, 2)"
| "skipTypes COMP_GT = (START_GT_ROW1, END_NONE, NEXT_ROW, 1)"
| "skipTypes COMP_MATCH_CASE = (START_GE_ROW1, END_GE_ROW2, NEXT_MATCH, 3)"
| "skipTypes COMP_RANGE = (START_GE_ROW1, END_GE_ROW2, NEXT_ROW, 4)"
| "skipTypes COMP_IN = (START_RESET, END_NONE, NEXT_IN_LIST, 6)"
| "skipTypes _ = (START_NONE, END_NONE, NEXT_NONE, - 2)"

definition SORT_SCORE :: int where "SORT_SCORE = 1"

fun hashTypes :: "comp_type \<Rightarrow> walk_type" where
  "hashTypes COMP_EQ = WALK_HASH_EQ"
| "hashTypes COMP_IN = WALK_HASH_IN"
| "hashTypes _ = WALK_DEFAULT"

text \<open>The local variables of \<^verbatim>\<open>ctable_PerformSearch\<close> that describe the walk.\<close>

record plan =
  walkType :: walk_type
  skipStart :: skip_start
  skipEnd :: skip_end
  skipNext :: skip_next
  skipField :: nat
  inOrderWalk :: bool
  bestScore :: int
  wrow1 :: addr
  wrow2 :: addr
  wkey :: "string option"
  winList :: "string list"
  winRows :: "addr list"
  walready :: "nat option"
  wsearchField :: int

definition no_plan :: plan where
  "no_plan = \<lparr>walkType = WALK_DEFAULT, skipStart = START_NONE, skipEnd = END_NONE, skipNext = NEXT_NONE, skipField = 0,
     inOrderWalk = False, bestScore = 0, wrow1 = 0, wrow2 = 0, wkey = None, winList = [], winRows = [],
     walready = None, wsearchField = - 1\<rparr>"

text \<open>
  The loop over the components, each with its index; the result is \<open>False\<close> when an \<^verbatim>\<open>in\<close> list is in error.  The code
  compares with \<open>bestScore\<close> and never assigns it.
\<close>

fun choose_walk :: "search_env \<Rightarrow> ctable \<Rightarrow> int \<Rightarrow> (nat \<times> component) list \<Rightarrow> plan \<Rightarrow> fault + bool \<times> plan" where
  "choose_walk ev t sortField [] w = Inr (True, w)"
| "choose_walk ev t sortField ((index, c) # cs) w =
     (let field = fieldID c; ct = comparisonType c; (st, en, nx, sc) = skipTypes ct
      in if int field = keyField ev \<and> \<not> share_reader t \<and> hashTypes ct \<noteq> WALK_DEFAULT
         then Inr (True,
           if hashTypes ct = WALK_HASH_IN
           then w\<lparr>walkType := WALK_HASH_IN, inOrderWalk := False, winList := inListObj c, walready := Some index\<rparr>
           else w\<lparr>walkType := WALK_HASH_EQ, inOrderWalk := True, wrow1 := row1 c, wkey := Some (row_key ev (row1 c)),
                  walready := Some index\<rparr>)
         else if skipLists t field = None then choose_walk ev t sortField cs w
         else if nx = NEXT_MATCH \<and> row2 c = 0 then choose_walk ev t sortField cs w
         else if int field \<in> set (previous_fields ev) then choose_walk ev t sortField cs w
         else if bestScore w > sc + (if int field = sortField then SORT_SCORE else 0)
         then choose_walk ev t sortField cs w
         else let w1 = w\<lparr>skipField := field, wsearchField := int field, skipNext := nx, skipStart := st, skipEnd := en,
                         walready := Some index, walkType := WALK_SKIP\<rparr>
              in case nx of
                   NEXT_MATCH \<Rightarrow>
                     (let w2 = w1\<lparr>inOrderWalk := True, wrow1 := row2 c, wrow2 := row3 c, skipNext := NEXT_ROW\<rparr>
                      in if bestScore w2 \<ge> 100 then Inr (True, w2) else choose_walk ev t sortField cs w2)
                 | NEXT_ROW \<Rightarrow>
                     (let w2 = w1\<lparr>inOrderWalk := True, wrow1 := row1 c, wrow2 := row2 c\<rparr>
                      in if bestScore w2 \<ge> 100 then Inr (True, w2) else choose_walk ev t sortField cs w2)
                 | NEXT_IN_LIST \<Rightarrow>
                     (case ctable_CreateInRows ev c of
                        None \<Rightarrow> Inr (False, w1\<lparr>inOrderWalk := False, winList := inListObj c\<rparr>)
                      | Some rows \<Rightarrow>
                          let w2 = w1\<lparr>inOrderWalk := False, winList := inListObj c, winRows := rows, wrow1 := row1 c\<rparr>
                          in if bestScore w2 \<ge> 100 then Inr (True, w2) else choose_walk ev t sortField cs w2)
                 | NEXT_NONE \<Rightarrow> Inl Search_Panic)"

text \<open>Where the loop starts: at the first component on the requested field; it goes once around.\<close>

definition start_index :: "int \<Rightarrow> component list \<Rightarrow> nat" where
  "start_index req cs =
     (if req = INDEX_ANY then 0
      else length (takeWhile (\<lambda>c. int (fieldID c) \<noteq> req) cs))"

definition try_order :: "int \<Rightarrow> component list \<Rightarrow> (nat \<times> component) list" where
  "try_order req cs = rotate (start_index req cs) (enumerate 0 cs)"

section \<open>Walking the rows\<close>

text \<open>
  The walks call \<open>step\<close> on rows; it answers with a Tcl code and a new state.  \<^verbatim>\<open>TCL_CONTINUE\<close> and
  \<^verbatim>\<open>TCL_OK\<close> go on with the next row, any other code ends the walk and is its result.
\<close>

type_synonym 's walk_result = "fault + tcl_code \<times> 's"

abbreviation goes_on :: "tcl_code \<Rightarrow> bool" where
  "goes_on r \<equiv> r = TCL_CONTINUE \<or> r = TCL_OK"

partial_function (option) list_foreach :: "list_mem \<Rightarrow> nat \<Rightarrow> (addr \<Rightarrow> 's \<Rightarrow> 's walk_result) \<Rightarrow> addr \<Rightarrow> 's \<Rightarrow> 's walk_result option" where
  "list_foreach m i step row s =
     (if row = 0 then Some (Inr (TCL_CONTINUE, s))
      else case step row s of
        Inl e \<Rightarrow> Some (Inl e)
      | Inr (r, s1) \<Rightarrow> if goes_on r then list_foreach m i step (lnext m row i) s1 else Some (Inr (r, s1)))"

text \<open>The walk over keys: the key of a row to compare with, if there is one, and then those of the \<^verbatim>\<open>in\<close> list.\<close>

fun hash_walk :: "(string \<Rightarrow> addr) \<Rightarrow> (addr \<Rightarrow> 's \<Rightarrow> 's walk_result) \<Rightarrow> string list \<Rightarrow> 's \<Rightarrow> 's walk_result" where
  "hash_walk look step [] s = Inr (TCL_CONTINUE, s)"
| "hash_walk look step (key # keys) s =
     (if look key = 0 then hash_walk look step keys s
      else case step (look key) s of
        Inl e \<Rightarrow> Inl e
      | Inr (r, s1) \<Rightarrow> if goes_on r then hash_walk look step keys s1 else Inr (r, s1))"

text \<open>
  The walk along an index.  \<open>gt_advance\<close> and \<open>find_in_list\<close> find the next node to look at; their inner
  option is \<open>None\<close> at the end.
\<close>

partial_function (option) gt_advance :: "addr cmp_t \<Rightarrow> skiplist \<Rightarrow> addr \<Rightarrow> skiplist option option" where
  "gt_advance cmp sk r1 =
     (if jsw_srow sk = 0 then Some None
      else if cmp (jsw_srow sk) r1 > 0 then Some (Some sk)
      else gt_advance cmp (snd (jsw_snext sk)) r1)"

definition start_walk :: "plan \<Rightarrow> addr cmp_t \<Rightarrow> skiplist \<Rightarrow> (fault + skiplist option) option" where
  "start_walk w cmp sk =
     (case skipStart w of
        START_EQ_ROW1 \<Rightarrow> if wrow1 w = 0 then Some (Inl Search_Panic)
          else map_option (\<lambda>(p, sk'). Inr (Some sk')) (jsw_sfind cmp sk (wrow1 w))
      | START_GE_ROW1 \<Rightarrow> if wrow1 w = 0 then Some (Inl Search_Panic)
          else map_option (\<lambda>(p, sk'). Inr (Some sk')) (jsw_sfind_equal_or_greater cmp sk (wrow1 w))
      | START_GT_ROW1 \<Rightarrow> if wrow1 w = 0 then Some (Inl Search_Panic)
          else Option.bind (jsw_sfind_equal_or_greater cmp sk (wrow1 w)) (\<lambda>(p, sk'). map_option Inr (gt_advance cmp sk' (wrow1 w)))
      | START_RESET \<Rightarrow> Some (Inr (Some (jsw_sreset sk)))
      | START_NONE \<Rightarrow> Some (Inl Search_Panic))"

fun find_in_list :: "addr cmp_t \<Rightarrow> skiplist \<Rightarrow> addr list \<Rightarrow> (fault + (skiplist \<times> addr list) option) option" where
  "find_in_list cmp sk [] = Some (Inr None)"
| "find_in_list cmp sk (row # rows) =
     (if row = 0 then Some (Inl Search_Panic)
      else Option.bind (jsw_sfind cmp sk row)
        (\<lambda>(p, sk'). if p \<noteq> 0 then Some (Inr (Some (sk', rows))) else find_in_list cmp sk' rows))"

definition past_end :: "plan \<Rightarrow> addr cmp_t \<Rightarrow> addr \<Rightarrow> bool" where
  "past_end w cmp row =
     (case skipEnd w of
        END_GE_ROW1 \<Rightarrow> cmp row (wrow1 w) \<ge> 0
      | END_GT_ROW1 \<Rightarrow> cmp row (wrow1 w) > 0
      | END_GE_ROW2 \<Rightarrow> cmp row (wrow2 w) \<ge> 0
      | _ \<Rightarrow> False)"

text \<open>
  The main loop; its first argument is the number of turns left, and a walk that uses them up fails with
  \<^verbatim>\<open>infinite search loop\<close>.
\<close>

fun skip_loop :: "nat \<Rightarrow> plan \<Rightarrow> addr cmp_t \<Rightarrow> nat \<Rightarrow> (addr \<Rightarrow> 's \<Rightarrow> 's walk_result) \<Rightarrow> skiplist \<Rightarrow> addr list \<Rightarrow> 's \<Rightarrow> 's walk_result option" where
  "skip_loop 0 w cmp i step sk ins s = Some (Inr (TCL_ERROR, s))"
| "skip_loop (Suc n) w cmp i step sk ins s =
     Option.bind (if skipNext w = NEXT_IN_LIST then find_in_list cmp sk ins else Some (Inr (Some (sk, ins)))) (\<lambda>found.
       case found of
         Inl e \<Rightarrow> Some (Inl e)
       | Inr None \<Rightarrow> Some (Inr (TCL_CONTINUE, s))
       | Inr (Some (sk1, ins1)) \<Rightarrow>
           if jsw_srow sk1 = 0 \<or> past_end w cmp (jsw_srow sk1) then Some (Inr (TCL_CONTINUE, s))
           else Option.bind (list_foreach (slist sk1) i step (jsw_srow sk1) s) (\<lambda>result.
             case result of
               Inl e \<Rightarrow> Some (Inl e)
             | Inr (r, s1) \<Rightarrow>
                 if goes_on r
                 then skip_loop n w cmp i step (if skipNext w = NEXT_ROW then snd (jsw_snext sk1) else sk1) ins1 s1
                 else Some (Inr (r, s1))))"

definition perform_walk :: "search_env \<Rightarrow> ctable \<Rightarrow> plan \<Rightarrow> (addr \<Rightarrow> 's \<Rightarrow> 's walk_result) \<Rightarrow> 's \<Rightarrow> 's walk_result option" where
  "perform_walk ev t w step s =
     (case walkType w of
        WALK_DEFAULT \<Rightarrow> list_foreach (tmem t) 0 step (cell (tmem t) (ll_head t)) s
      | WALK_SKIP \<Rightarrow>
          (case skipLists t (skipField w) of
             None \<Rightarrow> None
           | Some skip \<Rightarrow>
               let cmp = field_cmp ev (skipField w)
               in Option.bind (start_walk w cmp (with_mem (tmem t) t skip)) (\<lambda>start.
                    case start of
                      Inl e \<Rightarrow> Some (Inl e)
                    | Inr None \<Rightarrow> Some (Inr (TCL_CONTINUE, s))
                    | Inr (Some sk) \<Rightarrow> skip_loop (Suc (count ev)) w cmp (nat (indexNumber (creator ev) (skipField w))) step sk (winRows w) s))
      | _ \<Rightarrow> Some (hash_walk (find_row ev) step ((case wkey w of Some k \<Rightarrow> [k] | None \<Rightarrow> []) @ winList w) s))"

section \<open>After the walk\<close>

text \<open>\<^verbatim>\<open>ctable_PrepareTransactions\<close>: does the search act on a row at once, or after all rows were seen?\<close>

definition ctable_PrepareTransactions :: "search_env \<Rightarrow> bool \<Rightarrow> search \<Rightarrow> search" where
  "ctable_PrepareTransactions ev reader s =
     (let b = (if action s = ACTION_NONE then BUFFER_NONE
               else if action s = ACTION_CURSOR then BUFFER_DEFER
               else if sortFields s \<noteq> [] then BUFFER_DEFER
               else if reader then BUFFER_DEFER
               else if bufferResults s < 0 then BUFFER_NONE
               else bufferResults s);
          b' = (if b = BUFFER_NONE \<and> tranType s \<noteq> TRAN_NONE then BUFFER_PROVISIONAL else b);
          s1 = s\<lparr>bufferResults := b'\<rparr>
      in if b' \<noteq> BUFFER_NONE then s1\<lparr>tranTable := Some [], tranRoom := count ev\<rparr> else s1)"

text \<open>\<^verbatim>\<open>ctable_PerformTransaction\<close>; an index out of the table is a fault.\<close>

definition tran_row :: "search \<Rightarrow> int \<Rightarrow> fault + addr" where
  "tran_row s i = (case tranTable s of
     None \<Rightarrow> Inl Table_Overrun
   | Some tt \<Rightarrow> if 0 \<le> i \<and> i < int (length tt) then Inr (tt ! nat i) else Inl Table_Overrun)"

fun delete_loop :: "nat \<Rightarrow> int \<Rightarrow> search \<Rightarrow> fault + search" where
  "delete_loop 0 i s = Inr s"
| "delete_loop (Suc n) i s =
     (case tran_row s i of
        Inl e \<Rightarrow> Inl e
      | Inr row \<Rightarrow> delete_loop n (i + 1) (s\<lparr>deleted := deleted s @ [row]\<rparr>))"

fun pairs :: "'a list \<Rightarrow> ('a \<times> 'a) list" where
  "pairs (x # y # zs) = (x, y) # pairs zs"
| "pairs _ = []"

fun set_fields :: "search_env \<Rightarrow> addr \<Rightarrow> (nat \<times> string) list \<Rightarrow> search \<Rightarrow> bool \<times> search" where
  "set_fields ev row [] s = (True, s)"
| "set_fields ev row ((f, v) # fvs) s =
     (let s1 = s\<lparr>updated := updated s @ [(row, f, v)]\<rparr>
      in if \<not> set_field ev row f v then (False, s1) else set_fields ev row fvs s1)"

fun update_loop :: "search_env \<Rightarrow> (nat \<times> string) list \<Rightarrow> nat \<Rightarrow> int \<Rightarrow> search \<Rightarrow> search walk_result" where
  "update_loop ev fvs 0 i s = Inr (TCL_OK, s)"
| "update_loop ev fvs (Suc n) i s =
     (case tran_row s i of
        Inl e \<Rightarrow> Inl e
      | Inr row \<Rightarrow>
          (case set_fields ev row fvs s of
             (False, s1) \<Rightarrow> Inr (TCL_ERROR, s1)
           | (True, s1) \<Rightarrow> update_loop ev fvs n (i + 1) s1))"

definition ctable_PerformTransaction :: "search_env \<Rightarrow> search \<Rightarrow> search walk_result" where
  "ctable_PerformTransaction ev s =
     (let n = nat (offsetLimit s - offset s)
      in case tranType s of
           TRAN_NONE \<Rightarrow> Inr (TCL_OK, s)
         | TRAN_CURSOR \<Rightarrow> Inr (TCL_OK, s)
         | TRAN_DELETE \<Rightarrow>
             (case delete_loop n (offset s) s of Inl e \<Rightarrow> Inl e | Inr s1 \<Rightarrow> Inr (TCL_OK, s1))
         | TRAN_UPDATE \<Rightarrow>
             (case tranData s of
                None \<Rightarrow> Inr (TCL_ERROR, s)
              | Some objv \<Rightarrow>
                  if odd (length objv) then Inr (TCL_ERROR, s)
                  else case those (map (\<lambda>(f, v). field_number ev f) (pairs objv)) of
                    None \<Rightarrow> Inr (TCL_ERROR, s)
                  | Some fnos \<Rightarrow> update_loop ev (zip fnos (map snd (pairs objv))) n (offset s) s))"

text \<open>The actions of a search that was deferred until all rows were seen.\<close>

fun deferred_loop :: "search_env \<Rightarrow> nat \<Rightarrow> int \<Rightarrow> search \<Rightarrow> search walk_result" where
  "deferred_loop ev 0 i s = Inr (TCL_OK, s)"
| "deferred_loop ev (Suc n) i s =
     (case tran_row s i of
        Inl e \<Rightarrow> Inl e
      | Inr row \<Rightarrow>
          (let (a, s1) = call_action ev (poll s) row
           in if goes_on a then deferred_loop ev n (i + 1) s1
              else if a = TCL_ERROR then Inr (TCL_ERROR, s1)
              else Inr (a, s1\<lparr>offsetLimit := i + 1\<rparr>)))"

text \<open>
  \<^verbatim>\<open>ctable_PostSearchCommonActions\<close>: the limit and the sort, the cursor or the deferred actions, and the
  transaction; \<open>a\<close> is the address a new cursor gets.
\<close>

definition limit_and_sort :: "search_env \<Rightarrow> addr list \<Rightarrow> search \<Rightarrow> search" where
  "limit_and_sort ev tt s =
     (let s1 = (if offsetLimit s = 0 \<or> offsetLimit s > matchCount s then s\<lparr>offsetLimit := matchCount s\<rparr> else s)
      in if sortFields s1 \<noteq> []
         then s1\<lparr>tranTable := Some (ctable_qsort_r (sort_compare ev (sortFields s1)) 0 (nat (matchCount s1)) tt)\<rparr> else s1)"

definition result_actions :: "search_env \<Rightarrow> addr \<Rightarrow> search \<Rightarrow> cursor_sys \<Rightarrow> fault + tcl_code \<times> search \<times> cursor_sys" where
  "result_actions ev a s cs =
     (if tranType s = TRAN_CURSOR
      then (let (c, cs') = ctable_CreateCursor a (tranTable s) (cursorName s) (offset s) (offsetLimit s) cs
            in Inr (TCL_OK, if c = None then s\<lparr>search_cursor := None\<rparr>
                     else s\<lparr>search_cursor := c, tranTable := None, cursorName := None\<rparr>, cs'))
      else if bufferResults s = BUFFER_DEFER
      then (case deferred_loop ev (nat (offsetLimit s - offset s)) (offset s) s of
              Inl e \<Rightarrow> Inl e | Inr (r, s1) \<Rightarrow> Inr (r, s1, cs))
      else Inr (TCL_OK, s, cs))"

definition count_and_transact :: "search_env \<Rightarrow> tcl_code \<Rightarrow> search \<Rightarrow> cursor_sys \<Rightarrow> fault + tcl_code \<times> search \<times> cursor_sys" where
  "count_and_transact ev r s cs =
     (let s1 = s\<lparr>matchCount := offsetLimit s - offset s\<rparr>
      in if tranType s1 = TRAN_NONE \<or> tranType s1 = TRAN_CURSOR then Inr (r, s1, cs)
         else case ctable_PerformTransaction ev s1 of
           Inl e \<Rightarrow> Inl e
         | Inr (q, s2) \<Rightarrow> Inr (if q = TCL_ERROR then TCL_ERROR else r, s2, cs))"

definition ctable_PostSearchCommonActions :: "search_env \<Rightarrow> addr \<Rightarrow> search \<Rightarrow> cursor_sys \<Rightarrow> fault + tcl_code \<times> search \<times> cursor_sys" where
  "ctable_PostSearchCommonActions ev a s cs =
     (if matchCount s = 0 \<or> offset s > matchCount s then Inr (TCL_OK, s\<lparr>matchCount := 0\<rparr>, cs)
      else case tranTable s of
        None \<Rightarrow> Inr (TCL_OK, s\<lparr>matchCount := matchCount s - offset s\<rparr>, cs)
      | Some tt \<Rightarrow>
          (case result_actions ev a (limit_and_sort ev tt s) cs of
             Inl e \<Rightarrow> Inl e
           | Inr (r, s1, cs1) \<Rightarrow> if r = TCL_ERROR then Inr (TCL_ERROR, s1, cs1) else count_and_transact ev r s1 cs1))"

section \<open>The search\<close>

datatype reply = Reply_Count int | Reply_Name "string option" | No_Reply

text \<open>What the interpreter is told at the end: the name of the cursor, or the number of matches.\<close>

definition search_reply :: "addr \<Rightarrow> search \<Rightarrow> cursor_sys \<Rightarrow> int \<Rightarrow> (reply \<times> search \<times> cursor_sys) option" where
  "search_reply a s cs n =
     (case search_cursor s of
        Some c \<Rightarrow> map_option (\<lambda>cs'. (Reply_Name (ctable_CursorToName c cs'), s, cs')) (ctable_CreateCursorCommand c cs)
      | None \<Rightarrow>
          (case cursorName s of
             Some name \<Rightarrow>
               map_option (\<lambda>cs'. (Reply_Name (ctable_CursorToName a cs'), s\<lparr>cursorName := None\<rparr>, cs'))
                 (ctable_CreateCursorCommand a (ctable_CreateEmptyCursor a (Some name) cs))
           | None \<Rightarrow> Some (Reply_Count n, s, cs)))"

text \<open>The order of the walk makes the sort superfluous.\<close>

definition sort_eliminated :: "plan \<Rightarrow> search \<Rightarrow> bool" where
  "sort_eliminated w s \<longleftrightarrow> inOrderWalk w \<and> length (sortFields s) = 1 \<and> fst (hd (sortFields s)) = skipField w"

definition begin_search :: "search \<Rightarrow> search" where
  "begin_search s = s\<lparr>matchCount := 0, alreadySearched := None, tranTable := None, offsetLimit := c_int (offset s + limit s)\<rparr>"

definition sort_field :: "search \<Rightarrow> int" where
  "sort_field s = (if length (sortFields s) = 1 then int (fst (hd (sortFields s))) else - 1)"

definition plan_walk :: "search_env \<Rightarrow> ctable \<Rightarrow> search \<Rightarrow> fault + bool \<times> plan" where
  "plan_walk ev t s =
     (let req = (if components s = [] then INDEX_NONE else reqIndexField s)
      in if req \<noteq> INDEX_NONE then choose_walk ev t (sort_field s) (try_order req (components s)) no_plan
         else Inr (True, no_plan))"

text \<open>What the choice of the walk leaves in the search, and the search as it is when the walk starts.\<close>

definition planned :: "plan \<Rightarrow> search \<Rightarrow> search" where
  "planned w s = s\<lparr>alreadySearched := walready w, searchField := (if wsearchField w = - 1 then searchField s else wsearchField w)\<rparr>"

definition prepare_search :: "search_env \<Rightarrow> ctable \<Rightarrow> plan \<Rightarrow> search \<Rightarrow> search" where
  "prepare_search ev t w s =
     (let s1 = planned w s;
          s2 = (if sort_eliminated w s1 then s1\<lparr>sortFields := []\<rparr> else s1);
          s3 = ctable_PrepareTransactions ev (share_reader t) s2
      in if pollInterval s3 \<noteq> 0 then s3\<lparr>nextPoll := pollInterval s3\<rparr> else s3)"

text \<open>The end of a search, from \<^verbatim>\<open>clean_and_return\<close> on.\<close>

definition clean_and_return :: "addr \<Rightarrow> tcl_code \<Rightarrow> search \<Rightarrow> cursor_sys \<Rightarrow> (tcl_code \<times> reply \<times> search \<times> cursor_sys) option" where
  "clean_and_return a final s cs =
     (let s1 = s\<lparr>tranTable := None\<rparr>
      in if final \<noteq> TCL_ERROR \<and> (\<not> has_code s1 \<or> final \<noteq> TCL_RETURN)
         then map_option (\<lambda>(r, s2, cs2). (final, r, s2, cs2)) (search_reply a s1 cs (matchCount s1))
         else Some (final, No_Reply, s1, cs))"

text \<open>
  \<^verbatim>\<open>ctable_PerformSearch\<close>; the outer option is \<open>None\<close> when it does not return.
\<close>

definition ctable_PerformSearch :: "search_env \<Rightarrow> ctable \<Rightarrow> addr \<Rightarrow> search \<Rightarrow> cursor_sys \<Rightarrow> (fault + tcl_code \<times> reply \<times> search \<times> cursor_sys) option" where
  "ctable_PerformSearch ev t a s0 cs =
     (let s = begin_search s0
      in if count ev = 0 then map_option (\<lambda>(r, s1, cs1). Inr (TCL_OK, r, s1, cs1)) (search_reply a s cs 0)
         else case plan_walk ev t s of
           Inl e \<Rightarrow> Some (Inl e)
         | Inr (ok, w) \<Rightarrow>
             if \<not> ok then map_option Inr (clean_and_return a TCL_ERROR (planned w s) cs)
             else Option.bind (perform_walk ev t w (ctable_SearchCompareRow ev) (prepare_search ev t w s)) (\<lambda>walked.
               case walked of
                 Inl e \<Rightarrow> Some (Inl e)
               | Inr (r, s1) \<Rightarrow>
                   if r = TCL_ERROR then map_option Inr (clean_and_return a TCL_ERROR s1 cs)
                   else case ctable_PostSearchCommonActions ev a (s1\<lparr>searchField := - 1\<rparr>) cs of
                     Inl e \<Rightarrow> Some (Inl e)
                   | Inr (q, s2, cs2) \<Rightarrow>
                       map_option Inr (clean_and_return a
                         (if q = TCL_ERROR \<or> q = TCL_RETURN then q else if r = TCL_RETURN then TCL_RETURN else TCL_OK) s2 cs2)))"

end
