(* ===== verification/SearchWalk.thy ===== *)
theory SearchWalk
  imports TableSearch
begin

text \<open>
  The three ways to walk a table compute one thing: they call the step on the rows of a list that depends
  on the plan only.  This theory shows which list, and that it holds the rows that satisfy the component
  the plan was made for, each once.
\<close>

section \<open>Walking a list of rows\<close>

fun run_rows :: "(addr \<Rightarrow> 's \<Rightarrow> 's walk_result) \<Rightarrow> addr list \<Rightarrow> 's \<Rightarrow> 's walk_result" where
  "run_rows step [] s = Inr (TCL_CONTINUE, s)"
| "run_rows step (row # rows) s =
     (case step row s of
        Inl e \<Rightarrow> Inl e
      | Inr (r, s1) \<Rightarrow> if goes_on r then run_rows step rows s1 else Inr (r, s1))"

lemma run_rows_append:
  "run_rows step (xs @ ys) s = (case run_rows step xs s of
     Inl e \<Rightarrow> Inl e | Inr (r, s1) \<Rightarrow> if goes_on r then run_rows step ys s1 else Inr (r, s1))"
  by (induction xs arbitrary: s) (auto split: sum.splits prod.splits)

lemma list_foreach_reads: "reads m i c rows \<Longrightarrow> list_foreach m i step (read_slot m c) s = Some (run_rows step rows s)"
proof (induction rows arbitrary: c s)
  case Nil
  then show ?case by (simp add: list_foreach.simps [of m i step 0])
next
  case (Cons r rows)
  then show ?case
    using Cons.IH [of "NextCell r i"]
    by (simp add: list_foreach.simps [of m i step r] split: sum.splits)
qed

lemma list_foreach_list: "is_list m c i rows \<Longrightarrow> list_foreach m i step (cell m c) s = Some (run_rows step rows s)"
  using list_foreach_reads [of m i "HeadCell c" rows step s] by (simp add: is_list_def)

lemma hash_walk_rows: "hash_walk look step keys s = run_rows step (filter (\<lambda>r. r \<noteq> 0) (map look keys)) s"
  by (induction keys arbitrary: s) (auto split: sum.splits)

section \<open>Walking an index\<close>

text \<open>From the node at the head of \<open>qs\<close> on, until the end condition holds.\<close>

lemma index_links:
  assumes "index_at cmp i sk ps rs" "ps = xs @ p # qs"
  shows "snext sk p 0 = hd (qs @ [0])" "p \<noteq> 0" "srow sk p \<noteq> 0"
proof -
  obtain lv where lv: "skip_inv cmp sk lv" "lv 0 = ps" using assms(1) by (rule index_atE)
  have ch: "chain (\<lambda>p. snext sk p 0) (snext sk (shead sk) 0) (xs @ p # qs)"
    using levels_okD(5) [of sk lv 0] lv assms(2) by (simp add: skip_inv_def)
  show "snext sk p 0 = hd (qs @ [0])" using chain_first [OF chain_tail [OF ch]] .
  show "p \<noteq> 0" using chain_not_null [OF ch] by auto
  have "p \<in> set ps" using assms(2) by simp
  then have "srow sk p \<in> set (index_rows ps rs)" using index_atD(4) [OF assms(1)] by fastforce
  then show "srow sk p \<noteq> 0" using index_atD(5) [OF assms(1)] by metis
qed

lemma skip_loop_row:
  assumes ix: "index_at cmp i sk ps rs" and w: "skipNext w = NEXT_ROW"
  shows "ps = xs @ qs \<Longrightarrow> length qs < n \<Longrightarrow>
    skip_loop n w cmp i step (sk\<lparr>sfix := fx, curl := hd (qs @ [0])\<rparr>) ins s
      = Some (run_rows step (concat (map rs (takeWhile (\<lambda>p. \<not> past_end w cmp (srow sk p)) qs))) s)"
proof (induction qs arbitrary: xs n s)
  case Nil
  then obtain k where "n = Suc k" by (cases n) auto
  then show ?case using w by (simp add: jsw_srow_def)
next
  case (Cons p qs)
  then obtain k where n: "n = Suc k" "length qs < k" by (cases n) auto
  note l = index_links [OF ix Cons.prems(1)]
  have "p \<in> set ps" using Cons.prems(1) by simp
  then have fe: "list_foreach (slist sk) i step (srow sk p) s = Some (run_rows step (rs p) s)" for s
    by (rule list_foreach_list [OF index_atD(2) [OF ix]])
  have ih: "skip_loop k w cmp i step (sk\<lparr>sfix := fx, curl := hd (qs @ [0])\<rparr>) ins s =
      Some (run_rows step (concat (map rs (takeWhile (\<lambda>p. \<not> past_end w cmp (srow sk p)) qs))) s)" for s
    using Cons.IH [of "xs @ [p]" k s] Cons.prems(1) n(2) by simp
  show ?case
    using w l n(1) fe ih
    by (simp add: jsw_srow_def jsw_snext_def Let_def run_rows_append split: sum.splits prod.splits)
qed

text \<open>The node of a row that compares equal, if there is one.\<close>

definition key_node :: "addr cmp_t \<Rightarrow> skiplist \<Rightarrow> addr list \<Rightarrow> addr \<Rightarrow> addr option" where
  "key_node cmp sk ps row = List.find (\<lambda>p. cmp row (srow sk p) = 0) ps"

abbreviation key_rows :: "addr cmp_t \<Rightarrow> skiplist \<Rightarrow> addr list \<Rightarrow> (addr \<Rightarrow> addr list) \<Rightarrow> addr \<Rightarrow> addr list" where
  "key_rows cmp sk ps rs row \<equiv> (case key_node cmp sk ps row of None \<Rightarrow> [] | Some p \<Rightarrow> rs p)"

text \<open>Where a walk starts, as a condition on keys.\<close>

definition from_start :: "addr cmp_t \<Rightarrow> skip_start \<Rightarrow> addr \<Rightarrow> addr \<Rightarrow> bool" where
  "from_start cmp st r1 r = (case st of START_RESET \<Rightarrow> True | START_GT_ROW1 \<Rightarrow> cmp r r1 > 0 | _ \<Rightarrow> cmp r r1 \<ge> 0)"

context row_comparator
begin

lemma sfind_key_node:
  assumes ix: "index_at cmp i sk ps rs"
  shows "\<exists>fx'. jsw_sfind cmp (sk\<lparr>sfix := fx, curl := c\<rparr>) row =
      (case key_node cmp sk ps row of
         None \<Rightarrow> Some (0, sk\<lparr>sfix := fx', curl := hd (filter (\<lambda>q. \<not> before cmp sk row q) ps @ [0])\<rparr>)
       | Some p \<Rightarrow> Some (p, sk\<lparr>sfix := fx', curl := p\<rparr>))"
proof -
  let ?sk = "sk\<lparr>sfix := fx, curl := c\<rparr>"
  let ?h = "hd (filter (\<lambda>q. \<not> before cmp sk row q) ps @ [0])"
  obtain lv where lv: "skip_inv cmp sk lv" "lv 0 = ps" using ix by (rule index_atE)
  have "level_order cmp ?sk = level_order cmp sk" by (simp add: level_order_def fun_eq_iff)
  then have inv: "skip_inv cmp ?sk lv" using lv(1) by (auto simp: skip_inv_def intro: levels_ok_cong)
  have b: "before cmp ?sk row = before cmp sk row" by (simp add: before_def fun_eq_iff)
  obtain p fx' where p: "jsw_sfind cmp ?sk row = Some (p, ?sk\<lparr>sfix := fx', curl := ?h\<rparr>)"
      "if \<exists>q\<in>set ps. cmp row (srow ?sk q) = 0 then p \<in> set ps \<and> cmp row (srow ?sk p) = 0 else p = 0"
    using sfind_inv [OF inv, of row, unfolded lv(2) b] by blast
  show ?thesis
  proof (cases "key_node cmp sk ps row")
    case None
    then have "p = 0" using p(2) by (auto simp: key_node_def find_None_iff)
    then show ?thesis using p(1) None by auto
  next
    case (Some q)
    then have q: "q \<in> set ps" "cmp row (srow sk q) = 0" by (auto simp: key_node_def find_Some_iff)
    then have "p \<in> set ps" "cmp row (srow sk p) = 0" using p(2) by (auto split: if_splits)
    then have "p = ?h" "q = ?h" using found_iff(2) [OF lv(1) refl, where row = row] q lv(2) by auto
    then show ?thesis using p(1) Some by auto
  qed
qed

text \<open>The walk of an \<^verbatim>\<open>in\<close> list: it needs one turn for every value that is found.\<close>

lemma skip_loop_in:
  assumes ix: "index_at cmp i sk ps rs" and w: "skipNext w = NEXT_IN_LIST" "skipEnd w = END_NONE"
  shows "0 \<notin> set ins \<Longrightarrow> length (filter (\<lambda>r. key_node cmp sk ps r \<noteq> None) ins) < n \<Longrightarrow>
    skip_loop n w cmp i step (sk\<lparr>sfix := fx, curl := c\<rparr>) ins s = Some (run_rows step (concat (map (key_rows cmp sk ps rs) ins)) s)"
proof (induction ins arbitrary: n fx c s)
  case Nil
  then obtain k where "n = Suc k" by (cases n) auto
  then show ?case using w by simp
next
  case (Cons r ins)
  then obtain k where n: "n = Suc k" by (cases n) auto
  obtain fx' where fx': "jsw_sfind cmp (sk\<lparr>sfix := fx, curl := c\<rparr>) r =
      (case key_node cmp sk ps r of
         None \<Rightarrow> Some (0, sk\<lparr>sfix := fx', curl := hd (filter (\<lambda>q. \<not> before cmp sk r q) ps @ [0])\<rparr>)
       | Some p \<Rightarrow> Some (p, sk\<lparr>sfix := fx', curl := p\<rparr>))"
    using sfind_key_node [OF ix] by blast
  show ?case
  proof (cases "key_node cmp sk ps r")
    case None
    have "skip_loop n w cmp i step (sk\<lparr>sfix := fx, curl := c\<rparr>) (r # ins) s
        = skip_loop n w cmp i step (sk\<lparr>sfix := fx', curl := hd (filter (\<lambda>q. \<not> before cmp sk r q) ps @ [0])\<rparr>) ins s"
      using n fx' None Cons.prems(1) w by simp
    then show ?thesis using Cons.IH Cons.prems None by simp
  next
    case (Some p)
    then have "p \<in> set ps" by (auto simp: key_node_def find_Some_iff)
    then obtain xs qs where "ps = xs @ p # qs" by (auto dest: split_list)
    note l = index_links [OF ix this]
    have fe: "list_foreach (slist sk) i step (srow sk p) s = Some (run_rows step (rs p) s)" for s
      by (rule list_foreach_list [OF index_atD(2) [OF ix \<open>p \<in> set ps\<close>]])
    have ih: "skip_loop k w cmp i step (sk\<lparr>sfix := fx', curl := p\<rparr>) ins s =
        Some (run_rows step (concat (map (key_rows cmp sk ps rs) ins)) s)" for s
      using Cons.IH [where n = k and fx = fx' and c = p] Cons.prems Some n by simp
    show ?thesis
      using n fx' Some Cons.prems(1) w l fe ih
      by (simp add: jsw_srow_def past_end_def run_rows_append split: sum.splits prod.splits)
  qed
qed

text \<open>A condition that the rows of a node share selects nodes.\<close>

lemma index_filter:
  assumes "index_at cmp i sk ps rs" "\<And>a b. cmp a b = 0 \<Longrightarrow> P a \<longleftrightarrow> P b"
  shows "concat (map rs (filter (\<lambda>p. P (srow sk p)) ps)) = filter P (index_rows ps rs)"
proof -
  have "P r \<longleftrightarrow> P (srow sk p)" if "p \<in> set ps" "r \<in> set (rs p)" for p r
    using assms(2) [OF index_atD(3) [OF assms(1) that]] by simp
  then have "concat (map rs (filter (\<lambda>p. P (srow sk p)) qs)) = filter P (index_rows qs rs)" if "set qs \<subseteq> set ps" for qs
    using that by (induction qs) (auto simp: filter_id_conv filter_empty_conv)
  then show ?thesis by simp
qed

lemma index_nodes_sorted: "index_at cmp i sk ps rs \<Longrightarrow> sorted_wrt (level_order cmp sk) ps"
  by (metis index_atE skip_sorted)

lemma take_until:
  assumes "sorted_wrt (level_order cmp sk) qs" "\<And>a b. cmp a b < 0 \<Longrightarrow> \<not> E b \<Longrightarrow> \<not> E a"
  shows "takeWhile (\<lambda>p. \<not> E (srow sk p)) qs = filter (\<lambda>p. \<not> E (srow sk p)) qs"
  using sorted_takeWhile_filter [OF assms(1), of "\<lambda>p. \<not> E (srow sk p)"] assms(2) by (auto simp: level_order_def)

text \<open>What walks that stop at an upper bound see, for any part \<open>S\<close> of the keys they start in.\<close>

lemma walk_between:
  assumes ix: "index_at cmp i sk ps rs" and qs: "qs = filter (\<lambda>p. S (srow sk p)) ps"
    and S: "\<And>a b. cmp a b = 0 \<Longrightarrow> S a \<longleftrightarrow> S b"
    and E: "\<And>a b. cmp a b < 0 \<Longrightarrow> \<not> E b \<Longrightarrow> \<not> E a" "\<And>a b. cmp a b = 0 \<Longrightarrow> E a \<longleftrightarrow> E b"
  shows "concat (map rs (takeWhile (\<lambda>p. \<not> E (srow sk p)) qs)) = filter (\<lambda>r. S r \<and> \<not> E r) (index_rows ps rs)"
proof -
  have "sorted_wrt (level_order cmp sk) qs" unfolding qs by (intro sorted_wrt_filter index_nodes_sorted [OF ix])
  then have "takeWhile (\<lambda>p. \<not> E (srow sk p)) qs = filter (\<lambda>p. S (srow sk p) \<and> \<not> E (srow sk p)) ps"
    using take_until [of sk qs E] E(1) unfolding qs by (simp add: conj_commute)
  moreover have "(S a \<and> \<not> E a) = (S b \<and> \<not> E b)" if "cmp a b = 0" for a b using S [OF that] E(2) [OF that] by blast
  ultimately show ?thesis using index_filter [OF ix, of "\<lambda>r. S r \<and> \<not> E r"] by simp
qed

lemma gt_advance_from:
  assumes ix: "index_at cmp i sk ps rs"
  shows "ps = xs @ qs \<Longrightarrow> gt_advance cmp (sk\<lparr>sfix := fx, curl := hd (qs @ [0])\<rparr>) r1 =
    Some (let qs' = dropWhile (\<lambda>p. \<not> cmp (srow sk p) r1 > 0) qs
          in if qs' = [] then None else Some (sk\<lparr>sfix := fx, curl := hd (qs' @ [0])\<rparr>))"
proof (induction qs arbitrary: xs)
  case Nil
  then show ?case by (simp add: gt_advance.simps [of cmp "sk\<lparr>sfix := fx, curl := 0\<rparr>"] jsw_srow_def)
next
  case (Cons p qs)
  note l = index_links [OF ix Cons.prems(1)]
  show ?case
    using l Cons.IH [of "xs @ [p]"] Cons.prems
    by (simp add: gt_advance.simps [of cmp "sk\<lparr>sfix := fx, curl := p\<rparr>"] jsw_srow_def jsw_snext_def Let_def hd_append)
qed

lemma key_respects:
  assumes "cmp a b = 0"
  shows "cmp a r = 0 \<longleftrightarrow> cmp b r = 0" "cmp a r < 0 \<longleftrightarrow> cmp b r < 0" "cmp a r > 0 \<longleftrightarrow> cmp b r > 0"
    "cmp a r \<le> 0 \<longleftrightarrow> cmp b r \<le> 0" "cmp a r \<ge> 0 \<longleftrightarrow> cmp b r \<ge> 0"
proof -
  show e: "cmp a r = 0 \<longleftrightarrow> cmp b r = 0" using same_key(2) [OF assms, of r] eq_sym by blast
  show l: "cmp a r < 0 \<longleftrightarrow> cmp b r < 0" using same_key(1) [OF assms, of r] anti [of r a] anti [of r b] by simp
  show "cmp a r > 0 \<longleftrightarrow> cmp b r > 0" "cmp a r \<le> 0 \<longleftrightarrow> cmp b r \<le> 0" "cmp a r \<ge> 0 \<longleftrightarrow> cmp b r \<ge> 0"
    using e l by linarith+
qed

lemma below: "cmp a b < 0 \<Longrightarrow> cmp b r < 0 \<Longrightarrow> cmp a r < 0" "cmp a b < 0 \<Longrightarrow> cmp b r \<le> 0 \<Longrightarrow> cmp a r \<le> 0"
  using less_trans [of a b r] trans [of a b r] by linarith+

lemma from_start_key: "cmp a b = 0 \<Longrightarrow> from_start cmp st r1 a \<longleftrightarrow> from_start cmp st r1 b"
  using key_respects [of a b r1] by (simp add: from_start_def split: skip_start.splits)

lemma past_end_key: "cmp a b = 0 \<Longrightarrow> past_end w cmp a \<longleftrightarrow> past_end w cmp b"
  using key_respects [of a b "wrow1 w"] key_respects [of a b "wrow2 w"] by (simp add: past_end_def split: skip_end.splits)

lemma past_end_below: "cmp a b < 0 \<Longrightarrow> \<not> past_end w cmp b \<Longrightarrow> \<not> past_end w cmp a"
  using below [of a b "wrow1 w"] below [of a b "wrow2 w"] by (auto simp: past_end_def not_le not_less split: skip_end.splits)

lemma start_walk_position:
  assumes ix: "index_at cmp i sk ps rs" and w: "wrow1 w \<noteq> 0" "skipStart w \<noteq> START_NONE"
  defines "qs \<equiv> filter (\<lambda>p. from_start cmp (skipStart w) (wrow1 w) (srow sk p)) ps"
  shows "\<exists>fx xs. ps = xs @ qs \<and> start_walk w cmp sk =
    Some (Inr (if skipStart w = START_GT_ROW1 \<and> qs = [] then None else Some (sk\<lparr>sfix := fx, curl := hd (qs @ [0])\<rparr>)))"
proof -
  obtain lv where lv: "skip_inv cmp sk lv" "lv 0 = ps" using ix by (rule index_atE)
  let ?r = "wrow1 w" and ?b = "\<lambda>p. before cmp sk (wrow1 w) p"
  have nb: "\<not> ?b p \<longleftrightarrow> cmp (srow sk p) ?r \<ge> 0" for p using anti [of ?r "srow sk p"] by (auto simp: before_def)
  have sp: "filter ?b ps @ filter (\<lambda>p. \<not> ?b p) ps = ps" using before_split(2) [OF index_nodes_sorted [OF ix]] by blast
  have ge: "filter (\<lambda>p. \<not> ?b p) ps = filter (\<lambda>p. cmp (srow sk p) ?r \<ge> 0) ps" by (simp add: nb)
  obtain fx where find: "map_option (\<lambda>(p, sk'). Inr (Some sk')) (jsw_sfind cmp sk ?r)
      = Some (Inr (Some (sk\<lparr>sfix := fx, curl := hd (filter (\<lambda>p. cmp (srow sk p) ?r \<ge> 0) ps @ [0])\<rparr>)) :: fault + skiplist option)"
    using sfind_inv [OF lv(1), of ?r, unfolded lv(2) ge] by force
  obtain fy where ge_find: "jsw_sfind_equal_or_greater cmp sk ?r
      = Some (hd (filter (\<lambda>p. cmp (srow sk p) ?r \<ge> 0) ps @ [0]), sk\<lparr>sfix := fy, curl := hd (filter (\<lambda>p. cmp (srow sk p) ?r \<ge> 0) ps @ [0])\<rparr>)"
    using sfind_ge_inv [OF lv(1), of ?r, unfolded lv(2) ge] by blast
  show ?thesis
  proof (cases "skipStart w")
    case START_NONE
    then show ?thesis using w(2) by simp
  next
    case START_RESET
    have "snext sk (shead sk) 0 = hd (ps @ [0])"
      using chain_first [OF levels_okD(5) [of sk lv 0]] lv by (simp add: skip_inv_def)
    then have "\<exists>fx. jsw_sreset sk = sk\<lparr>sfix := fx, curl := hd (ps @ [0])\<rparr>"
      by (intro exI [of _ "sfix sk"]) (cases sk; simp add: jsw_sreset_def)
    moreover have "qs = ps" using START_RESET by (simp add: qs_def from_start_def)
    ultimately show ?thesis using START_RESET by (auto simp: start_walk_def)
  next
    case START_EQ_ROW1
    then have "qs = filter (\<lambda>p. \<not> ?b p) ps" by (simp add: qs_def from_start_def ge)
    then show ?thesis using START_EQ_ROW1 w(1) find sp ge
      by (intro exI [of _ fx] exI [of _ "filter ?b ps"]) (auto simp: start_walk_def)
  next
    case START_GE_ROW1
    then have "qs = filter (\<lambda>p. \<not> ?b p) ps" by (simp add: qs_def from_start_def ge)
    then show ?thesis using START_GE_ROW1 w(1) ge_find sp ge
      by (intro exI [of _ fy] exI [of _ "filter ?b ps"]) (auto simp: start_walk_def)
  next
    case START_GT_ROW1
    let ?ge = "filter (\<lambda>p. cmp (srow sk p) ?r \<ge> 0) ps" and ?N = "\<lambda>p. \<not> cmp (srow sk p) ?r > 0"
    have so: "sorted_wrt (level_order cmp sk) ?ge" by (intro sorted_wrt_filter index_nodes_sorted [OF ix])
    have "dropWhile ?N ?ge = filter (\<lambda>p. \<not> ?N p) ?ge"
      using sorted_takeWhile_filter [OF so, of ?N] below(2) by (auto simp: level_order_def not_less)
    then have dw: "dropWhile ?N ?ge = qs" unfolding qs_def START_GT_ROW1 from_start_def by (auto intro: filter_cong)
    have "ps = filter ?b ps @ ?ge" using sp ge by simp
    from gt_advance_from [OF ix this, of fy ?r] have "gt_advance cmp (sk\<lparr>sfix := fy, curl := hd (?ge @ [0])\<rparr>) ?r
        = Some (if qs = [] then None else Some (sk\<lparr>sfix := fy, curl := hd (qs @ [0])\<rparr>))"
      unfolding Let_def dw .
    moreover have "ps = (filter ?b ps @ takeWhile ?N ?ge) @ qs" using dw sp ge by (metis append.assoc takeWhile_dropWhile_id)
    ultimately show ?thesis using START_GT_ROW1 w(1) ge_find
      by (intro exI [of _ fy] exI [of _ "filter ?b ps @ takeWhile ?N ?ge"]) (simp add: start_walk_def)
  qed
qed

text \<open>A walk over a range of keys calls the step on the rows of that range.\<close>

lemma range_walk:
  assumes ix: "index_at cmp i sk ps rs" and w: "wrow1 w \<noteq> 0" "skipStart w \<noteq> START_NONE" "skipNext w = NEXT_ROW" and n: "length ps < n"
  shows "Option.bind (start_walk w cmp sk) (\<lambda>start. case start of
       Inl e \<Rightarrow> Some (Inl e)
     | Inr None \<Rightarrow> Some (Inr (TCL_CONTINUE, s))
     | Inr (Some sk') \<Rightarrow> skip_loop n w cmp i step sk' ins s)
    = Some (run_rows step (filter (\<lambda>r. from_start cmp (skipStart w) (wrow1 w) r \<and> \<not> past_end w cmp r) (index_rows ps rs)) s)"
proof -
  let ?qs = "filter (\<lambda>p. from_start cmp (skipStart w) (wrow1 w) (srow sk p)) ps"
  obtain fx xs where st: "ps = xs @ ?qs" "start_walk w cmp sk =
      Some (Inr (if skipStart w = START_GT_ROW1 \<and> ?qs = [] then None else Some (sk\<lparr>sfix := fx, curl := hd (?qs @ [0])\<rparr>)))"
    using start_walk_position [OF ix w(1, 2)] by blast
  have rows: "concat (map rs (takeWhile (\<lambda>p. \<not> past_end w cmp (srow sk p)) ?qs))
      = filter (\<lambda>r. from_start cmp (skipStart w) (wrow1 w) r \<and> \<not> past_end w cmp r) (index_rows ps rs)"
    by (rule walk_between [OF ix refl from_start_key past_end_below past_end_key])
  have "length ?qs < n" using n length_filter_le le_less_trans by metis
  then have loop: "skip_loop n w cmp i step (sk\<lparr>sfix := fx, curl := hd (?qs @ [0])\<rparr>) ins s
      = Some (run_rows step (concat (map rs (takeWhile (\<lambda>p. \<not> past_end w cmp (srow sk p)) ?qs))) s)"
    by (rule skip_loop_row [OF ix w(3) st(1)])
  show ?thesis
  proof (cases "skipStart w = START_GT_ROW1 \<and> ?qs = []")
    case True
    then have "start_walk w cmp sk = Some (Inr None)" using st(2) unfolding if_P [OF True] by blast
    moreover have "filter (\<lambda>r. from_start cmp (skipStart w) (wrow1 w) r \<and> \<not> past_end w cmp r) (index_rows ps rs) = []"
      using rows unfolding conjunct2 [OF True] by simp
    ultimately show ?thesis by simp
  next
    case False
    then have "start_walk w cmp sk = Some (Inr (Some (sk\<lparr>sfix := fx, curl := hd (?qs @ [0])\<rparr>)))"
      using st(2) unfolding if_not_P [OF False] by blast
    then show ?thesis using loop unfolding rows by simp
  qed
qed

text \<open>The rows an \<^verbatim>\<open>in\<close> walk sees; it sees them once when the values of the list differ.\<close>

lemma key_nodeD: "key_node cmp sk ps row = Some p \<Longrightarrow> p \<in> set ps \<and> cmp row (srow sk p) = 0"
  by (auto simp: key_node_def find_Some_iff)

lemma key_node_unique:
  assumes ix: "index_at cmp i sk ps rs" and "p \<in> set ps" "cmp row (srow sk p) = 0"
  shows "key_node cmp sk ps row = Some p"
proof -
  obtain lv where lv: "skip_inv cmp sk lv" "lv 0 = ps" using ix by (rule index_atE)
  have u: "q = p" if "q \<in> set ps" "cmp row (srow sk q) = 0" for q
    using found_iff(2) [OF lv(1) refl, where row = row, unfolded lv(2)] that assms(2, 3) by metis
  obtain q where "key_node cmp sk ps row = Some q"
    using assms(2, 3) by (cases "key_node cmp sk ps row") (auto simp: key_node_def find_None_iff)
  then show ?thesis using u key_nodeD by blast
qed

lemma set_key_rows:
  assumes ix: "index_at cmp i sk ps rs"
  shows "set (key_rows cmp sk ps rs row) = {r \<in> set (index_rows ps rs). cmp r row = 0}"
proof (intro set_eqI iffI)
  fix r assume "r \<in> set (key_rows cmp sk ps rs row)"
  then obtain p where p: "key_node cmp sk ps row = Some p" "r \<in> set (rs p)"
    by (cases "key_node cmp sk ps row") auto
  then have "cmp row r = 0" using key_nodeD index_atD(3) [OF ix] eq_trans by blast
  then show "r \<in> {r \<in> set (index_rows ps rs). cmp r row = 0}" using p key_nodeD eq_sym by fastforce
next
  fix r assume "r \<in> {r \<in> set (index_rows ps rs). cmp r row = 0}"
  then obtain p where p: "p \<in> set ps" "r \<in> set (rs p)" "cmp r row = 0" by auto
  then have "cmp row (srow sk p) = 0" using index_atD(3) [OF ix] eq_trans eq_sym by blast
  then show "r \<in> set (key_rows cmp sk ps rs row)" using key_node_unique [OF ix p(1)] p(2) by simp
qed

lemma in_rows_distinct:
  assumes ix: "index_at cmp i sk ps rs"
  shows "distinct_keys cmp ins \<Longrightarrow> distinct (concat (map (key_rows cmp sk ps rs) ins))
    \<and> length (filter (\<lambda>r. key_node cmp sk ps r \<noteq> None) ins) \<le> length ps"
proof -
  assume d: "distinct_keys cmp ins"
  have sep: "cmp r row \<noteq> 0 \<or> cmp r row' \<noteq> 0" if "cmp row' row \<noteq> 0" for r row row'
    using that eq_trans eq_sym by blast
  have "distinct (key_rows cmp sk ps rs row)" for row
    using index_atD(2) [OF ix] by (auto dest: key_nodeD simp: is_list_def split: option.splits)
  then have once: "distinct (concat (map (key_rows cmp sk ps rs) ins))"
    using d
  proof (induction ins)
    case (Cons row ins)
    have "set (key_rows cmp sk ps rs row) \<inter> set (key_rows cmp sk ps rs row') = {}" if "row' \<in> set ins" for row'
    proof -
      have "cmp row' row \<noteq> 0" using Cons.prems(2) that by (simp add: distinct_keys_def)
      then show ?thesis using sep unfolding set_key_rows [OF ix] by blast
    qed
    then have "set (key_rows cmp sk ps rs row) \<inter> set (concat (map (key_rows cmp sk ps rs) ins)) = {}"
      by (simp only: set_concat set_map) blast
    then show ?case using Cons.IH [OF Cons.prems(1)] Cons.prems
      by (simp only: list.map concat.simps distinct_append) (simp add: distinct_keys_def)
  qed simp
  have "distinct (map (\<lambda>r. the (key_node cmp sk ps r)) (filter (\<lambda>r. key_node cmp sk ps r \<noteq> None) ins))"
    using d
  proof (induction ins)
    case (Cons row ins)
    have no: "the (key_node cmp sk ps row) \<notin> (\<lambda>r. the (key_node cmp sk ps r)) ` {r \<in> set ins. key_node cmp sk ps r \<noteq> None}"
      if found: "key_node cmp sk ps row \<noteq> None"
    proof
      assume "the (key_node cmp sk ps row) \<in> (\<lambda>r. the (key_node cmp sk ps r)) ` {r \<in> set ins. key_node cmp sk ps r \<noteq> None}"
      then obtain row' where row': "row' \<in> set ins" "key_node cmp sk ps row' \<noteq> None"
          "the (key_node cmp sk ps row') = the (key_node cmp sk ps row)" by auto
      then obtain p q where pq: "key_node cmp sk ps row' = Some p" "key_node cmp sk ps row = Some q" using found by blast
      then have "cmp row' (srow sk p) = 0" "cmp row (srow sk p) = 0"
        using key_nodeD [OF pq(1)] key_nodeD [OF pq(2)] row'(3) by auto
      then have "cmp row' row = 0" using eq_trans eq_sym by blast
      then show False using Cons.prems row'(1) by (auto simp: distinct_keys_def)
    qed
    have "distinct_keys cmp ins" using Cons.prems by (simp add: distinct_keys_def)
    then show ?case using Cons.IH no by (simp del: not_None_eq)
  qed simp
  moreover have nodes: "set (map (\<lambda>r. the (key_node cmp sk ps r)) (filter (\<lambda>r. key_node cmp sk ps r \<noteq> None) ins)) \<subseteq> set ps"
    using key_nodeD by auto
  ultimately have "length (filter (\<lambda>r. key_node cmp sk ps r \<noteq> None) ins) \<le> length ps"
    using distinct_subset_length [OF _ nodes] by simp
  with once show ?thesis ..
qed

text \<open>A walk over the values of an \<^verbatim>\<open>in\<close> list.\<close>

lemma in_walk:
  assumes ix: "index_at cmp i sk ps rs" and w: "skipStart w = START_RESET" "skipNext w = NEXT_IN_LIST" "skipEnd w = END_NONE"
    and n: "length ps < n" and ins: "0 \<notin> set ins" "distinct_keys cmp ins"
  shows "Option.bind (start_walk w cmp sk) (\<lambda>start. case start of
       Inl e \<Rightarrow> Some (Inl e)
     | Inr None \<Rightarrow> Some (Inr (TCL_CONTINUE, s))
     | Inr (Some sk') \<Rightarrow> skip_loop n w cmp i step sk' ins s)
    = Some (run_rows step (concat (map (key_rows cmp sk ps rs) ins)) s)"
proof -
  have "jsw_sreset sk = sk\<lparr>sfix := sfix sk, curl := snext sk (shead sk) 0\<rparr>" by (cases sk) (simp add: jsw_sreset_def)
  moreover have "length (filter (\<lambda>r. key_node cmp sk ps r \<noteq> None) ins) < n"
    using in_rows_distinct [OF ix ins(2)] n by linarith
  ultimately have "skip_loop n w cmp i step (jsw_sreset sk) ins s = Some (run_rows step (concat (map (key_rows cmp sk ps rs) ins)) s)"
    using skip_loop_in [OF ix w(2, 3) ins(1), where n = n and step = step and s = s and fx = "sfix sk" and c = "snext sk (shead sk) 0"] by metis
  then show ?thesis using w(1) by (simp add: start_walk_def)
qed

end

section \<open>What a search relies on\<close>

text \<open>
  A table in good order whose indexes hold every row, with a hash table that finds the rows by their keys;
  and components as \<^verbatim>\<open>ctable_ParseSearch\<close> makes them.  The values of an \<^verbatim>\<open>in\<close> list must differ.
\<close>

definition searchable :: "search_env \<Rightarrow> ctable \<Rightarrow> addr list \<Rightarrow> (nat \<Rightarrow> addr list) \<Rightarrow> (nat \<Rightarrow> addr \<Rightarrow> addr list) \<Rightarrow> bool" where
  "searchable ev t rows ps rs \<longleftrightarrow> creator_ok (creator ev) \<and> table_ok (creator ev) {} t rows ps rs
     \<and> (\<forall>f. skipLists t f \<noteq> None \<longrightarrow> set (index_rows (ps f) (rs f)) = set rows)
     \<and> count ev = length rows \<and> inj_on (row_key ev) (set rows)
     \<and> (\<forall>k. if k \<in> row_key ev ` set rows then find_row ev k \<in> set rows \<and> row_key ev (find_row ev k) = k else find_row ev k = 0)"

definition is_key :: "search_env \<Rightarrow> component \<Rightarrow> bool" where
  "is_key ev c \<longleftrightarrow> int (fieldID c) = keyField ev"

definition component_ok :: "search_env \<Rightarrow> component \<Rightarrow> bool" where
  "component_ok ev c \<longleftrightarrow>
     (comparisonType c = COMP_MATCH_CASE \<longrightarrow> row2 c = 0)
   \<and> (comparisonType c \<in> {COMP_LT, COMP_LE, COMP_EQ, COMP_GE, COMP_GT, COMP_RANGE} \<longrightarrow> row1 c \<noteq> 0)
   \<and> (comparisonType c = COMP_EQ \<and> is_key ev c \<longrightarrow>
        (\<forall>r. field_cmp ev (fieldID c) r (row1 c) = 0 \<longleftrightarrow> row_key ev r = row_key ev (row1 c)))
   \<and> (comparisonType c = COMP_IN \<longrightarrow> (\<exists>ins. ctable_CreateInRows ev c = Some ins \<and> 0 \<notin> set ins
        \<and> distinct_keys (field_cmp ev (fieldID c)) ins
        \<and> (is_key ev c \<longrightarrow> list_all2 (\<lambda>k i. \<forall>r. field_cmp ev (fieldID c) r i = 0 \<longleftrightarrow> row_key ev r = k) (inListObj c) ins)))"

definition satisfies :: "search_env \<Rightarrow> component \<Rightarrow> addr \<Rightarrow> bool" where
  "satisfies ev c row = component_holds ev c (if comparisonType c = COMP_IN then the (ctable_CreateInRows ev c) else []) row"

lemma component_okD:
  assumes "component_ok ev c"
  shows "comparisonType c = COMP_MATCH_CASE \<Longrightarrow> row2 c = 0"
    and "comparisonType c \<in> {COMP_LT, COMP_LE, COMP_EQ, COMP_GE, COMP_GT, COMP_RANGE} \<Longrightarrow> row1 c \<noteq> 0"
    and "comparisonType c = COMP_EQ \<Longrightarrow> is_key ev c \<Longrightarrow>
      field_cmp ev (fieldID c) r (row1 c) = 0 \<longleftrightarrow> row_key ev r = row_key ev (row1 c)"
    and "comparisonType c = COMP_IN \<Longrightarrow> \<exists>ins. ctable_CreateInRows ev c = Some ins \<and> 0 \<notin> set ins
      \<and> distinct_keys (field_cmp ev (fieldID c)) ins
      \<and> (is_key ev c \<longrightarrow> list_all2 (\<lambda>k i. \<forall>r. field_cmp ev (fieldID c) r i = 0 \<longleftrightarrow> row_key ev r = k) (inListObj c) ins)"
  using assms unfolding component_ok_def by blast+

text \<open>What the loop over the components makes of one of them.\<close>

definition skip_plan :: "search_env \<Rightarrow> ctable \<Rightarrow> component \<Rightarrow> plan \<Rightarrow> bool" where
  "skip_plan ev t c w \<longleftrightarrow> skipLists t (fieldID c) \<noteq> None \<and> skipField w = fieldID c
     \<and> (if comparisonType c = COMP_IN
        then skipStart w = START_RESET \<and> skipNext w = NEXT_IN_LIST \<and> skipEnd w = END_NONE \<and> \<not> inOrderWalk w
             \<and> ctable_CreateInRows ev c = Some (winRows w)
        else comparisonType c \<in> {COMP_LT, COMP_LE, COMP_EQ, COMP_GE, COMP_GT, COMP_RANGE}
             \<and> skipNext w = NEXT_ROW \<and> wrow1 w = row1 c \<and> wrow2 w = row2 c
             \<and> skipStart w = fst (skipTypes (comparisonType c)) \<and> skipEnd w = fst (snd (skipTypes (comparisonType c))))"

definition plan_made :: "search_env \<Rightarrow> ctable \<Rightarrow> component list \<Rightarrow> plan \<Rightarrow> bool" where
  "plan_made ev t cs w \<longleftrightarrow> (case walkType w of
       WALK_DEFAULT \<Rightarrow> walready w = None \<and> \<not> inOrderWalk w
     | WALK_SKIP \<Rightarrow> \<exists>i<length cs. walready w = Some i \<and> skip_plan ev t (cs ! i) w
     | WALK_HASH_EQ \<Rightarrow> \<exists>i<length cs. walready w = Some i \<and> comparisonType (cs ! i) = COMP_EQ \<and> is_key ev (cs ! i)
         \<and> \<not> share_reader t \<and> wkey w = Some (row_key ev (row1 (cs ! i)))
     | WALK_HASH_IN \<Rightarrow> \<exists>i<length cs. walready w = Some i \<and> comparisonType (cs ! i) = COMP_IN \<and> is_key ev (cs ! i)
         \<and> \<not> inOrderWalk w \<and> wkey w = None \<and> winList w = inListObj (cs ! i))"

text \<open>
  A list of values that a lookup of one key would go on with: it is left over when an indexed field other
  than the key is compared with \<^verbatim>\<open>in\<close>, and the key with \<^verbatim>\<open>=\<close>.
\<close>

definition stale_list :: "search_env \<Rightarrow> ctable \<Rightarrow> component list \<Rightarrow> bool" where
  "stale_list ev t cs \<longleftrightarrow> \<not> share_reader t
     \<and> (\<exists>c\<in>set cs. comparisonType c = COMP_IN \<and> \<not> is_key ev c \<and> skipLists t (fieldID c) \<noteq> None)
     \<and> (\<exists>c\<in>set cs. comparisonType c = COMP_EQ \<and> is_key ev c)"

lemma skip_types_cases:
  "(ct \<in> {COMP_LT, COMP_LE, COMP_EQ, COMP_GE, COMP_GT, COMP_RANGE} \<and> (\<exists>st en sc. skipTypes ct = (st, en, NEXT_ROW, sc)))
   \<or> ct = COMP_IN \<or> ct = COMP_MATCH_CASE \<or> skipTypes ct = (START_NONE, END_NONE, NEXT_NONE, - 2)"
  by (cases ct) simp_all

lemma choose_walk_plan:
  assumes "\<forall>c\<in>set cs. component_ok ev c"
  shows "\<lbrakk>\<forall>(i, c)\<in>set ics. i < length cs \<and> cs ! i = c; plan_made ev t cs w; wkey w = None; bestScore w = 0;
      walkType w \<in> {WALK_DEFAULT, WALK_SKIP};
      winList w \<noteq> [] \<longrightarrow> share_reader t \<or> (\<exists>c\<in>set cs. comparisonType c = COMP_IN \<and> \<not> is_key ev c \<and> skipLists t (fieldID c) \<noteq> None)\<rbrakk>
    \<Longrightarrow> \<exists>w'. choose_walk ev t sf ics w = Inr (True, w') \<and> plan_made ev t cs w'
      \<and> (walkType w' = WALK_HASH_EQ \<and> \<not> stale_list ev t cs \<longrightarrow> winList w' = [])"
proof (induction ics arbitrary: w)
  case Nil
  then show ?case by auto
next
  case (Cons ic ics)
  obtain i c where ic: "ic = (i, c)" "i < length cs" "cs ! i = c" using Cons.prems(1) by (cases ic) auto
  then have c: "c \<in> set cs" "component_ok ev c" using assms by auto
  have ics: "\<forall>(i, c)\<in>set ics. i < length cs \<and> cs ! i = c" using Cons.prems(1) by simp
  note skip = Cons.IH [OF ics Cons.prems(2-)]
  let ?ct = "comparisonType c"
  obtain st en nx sc where ty: "skipTypes ?ct = (st, en, nx, sc)" by (cases "skipTypes ?ct") auto
  show ?case
  proof (cases "is_key ev c \<and> \<not> share_reader t \<and> hashTypes ?ct \<noteq> WALK_DEFAULT")
    case True
    then have "?ct = COMP_EQ \<or> ?ct = COMP_IN" by (cases ?ct) auto
    then show ?thesis
    proof
      assume "?ct = COMP_EQ"
      then show ?thesis
        using True ic c Cons.prems(5, 6) ty
        by (auto simp: is_key_def plan_made_def stale_list_def Let_def)
    next
      assume "?ct = COMP_IN"
      then show ?thesis using True ic c Cons.prems(3) ty by (auto simp: is_key_def plan_made_def Let_def)
    qed
  next
    case nohash: False
    show ?thesis
    proof (cases "skipLists t (fieldID c) = None \<or> (nx = NEXT_MATCH \<and> row2 c = 0) \<or> int (fieldID c) \<in> set (previous_fields ev)
        \<or> bestScore w > sc + (if int (fieldID c) = sf then SORT_SCORE else 0)")
      case True
      then have "choose_walk ev t sf (ic # ics) w = choose_walk ev t sf ics w"
        using nohash ty ic(1) by (auto simp: is_key_def Let_def)
      then show ?thesis using skip by simp
    next
      case use: False
      have hash: "\<not> (int (fieldID c) = keyField ev \<and> \<not> share_reader t \<and> hashTypes ?ct \<noteq> WALK_DEFAULT)"
        using nohash by (simp add: is_key_def)
      have u: "\<not> skipLists t (fieldID c) = None" "\<not> (nx = NEXT_MATCH \<and> row2 c = 0)" "\<not> int (fieldID c) \<in> set (previous_fields ev)"
          "\<not> bestScore w > sc + (if int (fieldID c) = sf then SORT_SCORE else 0)"
        using use by (simp_all only: de_Morgan_disj simp_thms)
      note step = choose_walk.simps(2) Let_def ty prod.case if_not_P [OF hash] if_not_P [OF u(1)] if_not_P [OF u(2)]
        if_not_P [OF u(3)] if_not_P [OF u(4)]
      have "?ct \<noteq> COMP_MATCH_CASE"
      proof
        assume m: "?ct = COMP_MATCH_CASE"
        then have "nx = NEXT_MATCH" using ty by simp
        then show False using u(2) component_okD(1) [OF c(2) m] by blast
      qed
      moreover have "skipTypes ?ct \<noteq> (START_NONE, END_NONE, NEXT_NONE, - 2)"
        using u(4) ty Cons.prems(4) by (simp add: SORT_SCORE_def split: if_splits)
      ultimately consider (range) "?ct \<in> {COMP_LT, COMP_LE, COMP_EQ, COMP_GE, COMP_GT, COMP_RANGE}" "nx = NEXT_ROW" | (isin) "?ct = COMP_IN"
        using skip_types_cases [of ?ct] ty by force
      then show ?thesis
      proof cases
        case range
        let ?w = "w\<lparr>skipField := fieldID c, wsearchField := int (fieldID c), skipNext := nx, skipStart := st, skipEnd := en,
            walready := Some i, walkType := WALK_SKIP, inOrderWalk := True, wrow1 := row1 c, wrow2 := row2 c\<rparr>"
        have "choose_walk ev t sf (ic # ics) w = choose_walk ev t sf ics ?w"
          unfolding ic(1) step range(2) skip_next.case using Cons.prems(4) by simp
        moreover have "plan_made ev t cs ?w"
          using range ic(2, 3) u(1) ty by (auto simp: plan_made_def skip_plan_def)
        ultimately show ?thesis using Cons.IH [OF ics, of ?w] Cons.prems by simp
      next
        case isin
        then have tyin: "st = START_RESET" "en = END_NONE" "nx = NEXT_IN_LIST" using ty by auto
        obtain ins where ins: "ctable_CreateInRows ev c = Some ins" using component_okD(4) [OF c(2) isin] by blast
        let ?w = "w\<lparr>skipField := fieldID c, wsearchField := int (fieldID c), skipNext := nx, skipStart := st, skipEnd := en,
            walready := Some i, walkType := WALK_SKIP, inOrderWalk := False, winList := inListObj c, winRows := ins, wrow1 := row1 c\<rparr>"
        have "choose_walk ev t sf (ic # ics) w = choose_walk ev t sf ics ?w"
          unfolding ic(1) step tyin(3) skip_next.case ins option.case using Cons.prems(4) by simp
        moreover have "plan_made ev t cs ?w"
          using isin ic(2, 3) u(1) tyin ins by (auto simp: plan_made_def skip_plan_def)
        moreover have "share_reader t \<or> (\<exists>c\<in>set cs. comparisonType c = COMP_IN \<and> \<not> is_key ev c \<and> skipLists t (fieldID c) \<noteq> None)"
          using nohash isin c(1) use by auto
        ultimately show ?thesis using Cons.IH [OF ics, of ?w] Cons.prems by simp
      qed
    qed
  qed
qed

section \<open>The rows a plan visits\<close>

lemma searchableD:
  assumes "searchable ev t rows ps rs"
  shows "row_comparator (field_cmp ev f)" "is_list (tmem t) (ll_head t) 0 rows" "distinct rows" "0 \<notin> set rows" "count ev = length rows"
    and "skipLists t f = Some sk \<Longrightarrow> index_at (field_cmp ev f) (list_no (creator ev) f) (with_mem (tmem t) t sk) (ps f) (rs f)"
    and "skipLists t f = Some sk \<Longrightarrow> set (index_rows (ps f) (rs f)) = set rows"
    and "inj_on (row_key ev) (set rows)"
    and "find_row ev k \<noteq> 0 \<Longrightarrow> find_row ev k \<in> set rows \<and> row_key ev (find_row ev k) = k"
    and "r \<in> set rows \<Longrightarrow> find_row ev (row_key ev r) = r"
proof -
  have cr: "creator_ok (creator ev)" and ok: "table_ok (creator ev) {} t rows ps rs" and inj: "inj_on (row_key ev) (set rows)"
    and find: "\<forall>k. if k \<in> row_key ev ` set rows then find_row ev k \<in> set rows \<and> row_key ev (find_row ev k) = k else find_row ev k = 0"
    and cnt: "count ev = length rows"
    using assms by (simp_all add: searchable_def)
  have ixs: "skipLists t f \<noteq> None \<longrightarrow> set (index_rows (ps f) (rs f)) = set rows" for f
    using assms unfolding searchable_def by blast
  show "row_comparator (field_cmp ev f)" using creator_okD(1) [OF cr] .
  show l: "is_list (tmem t) (ll_head t) 0 rows" using table_okD(1) [OF ok] .
  then show "distinct rows" "0 \<notin> set rows" using is_list_null by (auto simp: is_list_def)
  show "count ev = length rows" "inj_on (row_key ev) (set rows)" by (rule cnt, rule inj)
  show "skipLists t f = Some sk \<Longrightarrow> index_at (field_cmp ev f) (list_no (creator ev) f) (with_mem (tmem t) t sk) (ps f) (rs f)"
    using table_okD(3) [OF ok] by (simp add: index_at_with_mem)
  show "skipLists t f = Some sk \<Longrightarrow> set (index_rows (ps f) (rs f)) = set rows" using ixs [of f] by simp
  show "find_row ev k \<noteq> 0 \<Longrightarrow> find_row ev k \<in> set rows \<and> row_key ev (find_row ev k) = k"
    using find by (metis (full_types))
  show "r \<in> set rows \<Longrightarrow> find_row ev (row_key ev r) = r"
    using find inj by (metis image_eqI inj_onD)
qed

lemma index_size: "\<forall>p\<in>set ps. rs p \<noteq> [] \<Longrightarrow> length ps \<le> length (index_rows ps rs)"
proof (induction ps)
  case (Cons p ps)
  then show ?case by (cases "rs p") auto
qed simp

lemma range_satisfies:
  assumes "skip_plan ev t c w" "comparisonType c \<noteq> COMP_IN"
  shows "from_start (field_cmp ev (fieldID c)) (skipStart w) (wrow1 w) r \<and> \<not> past_end w (field_cmp ev (fieldID c)) r \<longleftrightarrow> satisfies ev c r"
proof -
  have w: "comparisonType c \<in> {COMP_LT, COMP_LE, COMP_EQ, COMP_GE, COMP_GT, COMP_RANGE}" "wrow1 w = row1 c" "wrow2 w = row2 c"
      "skipStart w = fst (skipTypes (comparisonType c))" "skipEnd w = fst (snd (skipTypes (comparisonType c)))"
    using assms by (simp_all add: skip_plan_def)
  then show ?thesis
    by (cases "comparisonType c") (auto simp: from_start_def past_end_def satisfies_def component_holds_def Let_def)
qed

text \<open>What a plan visits, and that the walk of any step is the run over these rows.\<close>

definition visits :: "search_env \<Rightarrow> ctable \<Rightarrow> addr list \<Rightarrow> component list \<Rightarrow> plan \<Rightarrow> addr list \<Rightarrow> bool" where
  "visits ev t rows cs w vs \<longleftrightarrow> distinct vs
     \<and> set vs = {r \<in> set rows. case walready w of None \<Rightarrow> True | Some i \<Rightarrow> satisfies ev (cs ! i) r}
     \<and> (inOrderWalk w \<and> walkType w = WALK_SKIP \<longrightarrow> sorted_wrt (\<lambda>r s. field_cmp ev (skipField w) r s \<le> 0) vs)
     \<and> (walkType w = WALK_HASH_EQ \<longrightarrow> length vs \<le> 1)"

lemma skip_visits:
  assumes ok: "searchable ev t rows ps rs" and c: "component_ok ev c" and w: "skip_plan ev t c w" "walkType w = WALK_SKIP"
    and i: "walready w = Some i" "cs ! i = c"
  shows "\<exists>vs. visits ev t rows cs w vs \<and> (\<forall>s. perform_walk ev t w step s = Some (run_rows step vs s))"
proof -
  let ?f = "fieldID c"
  note S = searchableD [OF ok]
  note rc = S(1) [of ?f]
  obtain sk where sk: "skipLists t ?f = Some sk" "skipField w = ?f" using w(1) by (auto simp: skip_plan_def)
  let ?sk = "with_mem (tmem t) t sk" and ?ix = "index_rows (ps ?f) (rs ?f)" and ?cmp = "field_cmp ev ?f"
  note ix = S(6) [OF sk(1)]
  have d: "distinct ?ix" using row_comparator.index_distinct(1) [OF rc ix] .
  have "length (ps ?f) \<le> length ?ix" using index_size index_atD(1) [OF ix] by blast
  also have "length ?ix = count ev" using S(5) distinct_card [OF d] distinct_card [OF S(3)] S(7) [OF sk(1)] by metis
  finally have n: "length (ps ?f) < Suc (count ev)" by simp
  have pw: "perform_walk ev t w step s = Option.bind (start_walk w ?cmp ?sk) (\<lambda>start. case start of
       Inl e \<Rightarrow> Some (Inl e)
     | Inr None \<Rightarrow> Some (Inr (TCL_CONTINUE, s))
     | Inr (Some sk') \<Rightarrow> skip_loop (Suc (count ev)) w ?cmp (list_no (creator ev) ?f) step sk' (winRows w) s)" for s
    using w(2) sk by (simp add: perform_walk_def Let_def del: skip_loop.simps)
  show ?thesis
  proof (cases "comparisonType c = COMP_IN")
    case True
    obtain ins where ins: "ctable_CreateInRows ev c = Some ins" "0 \<notin> set ins" "distinct_keys ?cmp ins"
      using component_okD(4) [OF c True] by blast
    let ?vs = "concat (map (key_rows ?cmp ?sk (ps ?f) (rs ?f)) ins)"
    have wi: "skipStart w = START_RESET" "skipNext w = NEXT_IN_LIST" "skipEnd w = END_NONE" "\<not> inOrderWalk w" "winRows w = ins"
      using w(1) True ins(1) by (simp_all add: skip_plan_def)
    have kr: "set (key_rows ?cmp ?sk (ps ?f) (rs ?f) row) = {r \<in> set rows. ?cmp r row = 0}" for row
      using row_comparator.set_key_rows [OF rc ix, of row] unfolding S(7) [OF sk(1)] .
    have sat: "satisfies ev c r \<longleftrightarrow> (\<exists>row\<in>set ins. ?cmp r row = 0)" for r
      using True ins(1) by (simp add: satisfies_def component_holds_def Let_def list_ex_iff)
    have "set ?vs = (\<Union>row\<in>set ins. set (key_rows ?cmp ?sk (ps ?f) (rs ?f) row))" by (simp only: set_concat set_map image_image)
    then have "set ?vs = {r \<in> set rows. satisfies ev c r}" unfolding kr sat by blast
    then have "visits ev t rows cs w ?vs"
      using row_comparator.in_rows_distinct [OF rc ix ins(3)] wi(4) w(2) i by (simp add: visits_def)
    moreover have "perform_walk ev t w step s = Some (run_rows step ?vs s)" for s
      unfolding pw wi(5) by (rule row_comparator.in_walk [OF rc ix wi(1-3) n ins(2, 3)])
    ultimately show ?thesis by blast
  next
    case False
    let ?vs = "filter (\<lambda>r. from_start ?cmp (skipStart w) (wrow1 w) r \<and> \<not> past_end w ?cmp r) ?ix"
    have ct: "comparisonType c \<in> {COMP_LT, COMP_LE, COMP_EQ, COMP_GE, COMP_GT, COMP_RANGE}" "wrow1 w = row1 c" "skipNext w = NEXT_ROW"
        "skipStart w = fst (skipTypes (comparisonType c))"
      using w(1) False by (simp_all add: skip_plan_def)
    have st: "wrow1 w \<noteq> 0" "skipStart w \<noteq> START_NONE" using component_okD(2) [OF c ct(1)] ct by auto
    have "set ?vs = {r \<in> set rows. satisfies ev c r}"
      using range_satisfies [OF w(1) False] S(7) [OF sk(1)] by auto
    then have "visits ev t rows cs w ?vs"
      using d w(2) i sorted_wrt_filter [OF row_comparator.index_sorted [OF rc ix]] sk(2) by (simp add: visits_def)
    moreover have "perform_walk ev t w step s = Some (run_rows step ?vs s)" for s
      unfolding pw by (rule row_comparator.range_walk [OF rc ix st ct(3) n])
    ultimately show ?thesis by blast
  qed
qed

text \<open>The walks that look up keys.\<close>

lemma list_all2_ex: "list_all2 P xs ys \<Longrightarrow> x \<in> set xs \<Longrightarrow> \<exists>y\<in>set ys. P x y"
  by (induction rule: list_all2_induct) auto

lemma hash_visits:
  assumes ok: "searchable ev t rows ps rs" and d: "distinct ks" and w: "walkType w = WALK_HASH_EQ \<or> walkType w = WALK_HASH_IN"
    and ks: "(case wkey w of Some k \<Rightarrow> [k] | None \<Rightarrow> []) @ winList w = ks" and one: "walkType w = WALK_HASH_EQ \<Longrightarrow> length ks \<le> 1"
    and i: "walready w = Some i" and sat: "\<And>r. satisfies ev (cs ! i) r \<longleftrightarrow> row_key ev r \<in> set ks"
  shows "\<exists>vs. visits ev t rows cs w vs \<and> (\<forall>s. perform_walk ev t w step s = Some (run_rows step vs s))"
proof -
  note S = searchableD [OF ok]
  let ?vs = "filter (\<lambda>r. r \<noteq> 0) (map (find_row ev) ks)"
  have "distinct ?vs"
    using d
  proof (induction ks)
    case (Cons k ks)
    have "find_row ev k \<noteq> 0 \<Longrightarrow> find_row ev k \<notin> find_row ev ` set ks"
    proof
      assume k: "find_row ev k \<noteq> 0" "find_row ev k \<in> find_row ev ` set ks"
      then obtain k' where "k' \<in> set ks" "find_row ev k = find_row ev k'" by auto
      then show False using Cons.prems S(9) [of k] S(9) [of k'] k(1) by (metis distinct.simps(2))
    qed
    then show ?case using Cons by (cases "find_row ev k = 0") simp_all
  qed simp
  moreover have "set ?vs = {r \<in> set rows. satisfies ev (cs ! i) r}"
  proof (intro set_eqI iffI)
    fix r assume "r \<in> set ?vs"
    then show "r \<in> {r \<in> set rows. satisfies ev (cs ! i) r}" using S(9) sat by fastforce
  next
    fix r assume "r \<in> {r \<in> set rows. satisfies ev (cs ! i) r}"
    then have r: "r \<in> set rows" "row_key ev r \<in> set ks" using sat by auto
    then have "r \<in> find_row ev ` set ks" using S(10) by (metis image_eqI)
    moreover have "r \<noteq> 0" using S(4) r(1) by metis
    ultimately show "r \<in> set ?vs" by simp
  qed
  moreover have "length ?vs \<le> 1" if "walkType w = WALK_HASH_EQ"
    using length_filter_le [of "\<lambda>r. r \<noteq> 0" "map (find_row ev) ks"] one [OF that]
    unfolding length_map by linarith
  moreover have "walkType w \<noteq> WALK_SKIP" using w by auto
  ultimately have "visits ev t rows cs w ?vs" unfolding visits_def by (simp only: i option.case) simp
  moreover have "perform_walk ev t w step s = Some (run_rows step ?vs s)" for s
    using w ks by (auto simp: perform_walk_def hash_walk_rows)
  ultimately show ?thesis by blast
qed

lemma walk_visits:
  assumes ok: "searchable ev t rows ps rs" and cs: "\<forall>c\<in>set cs. component_ok ev c" and w: "plan_made ev t cs w"
    and st: "walkType w = WALK_HASH_EQ \<Longrightarrow> winList w = []"
  shows "\<exists>vs. visits ev t rows cs w vs \<and> (\<forall>s. perform_walk ev t w step s = Some (run_rows step vs s))"
proof (cases "walkType w")
  case WALK_DEFAULT
  note S = searchableD [OF ok]
  have "visits ev t rows cs w rows" using WALK_DEFAULT w S(3) by (simp add: visits_def plan_made_def)
  moreover have "perform_walk ev t w step s = Some (run_rows step rows s)" for s
    using list_foreach_list [OF S(2)] WALK_DEFAULT by (simp add: perform_walk_def)
  ultimately show ?thesis by blast
next
  case WALK_SKIP
  then obtain i where i: "i < length cs" "walready w = Some i" "skip_plan ev t (cs ! i) w" using w by (auto simp: plan_made_def)
  then have "component_ok ev (cs ! i)" using cs by simp
  then show ?thesis by (rule skip_visits [OF ok _ i(3) WALK_SKIP i(2) refl])
next
  case WALK_HASH_EQ
  then obtain i where i: "i < length cs" "walready w = Some i" "comparisonType (cs ! i) = COMP_EQ" "is_key ev (cs ! i)"
      "wkey w = Some (row_key ev (row1 (cs ! i)))" using w by (auto simp: plan_made_def)
  have "component_ok ev (cs ! i)" using cs i(1) by simp
  then have "satisfies ev (cs ! i) r \<longleftrightarrow> row_key ev r \<in> set [row_key ev (row1 (cs ! i))]" for r
    using component_okD(3) i(3, 4) by (simp add: satisfies_def component_holds_def Let_def)
  then show ?thesis
    by (intro hash_visits [OF ok _ _ _ _ i(2), where ks = "[row_key ev (row1 (cs ! i))]"]) (simp_all add: i(5) WALK_HASH_EQ st)
next
  case WALK_HASH_IN
  then obtain i where i: "i < length cs" "walready w = Some i" "comparisonType (cs ! i) = COMP_IN" "is_key ev (cs ! i)"
      "wkey w = None" "winList w = inListObj (cs ! i)" using w by (auto simp: plan_made_def)
  let ?c = "cs ! i"
  let ?cmp = "field_cmp ev (fieldID ?c)"
  have "component_ok ev ?c" using cs i(1) by simp
  then obtain ins where ins: "ctable_CreateInRows ev ?c = Some ins" "distinct_keys ?cmp ins"
      "list_all2 (\<lambda>k i. \<forall>r. ?cmp r i = 0 \<longleftrightarrow> row_key ev r = k) (inListObj ?c) ins"
    using component_okD(4) i(3, 4) by blast
  have "satisfies ev ?c r \<longleftrightarrow> (\<exists>j\<in>set ins. ?cmp r j = 0)" for r
    using i(3) ins(1) by (simp add: satisfies_def component_holds_def Let_def list_ex_iff)
  also have "(\<exists>j\<in>set ins. ?cmp r j = 0) \<longleftrightarrow> row_key ev r \<in> set (inListObj ?c)" for r
    using ins(3) by (induction rule: list_all2_induct) auto
  finally have sat: "satisfies ev ?c r \<longleftrightarrow> row_key ev r \<in> set (inListObj ?c)" for r .
  have rc: "row_comparator ?cmp" using searchableD(1) [OF ok] .
  have "distinct (inListObj ?c)"
    using ins(3, 2)
  proof (induction rule: list_all2_induct)
    case (Cons k ks j js)
    have "k \<notin> set ks"
    proof
      assume "k \<in> set ks"
      then obtain j' where j': "j' \<in> set js" "\<forall>r. ?cmp r j' = 0 \<longleftrightarrow> row_key ev r = k"
        using list_all2_ex [OF Cons.hyps(2)] by blast
      then have "row_key ev j' = k" using comparator.le_refl [OF row_comparator.axioms [OF rc]] by blast
      then have "?cmp j' j = 0" using Cons.hyps(1) by blast
      then show False using Cons.prems j'(1) by (auto simp: distinct_keys_def)
    qed
    then show ?case using Cons by (simp add: distinct_keys_def)
  qed simp
  then show ?thesis
    by (rule hash_visits [OF ok _ _ _ _ i(2) sat]) (simp_all add: i(5, 6) WALK_HASH_IN)
qed

end
