(* ===== verification/SearchCorrect.thy ===== *)
theory SearchCorrect
  imports SearchWalk
begin

text \<open>
  What a search does to the rows that match: the run over the rows a walk visits, the actions after it,
  and the whole of \<^verbatim>\<open>ctable_PerformSearch\<close>.
\<close>

section \<open>The rows that match\<close>

text \<open>
  The Tcl code of a search that lets it run to its end: filters answer \<^verbatim>\<open>TCL_OK\<close> or \<^verbatim>\<open>TCL_CONTINUE\<close>, and
  so do the actions.
\<close>

definition runs_on :: "search_env \<Rightarrow> search \<Rightarrow> bool" where
  "runs_on ev s \<longleftrightarrow> (\<forall>f\<in>set (filters s). \<forall>row. goes_on (f row)) \<and> (\<forall>c\<in>set (components s). component_ok ev c)
     \<and> (\<forall>as row. goes_on (row_action ev as row))"

definition pre_match :: "search_env \<Rightarrow> search \<Rightarrow> addr \<Rightarrow> bool" where
  "pre_match ev s row \<longleftrightarrow> (case pattern s of None \<Rightarrow> True | Some p \<Rightarrow> key_matches ev p row) \<and> (\<forall>f\<in>set (filters s). f row = TCL_OK)"

definition row_matches :: "search_env \<Rightarrow> search \<Rightarrow> addr \<Rightarrow> bool" where
  "row_matches ev s row \<longleftrightarrow> pre_match ev s row \<and> (\<forall>c\<in>set (components s). satisfies ev c row)"

definition still_matches :: "search_env \<Rightarrow> search \<Rightarrow> addr \<Rightarrow> bool" where
  "still_matches ev s row \<longleftrightarrow> pre_match ev s row
     \<and> (\<forall>i<length (components s). alreadySearched s \<noteq> Some i \<longrightarrow> satisfies ev (components s ! i) row)"

lemma search_compare_result:
  "\<forall>c\<in>set cs. component_ok ev c \<Longrightarrow> search_compare ev al i cs row =
     (if \<forall>j<length cs. al \<noteq> Some (i + j) \<longrightarrow> satisfies ev (cs ! j) row then TCL_OK else TCL_CONTINUE)"
proof (induction cs arbitrary: i)
  case (Cons c cs)
  have "comparisonType c = COMP_IN \<Longrightarrow> ctable_CreateInRows ev c \<noteq> None"
    using component_okD(4) [of ev c] Cons.prems by auto
  then have "search_compare ev al i (c # cs) row =
      (if al = Some i \<or> satisfies ev c row then search_compare ev al (Suc i) cs row else TCL_CONTINUE)"
    by (auto simp: satisfies_def)
  then show ?case using Cons.IH [of "Suc i"] Cons.prems by (simp add: All_less_Suc2 del: search_compare.simps) blast
qed simp

lemma run_filters_result:
  "\<forall>f\<in>set fs. goes_on (f row) \<Longrightarrow> run_filters fs row = (if \<forall>f\<in>set fs. f row = TCL_OK then TCL_OK else TCL_CONTINUE)"
  by (induction fs) auto

text \<open>One step of a search that runs on.\<close>

definition act :: "search \<Rightarrow> addr \<Rightarrow> addr list" where
  "act s row = (if action s = ACTION_NONE then [] else [row])"

lemma poll_next: "poll s = s\<lparr>nextPoll := nextPoll (poll s)\<rparr>"
  by (simp add: poll_def Let_def)

lemma matches_update [simp]:
  "still_matches ev (s\<lparr>nextPoll := n\<rparr>) = still_matches ev s" "still_matches ev (s\<lparr>matchCount := k\<rparr>) = still_matches ev s"
  "still_matches ev (s\<lparr>tranTable := tt\<rparr>) = still_matches ev s" "still_matches ev (s\<lparr>acted := as\<rparr>) = still_matches ev s"
  "runs_on ev (s\<lparr>nextPoll := n\<rparr>) = runs_on ev s" "runs_on ev (s\<lparr>matchCount := k\<rparr>) = runs_on ev s"
  "runs_on ev (s\<lparr>tranTable := tt\<rparr>) = runs_on ev s" "runs_on ev (s\<lparr>acted := as\<rparr>) = runs_on ev s"
  by (simp_all add: runs_on_def still_matches_def pre_match_def fun_eq_iff)

lemma compare_row_poll:
  assumes "runs_on ev s"
  shows "ctable_SearchCompareRow ev row s =
    (if \<not> still_matches ev s row then Inr (TCL_CONTINUE, s\<lparr>nextPoll := nextPoll (poll s)\<rparr>)
     else case note_match ev (s\<lparr>nextPoll := nextPoll (poll s)\<rparr>) row of
       Inl e \<Rightarrow> Inl e
     | Inr s1 \<Rightarrow>
         if tranTable s1 \<noteq> None \<and> bufferResults s1 = BUFFER_DEFER \<or> matchCount s1 \<le> offset s1 then Inr (TCL_CONTINUE, s1)
         else Inr (if limit_met s1 then TCL_BREAK else TCL_CONTINUE, s1\<lparr>acted := acted s1 @ act s1 row\<rparr>))"
proof -
  obtain n where n: "poll s = s\<lparr>nextPoll := n\<rparr>" using poll_next by blast
  let ?s = "s\<lparr>nextPoll := n\<rparr>"
  have f: "run_filters (filters s) row = (if \<forall>f\<in>set (filters s). f row = TCL_OK then TCL_OK else TCL_CONTINUE)"
    using assms by (intro run_filters_result) (simp add: runs_on_def)
  have c: "search_compare ev (alreadySearched s) 0 (components s) row =
      (if \<forall>j<length (components s). alreadySearched s \<noteq> Some j \<longrightarrow> satisfies ev (components s ! j) row then TCL_OK else TCL_CONTINUE)"
    using search_compare_result [of "components s" ev "alreadySearched s" 0 row] assms by (simp add: runs_on_def)
  have a: "goes_on (row_action ev as row)" for as using assms by (simp add: runs_on_def)
  have inner: "(let (a, s2) = call_action ev s1 row in if a = TCL_ERROR then Inr (TCL_ERROR, s2)
      else if goes_on a then Inr (if limit_met s2 then TCL_BREAK else TCL_CONTINUE, s2) else Inr (a, s2))
      = (Inr (if limit_met s1 then TCL_BREAK else TCL_CONTINUE, s1\<lparr>acted := acted s1 @ [row]\<rparr>) :: search walk_result)" for s1
    using a [of "acted s1"] by (auto simp: call_action_def limit_met_def)
  show ?thesis
  proof (cases "still_matches ev s row")
    case False
    then consider "\<not> (case pattern s of None \<Rightarrow> True | Some p \<Rightarrow> key_matches ev p row)"
      | "case pattern s of None \<Rightarrow> True | Some p \<Rightarrow> key_matches ev p row" "run_filters (filters s) row = TCL_CONTINUE"
      | "case pattern s of None \<Rightarrow> True | Some p \<Rightarrow> key_matches ev p row" "run_filters (filters s) row = TCL_OK"
        "search_compare ev (alreadySearched s) 0 (components s) row = TCL_CONTINUE"
      using f c unfolding still_matches_def pre_match_def by (metis (no_types))
    then show ?thesis
      unfolding ctable_SearchCompareRow_def Let_def n
      by cases (use False in \<open>simp_all split: option.splits\<close>)
  next
    case True
    then have m: "\<not> (case pattern s of None \<Rightarrow> False | Some p \<Rightarrow> \<not> key_matches ev p row)" "run_filters (filters s) row = TCL_OK"
        "search_compare ev (alreadySearched s) 0 (components s) row = TCL_OK"
      using f c by (auto simp: still_matches_def pre_match_def split: option.splits)
    have "ctable_SearchCompareRow ev row s = (case note_match ev ?s row of
       Inl e \<Rightarrow> Inl e
     | Inr s1 \<Rightarrow>
         if tranTable s1 \<noteq> None \<and> bufferResults s1 = BUFFER_DEFER then Inr (TCL_CONTINUE, s1)
         else if matchCount s1 \<le> offset s1 then Inr (TCL_CONTINUE, s1)
         else if action s1 = ACTION_NONE then Inr (if limit_met s1 then TCL_BREAK else TCL_CONTINUE, s1)
         else Inr (if limit_met s1 then TCL_BREAK else TCL_CONTINUE, s1\<lparr>acted := acted s1 @ [row]\<rparr>))"
      using m unfolding ctable_SearchCompareRow_def n by (simp only: Let_def [of "s\<lparr>nextPoll := n\<rparr>"] inner if_False) simp
    then show ?thesis using True n by (auto simp: act_def split: sum.splits)
  qed
qed

section \<open>The run over the rows of a walk\<close>

definition deferred :: "search \<Rightarrow> bool" where
  "deferred s \<longleftrightarrow> tranTable s \<noteq> None \<and> bufferResults s = BUFFER_DEFER"

text \<open>The matching rows a run takes until the limit is met, and the state it leaves.\<close>

definition taken :: "search \<Rightarrow> addr list \<Rightarrow> addr list" where
  "taken s ms = (if deferred s \<or> limit s = 0 then ms else take (nat (offsetLimit s - matchCount s)) ms)"

definition after_run :: "search \<Rightarrow> int \<Rightarrow> addr list \<Rightarrow> search" where
  "after_run s np ms = s\<lparr>nextPoll := np, matchCount := matchCount s + int (length ms),
     tranTable := map_option (\<lambda>tt. tt @ ms) (tranTable s),
     acted := acted s @ (if deferred s \<or> action s = ACTION_NONE then [] else drop (nat (offset s - matchCount s)) ms)\<rparr>"

definition run_well :: "search_env \<Rightarrow> search \<Rightarrow> nat \<Rightarrow> bool" where
  "run_well ev s n \<longleftrightarrow> 0 \<le> offset s \<and> 0 \<le> limit s \<and> offsetLimit s = offset s + limit s \<and> 0 \<le> matchCount s
     \<and> (deferred s \<or> limit s = 0 \<or> matchCount s < offsetLimit s)
     \<and> (\<forall>tt. tranTable s = Some tt \<longrightarrow> matchCount s = int (length tt) \<and> length tt + n \<le> tranRoom s \<and> tranRoom s = count ev)"

text \<open>The state after a matching row was noted and perhaps acted on.\<close>

definition matched :: "search \<Rightarrow> int \<Rightarrow> addr \<Rightarrow> search" where
  "matched s np row = s\<lparr>nextPoll := np, matchCount := matchCount s + 1, tranTable := map_option (\<lambda>tt. tt @ [row]) (tranTable s),
     acted := acted s @ (if deferred s \<or> matchCount s + 1 \<le> offset s then [] else act s row)\<rparr>"

lemma matched_simps [simp]:
  "runs_on ev (matched s np row) = runs_on ev s" "still_matches ev (matched s np row) = still_matches ev s"
  "deferred (matched s np row) = deferred s" "limit (matched s np row) = limit s" "offset (matched s np row) = offset s"
  "offsetLimit (matched s np row) = offsetLimit s" "matchCount (matched s np row) = matchCount s + 1"
  by (simp_all add: matched_def deferred_def)

lemma step_matching:
  assumes "runs_on ev s" "still_matches ev s row" "run_well ev s (Suc n)"
  shows "ctable_SearchCompareRow ev row s = Inr (if \<not> deferred s \<and> limit s \<noteq> 0 \<and> matchCount s + 1 \<ge> offsetLimit s
      then TCL_BREAK else TCL_CONTINUE, matched s (nextPoll (poll s)) row)"
proof -
  let ?s = "s\<lparr>nextPoll := nextPoll (poll s)\<rparr>"
  let ?s1 = "?s\<lparr>tranTable := map_option (\<lambda>tt. tt @ [row]) (tranTable s), matchCount := matchCount s + 1\<rparr>"
  have nm: "note_match ev ?s row = Inr ?s1"
    using assms(3) by (cases "tranTable s") (auto simp: note_match_def run_well_def)
  have lim: "limit s = 0 \<or> offset s < offsetLimit s" "0 \<le> limit s" using assms(3) by (auto simp: run_well_def)
  show ?thesis
    unfolding compare_row_poll [OF assms(1)] nm
    using assms(2) lim by (auto simp: deferred_def limit_met_def matched_def act_def)
qed

lemma matched_well: "run_well ev s (Suc n) \<Longrightarrow> deferred s \<or> limit s = 0 \<or> matchCount s + 1 < offsetLimit s \<Longrightarrow> run_well ev (matched s np row) n"
  by (auto simp: run_well_def) (auto simp: matched_def)

lemma after_matched:
  assumes "0 \<le> matchCount s"
  shows "after_run (matched s mp row) np ms = after_run s np (row # ms)"
proof -
  have ac: "(if deferred s \<or> matchCount s + 1 \<le> offset s then [] else act s row)
      @ (if deferred s \<or> action s = ACTION_NONE then [] else drop (nat (offset s - (matchCount s + 1))) ms)
    = (if deferred s \<or> action s = ACTION_NONE then [] else drop (nat (offset s - matchCount s)) (row # ms))"
  proof (cases "matchCount s + 1 \<le> offset s")
    case True
    then have "nat (offset s - matchCount s) = Suc (nat (offset s - (matchCount s + 1)))" by simp
    then show ?thesis using True by simp
  next
    case False
    then show ?thesis by (simp add: act_def)
  qed
  show ?thesis
    unfolding after_run_def matched_simps using ac
    by (cases "tranTable s") (simp_all add: matched_def)
qed

lemma run_matching:
  "\<lbrakk>runs_on ev s; run_well ev s (length vs)\<rbrakk> \<Longrightarrow> \<exists>np. \<exists>r\<in>{TCL_CONTINUE, TCL_BREAK}.
    run_rows (ctable_SearchCompareRow ev) vs s = Inr (r, after_run s np (taken s (filter (still_matches ev s) vs)))"
proof (induction vs arbitrary: s)
  case Nil
  have "after_run s (nextPoll s) (taken s []) = s"
    by (cases s; cases "tranTable s") (simp_all add: after_run_def taken_def deferred_def)
  then show ?case by (intro exI [of _ "nextPoll s"] bexI [of _ TCL_CONTINUE]) simp_all
next
  case (Cons row vs)
  have mc: "0 \<le> matchCount s" using Cons.prems(2) by (simp add: run_well_def)
  show ?case
  proof (cases "still_matches ev s row")
    case False
    let ?s = "s\<lparr>nextPoll := nextPoll (poll s)\<rparr>"
    have "run_well ev ?s (length vs)" using Cons.prems(2) by (auto simp: run_well_def deferred_def)
    then obtain np r where "r \<in> {TCL_CONTINUE, TCL_BREAK}"
        "run_rows (ctable_SearchCompareRow ev) vs ?s = Inr (r, after_run ?s np (taken ?s (filter (still_matches ev ?s) vs)))"
      using Cons.IH [of ?s] Cons.prems(1) by auto
    moreover have "after_run ?s np ms = after_run s np ms" "taken ?s ms = taken s ms" for np ms
      by (cases "tranTable s"; simp add: after_run_def taken_def deferred_def)+
    ultimately show ?thesis using compare_row_poll [OF Cons.prems(1)] False by auto
  next
    case True
    let ?s = "matched s (nextPoll (poll s)) row"
    note step = step_matching [OF Cons.prems(1) True, of "length vs"]
    let ?ms = "filter (still_matches ev s) vs"
    show ?thesis
    proof (cases "\<not> deferred s \<and> limit s \<noteq> 0 \<and> matchCount s + 1 \<ge> offsetLimit s")
      case stop: True
      then have "nat (offsetLimit s - matchCount s) = 1" using Cons.prems(2) by (auto simp: run_well_def)
      then have "taken s (row # ?ms) = [row]" using stop by (simp add: taken_def)
      moreover have "after_run ?s (nextPoll ?s) [] = ?s"
        by (cases ?s; cases "tranTable ?s") (simp_all add: after_run_def)
      then have "?s = after_run s (nextPoll ?s) [row]" using after_matched [OF mc] by metis
      ultimately show ?thesis using step Cons.prems(2) stop True by auto
    next
      case go: False
      have "run_well ev ?s (length vs)" by (rule matched_well) (use Cons.prems(2) go in auto)
      then obtain np r where r: "r \<in> {TCL_CONTINUE, TCL_BREAK}"
          "run_rows (ctable_SearchCompareRow ev) vs ?s = Inr (r, after_run ?s np (taken ?s ?ms))"
        using Cons.IH [of ?s] Cons.prems(1) by auto
      have "taken s (row # ?ms) = row # taken ?s ?ms"
      proof (cases "deferred s \<or> limit s = 0")
        case False
        then have "nat (offsetLimit s - matchCount s) = Suc (nat (offsetLimit s - (matchCount s + 1)))" using go by simp
        then show ?thesis using False by (simp add: taken_def)
      qed (auto simp: taken_def)
      then have "after_run ?s np (taken ?s ?ms) = after_run s np (taken s (row # ?ms))" using after_matched [OF mc] by simp
      then show ?thesis using step Cons.prems(2) go True r by auto
    qed
  qed
qed

section \<open>The actions after the walk\<close>

lemma tran_row_at: "tranTable s = Some tt \<Longrightarrow> 0 \<le> i \<Longrightarrow> i < int (length tt) \<Longrightarrow> tran_row s i = Inr (tt ! nat i)"
  by (simp add: tran_row_def)

lemma take_Suc_drop: "i < length xs \<Longrightarrow> take (Suc n) (drop i xs) = xs ! i # take n (drop (Suc i) xs)"
  by (metis Cons_nth_drop_Suc take_Suc_Cons)

lemma deferred_loop_acts:
  assumes "\<forall>as row. goes_on (row_action ev as row)"
  shows "tranTable s = Some tt \<Longrightarrow> i + n \<le> length tt \<Longrightarrow>
    \<exists>np. deferred_loop ev n (int i) s = Inr (TCL_OK, s\<lparr>nextPoll := np, acted := acted s @ take n (drop i tt)\<rparr>)"
proof (induction n arbitrary: i s)
  case 0
  then show ?case by (intro exI [of _ "nextPoll s"]) simp
next
  case (Suc n)
  let ?s = "s\<lparr>nextPoll := nextPoll (poll s), acted := acted s @ [tt ! i]\<rparr>"
  have i: "i < length tt" "int i + 1 = int (Suc i)" using Suc.prems(2) by simp_all
  have "call_action ev (poll s) (tt ! i) = (row_action ev (acted s) (tt ! i), ?s)"
    unfolding call_action_def by (subst (1 2 3) poll_next) simp
  moreover obtain np where "deferred_loop ev n (int (Suc i)) ?s = Inr (TCL_OK, ?s\<lparr>nextPoll := np, acted := acted ?s @ take n (drop (Suc i) tt)\<rparr>)"
    using Suc.IH [of ?s "Suc i"] Suc.prems by auto
  ultimately show ?case
    using assms tran_row_at [OF Suc.prems(1), of "int i"] i take_Suc_drop [OF i(1), of n]
    by (intro exI [of _ np]) (simp add: i(2))
qed

lemma delete_loop_rows:
  "tranTable s = Some tt \<Longrightarrow> i + n \<le> length tt \<Longrightarrow> delete_loop n (int i) s = Inr (s\<lparr>deleted := deleted s @ take n (drop i tt)\<rparr>)"
proof (induction n arbitrary: i s)
  case (Suc n)
  have i: "i < length tt" "int i + 1 = int (Suc i)" using Suc.prems(2) by simp_all
  show ?case
    using Suc.IH [of "s\<lparr>deleted := deleted s @ [tt ! i]\<rparr>" "Suc i"] Suc.prems tran_row_at [OF Suc.prems(1), of "int i"] i take_Suc_drop [OF i(1), of n]
    by (simp add: i(2))
qed simp

lemma set_fields_all:
  "\<forall>f v. set_field ev row f v \<Longrightarrow> set_fields ev row fvs s = (True, s\<lparr>updated := updated s @ map (\<lambda>(f, v). (row, f, v)) fvs\<rparr>)"
  by (induction fvs arbitrary: s) (auto simp: Let_def)

lemma update_loop_rows:
  assumes "\<forall>row f v. set_field ev row f v"
  shows "tranTable s = Some tt \<Longrightarrow> i + n \<le> length tt \<Longrightarrow> update_loop ev fvs n (int i) s =
    Inr (TCL_OK, s\<lparr>updated := updated s @ concat (map (\<lambda>row. map (\<lambda>(f, v). (row, f, v)) fvs) (take n (drop i tt)))\<rparr>)"
proof (induction n arbitrary: i s)
  case (Suc n)
  have i: "i < length tt" "int i + 1 = int (Suc i)" using Suc.prems(2) by simp_all
  show ?case
    using Suc.IH [of "s\<lparr>updated := updated s @ map (\<lambda>(f, v). (tt ! i, f, v)) fvs\<rparr>" "Suc i"] Suc.prems
      tran_row_at [OF Suc.prems(1), of "int i"] i take_Suc_drop [OF i(1), of n] set_fields_all [of ev "tt ! i"] assms
    by (simp add: i(2))
qed simp

text \<open>The fields and values of \<^verbatim>\<open>-update\<close>, and what the transaction of a search does to the rows of its window.\<close>

definition update_fields :: "search_env \<Rightarrow> search \<Rightarrow> (nat \<times> string) list option" where
  "update_fields ev s = (case tranData s of
     None \<Rightarrow> None
   | Some objv \<Rightarrow> if odd (length objv) then None
       else map_option (\<lambda>fnos. zip fnos (map snd (pairs objv))) (those (map (\<lambda>(f, v). field_number ev f) (pairs objv))))"

definition update_ok :: "search_env \<Rightarrow> search \<Rightarrow> bool" where
  "update_ok ev s \<longleftrightarrow> (tranType s = TRAN_UPDATE \<longrightarrow> update_fields ev s \<noteq> None \<and> (\<forall>row f v. set_field ev row f v))"

definition transacted :: "search_env \<Rightarrow> addr list \<Rightarrow> search \<Rightarrow> search" where
  "transacted ev rows s = s\<lparr>deleted := deleted s @ (if tranType s = TRAN_DELETE then rows else []),
     updated := updated s @ (if tranType s = TRAN_UPDATE
       then concat (map (\<lambda>row. map (\<lambda>(f, v). (row, f, v)) (the (update_fields ev s))) rows) else [])\<rparr>"

lemma perform_transaction:
  assumes "update_ok ev s" "tranTable s = Some tt" "0 \<le> offset s" "offsetLimit s \<le> int (length tt)" "offset s \<le> int (length tt)"
  shows "ctable_PerformTransaction ev s =
    Inr (TCL_OK, transacted ev (take (nat (offsetLimit s - offset s)) (drop (nat (offset s)) tt)) s)"
proof -
  obtain i where i: "offset s = int i" using assms(3) nonneg_int_cases by blast
  then have len: "i + nat (offsetLimit s - offset s) \<le> length tt" using assms(4, 5) by linarith
  show ?thesis
  proof (cases "tranType s")
    case TRAN_DELETE
    then show ?thesis
      using delete_loop_rows [OF assms(2) len] i by (simp add: ctable_PerformTransaction_def transacted_def Let_def)
  next
    case TRAN_UPDATE
    then obtain objv fnos where u: "tranData s = Some objv" "even (length objv)"
        "those (map (\<lambda>(f, v). field_number ev f) (pairs objv)) = Some fnos" "\<forall>row f v. set_field ev row f v"
      using assms(1) by (auto simp: update_ok_def update_fields_def split: option.splits if_splits)
    then show ?thesis
      using update_loop_rows [OF u(4) assms(2) len] i TRAN_UPDATE
      by (simp add: ctable_PerformTransaction_def transacted_def update_fields_def Let_def)
  qed (simp_all add: ctable_PerformTransaction_def transacted_def)
qed

text \<open>The rows a search wants of those that match, in the order in which they come.\<close>

definition window :: "search \<Rightarrow> addr list \<Rightarrow> addr list" where
  "window s xs = (let ys = drop (nat (offset s)) xs in if limit s = 0 then ys else take (nat (limit s)) ys)"

definition ordered :: "search_env \<Rightarrow> search \<Rightarrow> addr list \<Rightarrow> addr list" where
  "ordered ev s xs = (if sortFields s = [] then xs else ctable_qsort_r (sort_compare ev (sortFields s)) 0 (length xs) xs)"

lemma ordered_mset [simp]: "mset (ordered ev s xs) = mset xs" "length (ordered ev s xs) = length xs"
proof -
  show "mset (ordered ev s xs) = mset xs"
    using exchanged_mset [OF qsort_exchanged [of 0 "length xs" xs]] by (simp add: ordered_def)
  then show "length (ordered ev s xs) = length xs" by (rule mset_eq_length)
qed

lemma ordered_sorted:
  assumes "comparator (sort_compare ev (sortFields s))" "sortFields s \<noteq> []"
  shows "sorted_wrt (\<lambda>r q. sort_compare ev (sortFields s) r q \<le> 0) (ordered ev s xs)"
  using comparator.qsort_sorted_wrt [OF assms(1), of 0 "length xs" xs] assms(2) ordered_mset(2) [of ev s xs]
  by (simp add: ordered_def)

text \<open>The search as the walk leaves it; \<open>b\<close> tells whether it keeps a transaction table.\<close>

definition walked :: "search_env \<Rightarrow> bool \<Rightarrow> addr list \<Rightarrow> search \<Rightarrow> bool" where
  "walked ev b tk s \<longleftrightarrow> matchCount s = int (length tk) \<and> tranTable s = (if b then Some tk else None)
     \<and> 0 \<le> offset s \<and> 0 \<le> limit s \<and> offsetLimit s = offset s + limit s
     \<and> (b \<and> limit s = 0 \<longrightarrow> offset s = 0) \<and> (\<not> deferred s \<and> limit s \<noteq> 0 \<longrightarrow> int (length tk) \<le> offset s + limit s)
     \<and> (\<not> b \<longrightarrow> tranType s = TRAN_NONE) \<and> update_ok ev s \<and> (\<forall>as row. goes_on (row_action ev as row))"

text \<open>The limit that the end of a search works with.\<close>

definition last_row :: "search \<Rightarrow> int" where
  "last_row s = (if offsetLimit s = 0 \<or> offsetLimit s > matchCount s then matchCount s else offsetLimit s)"

lemma window_last:
  assumes "walked ev True tk s" "length xs = length tk" "offset s \<le> matchCount s"
  shows "take (nat (last_row s - offset s)) (drop (nat (offset s)) xs) = window s xs"
    and "last_row s - offset s = int (length (window s xs))" "offset s \<le> last_row s" "last_row s \<le> matchCount s"
  using assms by (auto simp: walked_def window_def last_row_def Let_def min_def)

lemma post_search:
  assumes w: "walked ev b tk s" and t: "tranType s \<noteq> TRAN_CURSOR"
  defines "xs \<equiv> (if b then ordered ev s tk else tk)"
  shows "\<exists>s'. ctable_PostSearchCommonActions ev a s cs = Inr (TCL_OK, s', cs)
    \<and> matchCount s' = int (length (window s xs))
    \<and> acted s' = acted s @ (if deferred s then window s xs else [])
    \<and> deleted s' = deleted s @ (if tranType s = TRAN_DELETE then window s xs else [])
    \<and> updated s' = updated s @ (if tranType s = TRAN_UPDATE
         then concat (map (\<lambda>row. map (\<lambda>(f, v). (row, f, v)) (the (update_fields ev s))) (window s xs)) else [])
    \<and> cursorName s' = cursorName s \<and> search_cursor s' = search_cursor s \<and> components s' = components s"
proof -
  have W: "matchCount s = int (length tk)" "tranTable s = (if b then Some tk else None)" "0 \<le> offset s" "0 \<le> limit s"
      "\<not> b \<Longrightarrow> tranType s = TRAN_NONE" "update_ok ev s" "\<forall>as row. goes_on (row_action ev as row)"
    using w by (simp_all add: walked_def)
  have len: "length xs = length tk" by (simp add: xs_def)
  show ?thesis
  proof (cases "matchCount s = 0 \<or> offset s > matchCount s")
    case True
    then have "window s xs = []" using W(1, 3) len by (auto simp: window_def)
    then show ?thesis using True by (simp add: ctable_PostSearchCommonActions_def)
  next
    case go: False
    show ?thesis
    proof (cases b)
      case False
      then have "int (length (window s xs)) = matchCount s - offset s"
        using w go W(1, 3, 4) by (auto simp: xs_def window_def walked_def deferred_def Let_def min_def)
      then show ?thesis using False go W(2, 5) by (simp add: ctable_PostSearchCommonActions_def deferred_def)
    next
      case True
      let ?s = "s\<lparr>offsetLimit := last_row s, tranTable := Some xs\<rparr>"
      have "walked ev True tk s" using w True by simp
      note wl = window_last [OF this len]
      have le: "offset s \<le> matchCount s" using go by simp
      have d: "deferred ?s = deferred s" using True W(2) by (simp add: deferred_def)
      obtain np where acts: "(if bufferResults ?s = BUFFER_DEFER
           then (case deferred_loop ev (nat (offsetLimit ?s - offset ?s)) (offset ?s) ?s of
                   Inl e \<Rightarrow> Inl e | Inr (r, s3) \<Rightarrow> Inr (r, s3, cs))
           else Inr (TCL_OK, ?s, cs)) = (Inr (TCL_OK, ?s\<lparr>nextPoll := np, acted := acted s @ (if deferred s then window s xs else [])\<rparr>, cs)
             :: fault + tcl_code \<times> search \<times> cursor_sys)"
      proof (cases "bufferResults s = BUFFER_DEFER")
        case late: True
        obtain i where i: "offset s = int i" using W(3) nonneg_int_cases by blast
        have "i + nat (last_row s - offset s) \<le> length xs" using wl(3, 4) [OF le] W(1) len i by linarith
        then obtain np where "deferred_loop ev (nat (last_row s - offset s)) (int i) ?s
            = Inr (TCL_OK, ?s\<lparr>nextPoll := np, acted := acted ?s @ take (nat (last_row s - offset s)) (drop i xs)\<rparr>)"
          using deferred_loop_acts [OF W(7), of ?s xs i] by auto
        then show ?thesis using late that [of np] wl(1) [OF le] i True W(2) by (simp add: deferred_def)
      next
        case False
        then show ?thesis using that [of "nextPoll s"] by (simp add: deferred_def)
      qed
      let ?s4 = "?s\<lparr>nextPoll := np, acted := acted s @ (if deferred s then window s xs else []), matchCount := last_row s - offset s\<rparr>"
      have tr: "ctable_PerformTransaction ev ?s4 = Inr (TCL_OK, transacted ev (window s xs) ?s4)"
        using perform_transaction [of ev ?s4 xs] W(3, 6) wl [OF le] W(1) len le
        by (simp add: update_ok_def update_fields_def)
      have "ctable_PostSearchCommonActions ev a s cs =
          (if tranType s = TRAN_NONE then Inr (TCL_OK, ?s4, cs) else Inr (TCL_OK, transacted ev (window s xs) ?s4, cs))"
      proof -
        have tt: "tranTable s = Some tk" using W(2) True by simp
        have "limit_and_sort ev tk s = ?s"
          using True W(1) tt by (cases s) (simp add: limit_and_sort_def xs_def ordered_def last_row_def Let_def)
        moreover have "result_actions ev a ?s cs
            = Inr (TCL_OK, ?s\<lparr>nextPoll := np, acted := acted s @ (if deferred s then window s xs else [])\<rparr>, cs)"
          using t acts by (simp add: result_actions_def)
        ultimately show ?thesis
          unfolding ctable_PostSearchCommonActions_def if_not_P [OF go] tt option.case
          using t tr by (simp add: count_and_transact_def Let_def)
      qed
      then show ?thesis using wl(2) [OF le] by (auto simp: transacted_def update_fields_def)
    qed
  qed
qed

section \<open>The whole search\<close>

lemma c_int_small: "0 \<le> i \<Longrightarrow> i < 2 ^ 31 \<Longrightarrow> c_int i = i"
  unfolding c_int_def by (simp add: sint_sbintrunc' signed_take_bit_int_eq_self)

lemma begin_search_simps [simp]:
  "components (begin_search s) = components s" "filters (begin_search s) = filters s" "pattern (begin_search s) = pattern s"
  "sortFields (begin_search s) = sortFields s" "reqIndexField (begin_search s) = reqIndexField s" "limit (begin_search s) = limit s"
  "offset (begin_search s) = offset s" "action (begin_search s) = action s" "tranType (begin_search s) = tranType s"
  "tranData (begin_search s) = tranData s" "acted (begin_search s) = acted s" "deleted (begin_search s) = deleted s"
  "updated (begin_search s) = updated s" "cursorName (begin_search s) = cursorName s" "search_cursor (begin_search s) = search_cursor s"
  "has_code (begin_search s) = has_code s" "matchCount (begin_search s) = 0" "tranTable (begin_search s) = None"
  "bufferResults (begin_search s) = bufferResults s"
  by (simp_all add: begin_search_def)

lemma prepare_transactions_simps [simp]:
  fixes s :: search and ev rd
  defines "s' \<equiv> ctable_PrepareTransactions ev rd s"
  shows "components s' = components s" "filters s' = filters s" "pattern s' = pattern s" "sortFields s' = sortFields s"
  "limit s' = limit s" "offset s' = offset s" "offsetLimit s' = offsetLimit s" "action s' = action s" "tranType s' = tranType s"
  "tranData s' = tranData s" "acted s' = acted s" "deleted s' = deleted s" "updated s' = updated s" "cursorName s' = cursorName s"
  "search_cursor s' = search_cursor s" "has_code s' = has_code s" "matchCount s' = matchCount s" "alreadySearched s' = alreadySearched s"
  unfolding s'_def ctable_PrepareTransactions_def Let_def by simp_all

lemma prepare_search_simps [simp]:
  fixes s :: search and ev t w
  defines "s' \<equiv> prepare_search ev t w s"
  shows "components s' = components s" "filters s' = filters s" "pattern s' = pattern s"
  "limit s' = limit s" "offset s' = offset s" "offsetLimit s' = offsetLimit s" "action s' = action s" "tranType s' = tranType s"
  "tranData s' = tranData s" "acted s' = acted s" "deleted s' = deleted s" "updated s' = updated s" "cursorName s' = cursorName s"
  "search_cursor s' = search_cursor s" "has_code s' = has_code s" "matchCount s' = matchCount s" "alreadySearched s' = walready w"
  "sortFields s' = (if sort_eliminated w s then [] else sortFields s)"
  unfolding s'_def prepare_search_def planned_def Let_def by (simp_all add: sort_eliminated_def)

lemma prepared_simps [simp]:
  "update_fields ev (prepare_search ev' t w s) = update_fields ev s" "update_ok ev (prepare_search ev' t w s) = update_ok ev s"
  "window (prepare_search ev' t w s) = window s" "update_fields ev (begin_search s) = update_fields ev s"
  "update_ok ev (begin_search s) = update_ok ev s" "window (begin_search s) = window s"
  by (simp_all add: update_ok_def update_fields_def window_def Let_def fun_eq_iff)

text \<open>When a search keeps its rows, and when it defers what it does to them.\<close>

lemma prepare_buffer:
  fixes s :: search and ev t w
  assumes "tranTable s = None" "action s = ACTION_NONE \<longrightarrow> tranType s = TRAN_NONE"
  defines "s' \<equiv> prepare_search ev t w s"
  shows "tranTable s' \<noteq> None \<Longrightarrow> tranTable s' = Some [] \<and> tranRoom s' = count ev"
    and "tranTable s' = None \<Longrightarrow> tranType s = TRAN_NONE"
    and "\<not> deferred s' \<Longrightarrow> action s = ACTION_NONE \<or> sortFields s' = []"
    and "deferred s' \<Longrightarrow> action s \<noteq> ACTION_NONE"
    and "tranTable s' \<noteq> None \<Longrightarrow> action s \<noteq> ACTION_NONE"
    and "action s \<noteq> ACTION_CURSOR \<Longrightarrow> tranType s = TRAN_NONE \<Longrightarrow> sortFields s = [] \<Longrightarrow> \<not> share_reader t \<Longrightarrow> bufferResults s \<le> 0
      \<Longrightarrow> tranTable s' = None"
  using assms(1, 2)
  unfolding s'_def prepare_search_def planned_def ctable_PrepareTransactions_def Let_def deferred_def BUFFER_NONE_def BUFFER_DEFER_def BUFFER_PROVISIONAL_def
  by (auto split: if_splits simp: sort_eliminated_def)

text \<open>What \<^verbatim>\<open>ctable_SetupSearch\<close> makes sure of, and the limits of the numbers it takes.\<close>

definition search_ok :: "search_env \<Rightarrow> ctable \<Rightarrow> search \<Rightarrow> bool" where
  "search_ok ev t s \<longleftrightarrow> 0 \<le> offset s \<and> 0 \<le> limit s \<and> offset s + limit s < 2 ^ 31
     \<and> (action s = ACTION_NONE \<longrightarrow> tranType s = TRAN_NONE) \<and> update_ok ev s
     \<and> runs_on ev s \<and> \<not> stale_list ev t (components s)"

text \<open>A search that does not keep the rows it finds.\<close>

definition immediate :: "ctable \<Rightarrow> search \<Rightarrow> bool" where
  "immediate t s \<longleftrightarrow> action s = ACTION_NONE
     \<or> action s \<noteq> ACTION_CURSOR \<and> tranType s = TRAN_NONE \<and> sortFields s = [] \<and> \<not> share_reader t \<and> bufferResults s \<le> 0"

lemma plan_walk_made:
  assumes cs: "\<forall>c\<in>set (components s). component_ok ev c"
  obtains w where "plan_walk ev t s = Inr (True, w)" "plan_made ev t (components s) w"
    "walkType w = WALK_HASH_EQ \<and> \<not> stale_list ev t (components s) \<longrightarrow> winList w = []"
proof (cases "(if components s = [] then INDEX_NONE else reqIndexField s) \<noteq> INDEX_NONE")
  case True
  let ?ics = "try_order (reqIndexField s) (components s)"
  have ics: "\<forall>(i, c)\<in>set ?ics. i < length (components s) \<and> components s ! i = c"
    by (auto simp: try_order_def in_set_enumerate_eq)
  have np: "plan_made ev t (components s) no_plan" "wkey no_plan = None" "bestScore no_plan = 0" "walkType no_plan \<in> {WALK_DEFAULT, WALK_SKIP}"
      "winList no_plan \<noteq> [] \<longrightarrow> share_reader t \<or> (\<exists>c\<in>set (components s). comparisonType c = COMP_IN \<and> \<not> is_key ev c \<and> skipLists t (fieldID c) \<noteq> None)"
    by (simp_all add: no_plan_def plan_made_def)
  obtain w where w: "choose_walk ev t (sort_field s) ?ics no_plan = Inr (True, w)" "plan_made ev t (components s) w"
      "walkType w = WALK_HASH_EQ \<and> \<not> stale_list ev t (components s) \<longrightarrow> winList w = []"
    using choose_walk_plan [OF cs ics np] by blast
  then have "plan_walk ev t s = Inr (True, w)" using True by (auto simp: plan_walk_def split: if_splits)
  then show ?thesis using that w by blast
next
  case False
  then show ?thesis using that [of no_plan] by (auto simp: plan_walk_def plan_made_def no_plan_def split: if_splits)
qed

text \<open>On the rows a plan visits, what is left to compare decides whether a row matches.\<close>

lemma visited_matches:
  assumes "visits ev t rows (components s) w vs" "alreadySearched s' = walready w" "components s' = components s"
    "pattern s' = pattern s" "filters s' = filters s" "plan_made ev t (components s) w" "distinct rows"
  shows "filter (still_matches ev s') vs = filter (row_matches ev s) vs"
    and "mset (filter (row_matches ev s) vs) = mset (filter (row_matches ev s) rows)"
proof -
  have set: "set vs = {r \<in> set rows. case walready w of None \<Rightarrow> True | Some i \<Rightarrow> satisfies ev (components s ! i) r}" "distinct vs"
    using assms(1) by (simp_all add: visits_def)
  have lt: "i < length (components s)" if "walready w = Some i" for i
    using assms(6) that by (auto simp: plan_made_def split: walk_type.splits)
  have pm: "pre_match ev s' = pre_match ev s" using assms(4, 5) by (simp add: pre_match_def fun_eq_iff)
  have all: "(\<forall>c\<in>set (components s). satisfies ev c r) \<longleftrightarrow> (\<forall>i<length (components s). satisfies ev (components s ! i) r)" for r
    by (metis in_set_conv_nth)
  show "filter (still_matches ev s') vs = filter (row_matches ev s) vs"
  proof (rule filter_cong [OF refl])
    fix r assume "r \<in> set vs"
    then have "\<forall>i. walready w = Some i \<longrightarrow> satisfies ev (components s ! i) r" using set(1) by auto
    then show "still_matches ev s' r \<longleftrightarrow> row_matches ev s r"
      using assms(2, 3) pm all by (auto simp: still_matches_def row_matches_def)
  qed
  have "set (filter (row_matches ev s) vs) = set (filter (row_matches ev s) rows)"
    using set(1) lt all by (auto simp: row_matches_def split: option.splits)
  then show "mset (filter (row_matches ev s) vs) = mset (filter (row_matches ev s) rows)"
    using set_eq_iff_mset_eq_distinct [OF distinct_filter [OF set(2)] distinct_filter [OF assms(7)]] by blast
qed

text \<open>
  The walk of a prepared search: it ends in a state where the rows taken are noted, counted and, when
  the search does not wait, acted on.
\<close>

lemma search_walk:
  assumes ok: "searchable ev t rows ps rs" and s0: "search_ok ev t s0"
  obtains w ms np r tk sp where "plan_walk ev t (begin_search s0) = Inr (True, w)" "sp = prepare_search ev t w (begin_search s0)"
    "mset ms = mset (filter (row_matches ev s0) rows)" "r \<in> {TCL_CONTINUE, TCL_BREAK}"
    "tk = (if deferred sp \<or> limit s0 = 0 then ms else take (nat (offset s0 + limit s0)) ms)"
    "perform_walk ev t w (ctable_SearchCompareRow ev) sp = Some (Inr (r, after_run sp np tk))"
    "sort_eliminated w s0 \<longrightarrow> sorted_wrt (\<lambda>r q. field_cmp ev (skipField w) r q \<le> 0) ms"
proof -
  let ?s = "begin_search s0"
  note S = searchableD [OF ok]
  have r0: "runs_on ev ?s" "\<not> stale_list ev t (components ?s)" using s0 by (simp_all add: search_ok_def runs_on_def)
  have cs: "\<forall>c\<in>set (components ?s). component_ok ev c" using r0(1) by (simp add: runs_on_def)
  obtain w where w: "plan_walk ev t ?s = Inr (True, w)" "plan_made ev t (components ?s) w" "walkType w = WALK_HASH_EQ \<longrightarrow> winList w = []"
    using plan_walk_made [OF cs, of t] r0(2) by blast
  let ?sp = "prepare_search ev t w ?s"
  obtain vs where vs: "visits ev t rows (components ?s) w vs"
      "\<forall>s. perform_walk ev t w (ctable_SearchCompareRow ev) s = Some (run_rows (ctable_SearchCompareRow ev) vs s)"
    using walk_visits [OF ok cs w(2)] w(3) by blast
  have ev0: "row_matches ev ?s = row_matches ev s0" by (simp add: row_matches_def pre_match_def fun_eq_iff)
  let ?ms = "filter (row_matches ev s0) vs"
  have ms: "filter (still_matches ev ?sp) vs = ?ms" "mset ?ms = mset (filter (row_matches ev s0) rows)"
    using visited_matches [OF vs(1), of ?sp] w(2) S(3) by (simp_all add: ev0)
  have "set vs \<subseteq> set rows" "distinct vs" using vs(1) by (auto simp: visits_def)
  then have len: "length vs \<le> count ev" using S(5) distinct_subset_length by simp
  have ol: "offsetLimit ?sp = offset s0 + limit s0" using s0 c_int_small by (simp add: search_ok_def begin_search_def)
  have "runs_on ev ?sp" using r0(1) by (simp add: runs_on_def)
  moreover have "run_well ev ?sp (length vs)"
    using s0 ol len prepare_buffer(1) [of ?s ev t w] by (auto simp: run_well_def search_ok_def)
  ultimately obtain np r where r: "r \<in> {TCL_CONTINUE, TCL_BREAK}"
      "run_rows (ctable_SearchCompareRow ev) vs ?sp = Inr (r, after_run ?sp np (taken ?sp ?ms))"
    using run_matching [of ev ?sp vs] unfolding ms(1) by blast
  have tk: "taken ?sp ?ms = (if deferred ?sp \<or> limit s0 = 0 then ?ms else take (nat (offset s0 + limit s0)) ?ms)"
    using ol by (simp add: taken_def)
  have "sorted_wrt (\<lambda>r q. field_cmp ev (skipField w) r q \<le> 0) ?ms" if "sort_eliminated w s0"
  proof (cases "walkType w")
    case WALK_SKIP
    then show ?thesis using that vs(1) by (auto simp: visits_def sort_eliminated_def intro: sorted_wrt_filter)
  next
    case WALK_HASH_EQ
    then have "length vs \<le> 1" using vs(1) by (simp add: visits_def)
    then have "length ?ms \<le> 1" by (rule le_trans [OF length_filter_le])
    then show ?thesis by (cases ?ms) auto
  qed (use that w(2) in \<open>auto simp: sort_eliminated_def plan_made_def\<close>)
  then show ?thesis using that [OF w(1) refl ms(2) r(1) tk] vs(2) r(2) by auto
qed

lemma after_run_simps [simp]:
  "deferred (after_run s np tk) = deferred s" "limit (after_run s np tk) = limit s" "offset (after_run s np tk) = offset s"
  "offsetLimit (after_run s np tk) = offsetLimit s" "tranType (after_run s np tk) = tranType s" "sortFields (after_run s np tk) = sortFields s"
  "update_ok ev (after_run s np tk) = update_ok ev s" "update_fields ev (after_run s np tk) = update_fields ev s"
  "window (after_run s np tk) = window s" "ordered ev (after_run s np tk) = ordered ev s"
  "cursorName (after_run s np tk) = cursorName s" "search_cursor (after_run s np tk) = search_cursor s"
  "deleted (after_run s np tk) = deleted s" "updated (after_run s np tk) = updated s" "components (after_run s np tk) = components s"
  by (simp_all add: after_run_def deferred_def update_ok_def update_fields_def window_def ordered_def Let_def fun_eq_iff)

lemma searchField_simps [simp]:
  "deferred (s\<lparr>searchField := f\<rparr>) = deferred s" "update_ok ev (s\<lparr>searchField := f\<rparr>) = update_ok ev s"
  "update_fields ev (s\<lparr>searchField := f\<rparr>) = update_fields ev s" "window (s\<lparr>searchField := f\<rparr>) = window s"
  "ordered ev (s\<lparr>searchField := f\<rparr>) = ordered ev s"
  by (simp_all add: deferred_def update_ok_def update_fields_def window_def ordered_def Let_def fun_eq_iff)

lemma perform_search_walked:
  assumes "count ev \<noteq> 0" "plan_walk ev t (begin_search s0) = Inr (True, w)"
    "perform_walk ev t w (ctable_SearchCompareRow ev) (prepare_search ev t w (begin_search s0)) = Some (Inr (r, s1))"
    "r \<in> {TCL_CONTINUE, TCL_BREAK}" "ctable_PostSearchCommonActions ev a (s1\<lparr>searchField := - 1\<rparr>) cs = Inr (TCL_OK, s2, cs2)"
  shows "ctable_PerformSearch ev t a s0 cs = map_option Inr (clean_and_return a TCL_OK s2 cs2)"
  using assms by (auto simp: ctable_PerformSearch_def)

text \<open>The main lemma, which also serves the setup of searches; its statement is that of the theorem below.\<close>

lemma search_finds:
  assumes "searchable ev t rows ps rs" and "search_ok ev t s0" and "action s0 \<noteq> ACTION_CURSOR" "tranType s0 \<noteq> TRAN_CURSOR"
    and "cursorName s0 = None" "search_cursor s0 = None"
    and "limit s0 = 0 \<Longrightarrow> offset s0 = 0 \<or> immediate t s0" and "comparator (sort_compare ev (sortFields s0))"
  shows "\<exists>w xs s'. plan_walk ev t (begin_search s0) = Inr (True, w)
    \<and> mset xs = mset (filter (row_matches ev s0) rows)
    \<and> (sortFields s0 = [] \<or> action s0 = ACTION_NONE
        \<or> sorted_wrt (if sort_eliminated w s0 then (\<lambda>r q. field_cmp ev (skipField w) r q \<le> 0)
            else (\<lambda>r q. sort_compare ev (sortFields s0) r q \<le> 0)) xs)
    \<and> ctable_PerformSearch ev t a s0 cs = Some (Inr (TCL_OK, Reply_Count (int (length (window s0 xs))), s', cs))
    \<and> acted s' = acted s0 @ (if action s0 = ACTION_NONE then [] else window s0 xs)
    \<and> deleted s' = deleted s0 @ (if tranType s0 = TRAN_DELETE then window s0 xs else [])
    \<and> updated s' = updated s0 @ (if tranType s0 = TRAN_UPDATE
         then concat (map (\<lambda>row. map (\<lambda>(f, v). (row, f, v)) (the (update_fields ev s0))) (window s0 xs)) else [])
    \<and> components s' = components s0"
proof -
  let ?s = "begin_search s0"
  obtain w ms np r tk sp where w: "plan_walk ev t ?s = Inr (True, w)" and sp: "sp = prepare_search ev t w ?s"
      and ms: "mset ms = mset (filter (row_matches ev s0) rows)" and r: "r \<in> {TCL_CONTINUE, TCL_BREAK}"
      and tk: "tk = (if deferred sp \<or> limit s0 = 0 then ms else take (nat (offset s0 + limit s0)) ms)"
      and walk: "perform_walk ev t w (ctable_SearchCompareRow ev) sp = Some (Inr (r, after_run sp np tk))"
      and elim: "sort_eliminated w s0 \<longrightarrow> sorted_wrt (\<lambda>r q. field_cmp ev (skipField w) r q \<le> 0) ms"
    by (rule search_walk [OF assms(1, 2)])
  let ?b = "tranTable sp \<noteq> None" and ?s1 = "(after_run sp np tk)\<lparr>searchField := - 1\<rparr>"
  note S = assms(2) [unfolded search_ok_def]
  have an: "action ?s = ACTION_NONE \<longrightarrow> tranType ?s = TRAN_NONE" using S by simp
  have ns: "tranType ?s1 \<noteq> TRAN_CURSOR" using assms(4) by (simp add: sp)
  note B = prepare_buffer [OF begin_search_simps(18) an, where ev = ev and t = t and w = w, folded sp]
  have win: "window ?s1 = window s0" by (simp add: window_def sp Let_def fun_eq_iff)
  have sf: "sortFields sp = (if sort_eliminated w s0 then [] else sortFields s0)" by (simp add: sp sort_eliminated_def)
  define xs where "xs = (if deferred sp then ordered ev sp ms else ms)"
  have tkd: "deferred sp \<Longrightarrow> tk = ms" by (simp add: tk)
  have idle: "\<not> deferred sp \<Longrightarrow> ?b \<Longrightarrow> sortFields sp = []" using B(3, 5) by auto
  have same: "window s0 (if ?b then ordered ev sp tk else tk) = window s0 xs"
  proof (cases "deferred sp")
    case True
    then show ?thesis using tkd by (simp add: xs_def deferred_def)
  next
    case False
    then have "(if ?b then ordered ev sp tk else tk) = tk" using idle by (simp add: ordered_def)
    then show ?thesis using False S by (simp add: xs_def tk window_def drop_take nat_add_distrib Let_def)
  qed
  have now: "drop (nat (offset s0)) tk = window s0 xs" if "\<not> deferred sp"
    using that S by (auto simp: xs_def tk window_def drop_take nat_add_distrib Let_def)
  have mx: "mset xs = mset (filter (row_matches ev s0) rows)" using ms by (simp add: xs_def)
  have sorted: "sortFields s0 = [] \<or> action s0 = ACTION_NONE \<or> sorted_wrt (if sort_eliminated w s0
      then (\<lambda>r q. field_cmp ev (skipField w) r q \<le> 0) else (\<lambda>r q. sort_compare ev (sortFields s0) r q \<le> 0)) xs"
  proof (cases "sort_eliminated w s0")
    case True
    then show ?thesis using elim sf by (simp add: xs_def ordered_def)
  next
    case False
    then show ?thesis
      using ordered_sorted [of ev sp ms] assms(8) sf B(3) by (auto simp: xs_def)
  qed
  have off: "?b \<and> limit s0 = 0 \<longrightarrow> offset s0 = 0"
  proof (rule ccontr)
    assume *: "\<not> (?b \<and> limit s0 = 0 \<longrightarrow> offset s0 = 0)"
    then have "immediate t s0" using assms(7) by simp
    then show False using * B(5, 6) by (auto simp: immediate_def)
  qed
  have ol: "offsetLimit sp = offset s0 + limit s0" using S c_int_small by (simp add: sp begin_search_def)
  have wk: "walked ev ?b tk ?s1"
  proof -
    have "tranTable ?s1 = (if ?b then Some tk else None)" using B(1) by (auto simp: after_run_def)
    moreover have "\<not> deferred sp \<and> limit s0 \<noteq> 0 \<longrightarrow> int (length tk) \<le> offset s0 + limit s0" using S by (auto simp: tk)
    moreover have "matchCount ?s1 = int (length tk)" by (simp add: after_run_def sp)
    moreover have "deferred ?s1 = deferred sp" "update_ok ev ?s1" using S by (simp_all add: sp)
    ultimately show ?thesis
      using S off ol B(2) unfolding walked_def by (simp add: sp runs_on_def)
  qed
  have po: "ordered ev ?s1 = ordered ev sp" "deferred ?s1 = deferred sp" "tranType ?s1 = tranType s0" "deleted ?s1 = deleted s0"
      "updated ?s1 = updated s0" "cursorName ?s1 = None" "search_cursor ?s1 = None" "update_fields ev ?s1 = update_fields ev s0" "components ?s1 = components s0"
    by (simp_all add: sp assms(5, 6))
  obtain s2 where s2: "ctable_PostSearchCommonActions ev a ?s1 cs = Inr (TCL_OK, s2, cs)"
      "matchCount s2 = int (length (window s0 xs))" "acted s2 = acted ?s1 @ (if deferred sp then window s0 xs else [])"
      "deleted s2 = deleted s0 @ (if tranType s0 = TRAN_DELETE then window s0 xs else [])"
      "updated s2 = updated s0 @ (if tranType s0 = TRAN_UPDATE
         then concat (map (\<lambda>row. map (\<lambda>(f, v). (row, f, v)) (the (update_fields ev s0))) (window s0 xs)) else [])"
      "cursorName s2 = None" "search_cursor s2 = None" "components s2 = components s0"
    using post_search [OF wk ns, of a cs, unfolded po win same] by blast
  have acts: "acted s2 = acted s0 @ (if action s0 = ACTION_NONE then [] else window s0 xs)"
    using s2(3) now B(4) by (auto simp: after_run_def sp)
  show ?thesis
  proof (cases "count ev = 0")
    case True
    then have "rows = []" using searchableD(5) [OF assms(1)] by simp
    then have "xs = []" using mx by simp
    have "ctable_PerformSearch ev t a s0 cs = Some (Inr (TCL_OK, Reply_Count 0, ?s, cs))"
      using True assms(5, 6) by (simp add: ctable_PerformSearch_def search_reply_def)
    moreover have "window s0 [] = []" by (simp add: window_def)
    ultimately show ?thesis
      using w mx sorted unfolding \<open>xs = []\<close> by (intro exI [of _ w] exI [of _ "[]"] exI [of _ ?s]) simp
  next
    case False
    have "clean_and_return a TCL_OK s2 cs = Some (TCL_OK, Reply_Count (int (length (window s0 xs))), s2\<lparr>tranTable := None\<rparr>, cs)"
      using s2(2, 6, 7) by (simp add: clean_and_return_def search_reply_def Let_def)
    then have "ctable_PerformSearch ev t a s0 cs = Some (Inr (TCL_OK, Reply_Count (int (length (window s0 xs))), s2\<lparr>tranTable := None\<rparr>, cs))"
      using perform_search_walked [OF False w walk [unfolded sp] r] s2(1) by (simp add: sp)
    then show ?thesis
      using w mx sorted s2(4, 5, 8) acts by (intro exI [of _ w] exI [of _ xs] exI [of _ "s2\<lparr>tranTable := None\<rparr>"]) simp
  qed
qed


section \<open>Witnesses\<close>

text \<open>The sample table with an index on its field that holds both rows.\<close>

lemma two_rows_indexed:
  "\<exists>t ps rs. table_ok sample_creator {24, 40} t [24, 40] ps rs \<and> set (index_rows (ps 0) (rs 0)) = {24, 40}
    \<and> (\<forall>f. skipLists t f \<noteq> None \<longleftrightarrow> f = 0) \<and> \<not> share_reader t"
proof -
  obtain sk r where sk: "skipLists sample_indexed 0 = Some sk" "maxh sk = 5" "shead sk = 16"
      "tlevel sample_indexed = \<lparr>lbits = 7, lreset = 31, lrand = r\<rparr>"
    using sample_indexed_ok(2, 5) by blast
  have lev: "rlevel (maxh sk) (tlevel sample_indexed) = Some (1, \<lparr>lbits = 3, lreset = 30, lrand = r\<rparr>)"
    by (simp add: sk sample_draws)
  have unl: "lprev (tmem sample_indexed) 40 (list_no sample_creator 0) = None"
    by (simp add: sample_indexed_def put_skip_def jsw_sinit_def sample_table_def sample_memory_def sample_creator_def)
  have "(24 :: addr) \<noteq> 0" "(40 :: addr) \<noteq> 0" by simp_all
  from insert_index_table [OF sample_creator_ok sample_indexed_ok(1) sk(1) this(1) sample_indexed_ok(6) sample_indexed_fresh lev, of False]
  obtain t ps' rs' c where R: "same_elsewhere 0 sample_indexed t" "tlevel t = tlevel sample_indexed \<or> tlevel t = \<lparr>lbits = 3, lreset = 30, lrand = r\<rparr>"
      "table_ok sample_creator {24, 40} t [24, 40] ((\<lambda>f. [])(0 := ps')) ((\<lambda>f p. [])(0 := rs'))" "set ps' \<subseteq> {32}"
      "unchanged_for c (list_no sample_creator 0) {24} (tmem sample_indexed) (tmem t)"
      "index_rows ps' rs' = rows_after_insert (compareFunction sample_creator 0) 24 []"
    by auto
  obtain sk' where sk': "skipLists t 0 = Some sk'" "shead sk' = 16" "maxh sk' = 5" using R(1) sk by (auto simp: same_elsewhere_def)
  have t: "ll_head t = 8" "skipLists t (Suc f) = None" "share_reader t = False" for f
    using R(1) sample_indexed_ok(3, 4) by (simp_all add: same_elsewhere_def sample_indexed_def put_skip_def sample_table_def)
  have unl': "lprev (tmem t) 40 (list_no sample_creator 0) = None" using R(5) unl by (simp add: unchanged_for_def)
  have fr: "fresh_node t ((\<lambda>f. [])(0 := ps')) 48"
    unfolding fresh_node_def
  proof (intro conjI allI impI)
    fix g s assume "skipLists t g = Some s"
    then show "48 \<noteq> shead s" "48 \<notin> set (((\<lambda>f. [])(0 := ps')) g)" using sk' t(2) R(4) by (cases g; auto)+
  qed (simp_all add: t)
  obtain lev' where lev': "rlevel (maxh sk') (tlevel t) = Some (1, lev')" using R(2) sk(4) sk'(3) sample_draws(1, 2) by metis
  from insert_index_table [OF sample_creator_ok R(3) sk'(1) \<open>40 \<noteq> 0\<close> unl' fr lev', of False]
  obtain t' ps'' rs'' where Q: "same_elsewhere 0 t t'"
      "table_ok sample_creator {24, 40} t' [24, 40] ((\<lambda>f. [])(0 := ps', 0 := ps'')) ((\<lambda>f p. [])(0 := rs', 0 := rs''))"
      "index_rows ps'' rs'' = rows_after_insert (compareFunction sample_creator 0) 40 (index_rows ps' rs')"
    by (auto simp: sample_creator_def)
  have "skipLists t' f \<noteq> None \<longleftrightarrow> f = 0" for f using Q(1) sk'(1) t(2) by (cases f) (auto simp: same_elsewhere_def)
  moreover have "set (index_rows ps'' rs'') = {24, 40}" unfolding Q(3) R(6) by auto
  moreover have "\<not> share_reader t'" using Q(1) t(3) by (simp add: same_elsewhere_def)
  ultimately show ?thesis
    using Q(2) by (intro exI [of _ t'] exI [of _ "(\<lambda>f. [])(0 := ps', 0 := ps'')"] exI [of _ "(\<lambda>f p. [])(0 := rs', 0 := rs'')"]) simp
qed

text \<open>A search for the rows of that table whose field is at least that of the row at 40.\<close>

definition sample_search_env :: search_env where
  "sample_search_env = \<lparr>creator = sample_creator, keyField = - 1, count = 2, row_key = (\<lambda>r. if r = 24 then ''a'' else ''b''),
     find_row = (\<lambda>k. if k = ''a'' then 24 else if k = ''b'' then 40 else 0), key_matches = (\<lambda>p r. True),
     field_compare = (\<lambda>c r. False), in_row = (\<lambda>f v. None), row_action = (\<lambda>as r. TCL_OK),
     sort_compare = (\<lambda>fs a b. address_order b a), set_field = (\<lambda>r f v. True), field_number = (\<lambda>v. None), previous_fields = []\<rparr>"

definition sample_component :: component where
  "sample_component = \<lparr>row1 = 40, row2 = 0, row3 = 0, inListObj = [], inListRows = None, fieldID = 0, comparisonType = COMP_GE\<rparr>"

definition sample_search :: search where
  "sample_search = \<lparr>components = [sample_component], filters = [], pattern = None, sortFields = [], reqIndexField = INDEX_ANY,
     has_code = True, tranType = TRAN_NONE, tranData = None, action = ACTION_GET, bufferResults = - 1, offset = 0, limit = 0,
     offsetLimit = 0, pollInterval = 0, nextPoll = - 1, matchCount = 0, alreadySearched = None, tranTable = None, tranRoom = 0,
     searchField = - 1, cursorName = None, search_cursor = None, acted = [], deleted = [], updated = []\<rparr>"

lemma sample_searchable:
  assumes "table_ok sample_creator V t [24, 40] ps rs" "\<forall>f. skipLists t f \<noteq> None \<longrightarrow> set (index_rows (ps f) (rs f)) = {24, 40}"
  shows "searchable sample_search_env t [24, 40] ps rs"
proof -
  have "table_ok sample_creator {} t [24, 40] ps rs" using assms(1) unfolding table_ok_def by blast
  then show ?thesis using assms(2) sample_creator_ok by (auto simp: searchable_def sample_search_env_def)
qed

lemma sample_table_searchable:
  obtains t ps rs where "searchable sample_search_env t [24, 40] ps rs" "skipLists t 0 \<noteq> None" "\<not> share_reader t"
proof -
  obtain t ps rs where t: "table_ok sample_creator {24, 40} t [24, 40] ps rs \<and> set (index_rows (ps 0) (rs 0)) = {24, 40}
      \<and> (\<forall>f. skipLists t f \<noteq> None \<longleftrightarrow> f = 0) \<and> \<not> share_reader t"
    using two_rows_indexed by (elim exE)
  have "searchable sample_search_env t [24, 40] ps rs" by (rule sample_searchable [OF conjunct1 [OF t]]) (use t in auto)
  then show ?thesis using that t by simp
qed

lemma sample_search_ok: "search_ok sample_search_env t sample_search"
  by (simp add: search_ok_def sample_search_def sample_component_def update_ok_def runs_on_def component_ok_def stale_list_def sample_search_env_def)

lemma sample_order: "comparator (\<lambda>a b. address_order b a)"
  by unfold_locales (auto simp: address_order_def)


end
