(* ===== verification/SearchEnds.thy ===== *)
theory SearchEnds
  imports SearchCorrect
begin

text \<open>
  Whatever the Tcl code of a search answers, the search ends, and without a fault.
\<close>

section \<open>Every search ends\<close>

text \<open>
  Whatever the Tcl code of a search answers, its transaction table has room for the rows it finds: \<open>n\<close> rows
  can still be entered.  \<open>step_ok\<close> says that a result is no fault and keeps this.
\<close>

definition table_room :: "search_env \<Rightarrow> nat \<Rightarrow> search \<Rightarrow> bool" where
  "table_room ev n s \<longleftrightarrow> 0 \<le> offset s
     \<and> (\<forall>tt. tranTable s = Some tt \<longrightarrow> matchCount s = int (length tt) \<and> length tt + n \<le> tranRoom s \<and> tranRoom s = count ev)"

definition step_ok :: "search_env \<Rightarrow> nat \<Rightarrow> search \<Rightarrow> search walk_result \<Rightarrow> bool" where
  "step_ok ev n s res \<longleftrightarrow> (\<exists>r s'. res = Inr (r, s') \<and> table_room ev n s' \<and> search_cursor s' = search_cursor s)"

lemma step_ok_simps [simp]:
  "\<not> step_ok ev n s (Inl e)" "step_ok ev n s (Inr (r, s')) \<longleftrightarrow> table_room ev n s' \<and> search_cursor s' = search_cursor s"
  by (simp_all add: step_ok_def)

lemma step_ok_if: "step_ok ev n s x \<Longrightarrow> step_ok ev n s y \<Longrightarrow> step_ok ev n s (if b then x else y)"
  by simp

lemma note_match_room:
  assumes "table_room ev (Suc n) s"
  shows "\<exists>s'. note_match ev s row = Inr s' \<and> table_room ev n s' \<and> search_cursor s' = search_cursor s"
  using assms by (cases "tranTable s") (auto simp: note_match_def table_room_def)

lemma compare_row_room:
  assumes "table_room ev (Suc n) s"
  shows "step_ok ev n s (ctable_SearchCompareRow ev row s)"
proof -
  have p: "table_room ev (Suc n) (poll s)" "search_cursor (poll s) = search_cursor s"
    using assms by (auto simp: poll_def table_room_def Let_def)
  then have p0: "table_room ev n (poll s)" by (auto simp: table_room_def)
  obtain s1 where s1: "note_match ev (poll s) row = Inr s1" "table_room ev n s1" "search_cursor s1 = search_cursor s"
    using note_match_room [OF p(1)] p(2) by auto
  have "table_room ev n (s1\<lparr>acted := as\<rparr>)" for as using s1(2) by (auto simp: table_room_def)
  then show ?thesis
    unfolding ctable_SearchCompareRow_def Let_def s1(1) sum.case call_action_def prod.case
    using p0 p(2) s1 by (intro step_ok_if) simp_all
qed

lemma run_rows_room: "table_room ev (length rows) s \<Longrightarrow> step_ok ev 0 s (run_rows (ctable_SearchCompareRow ev) rows s)"
proof (induction rows arbitrary: s)
  case (Cons row rows)
  then obtain r s1 where s1: "ctable_SearchCompareRow ev row s = Inr (r, s1)" "table_room ev (length rows) s1"
      "search_cursor s1 = search_cursor s"
    using compare_row_room [of ev "length rows" s row] by (auto simp: step_ok_def)
  then have "table_room ev 0 s1" by (auto simp: table_room_def)
  then show ?case using s1 Cons.IH [OF s1(2)] by (simp add: step_ok_def)
qed simp

text \<open>After the walk: the rows from the offset to the last row are in the table.\<close>

definition in_table :: "search \<Rightarrow> bool" where
  "in_table s \<longleftrightarrow> (\<exists>tt. tranTable s = Some tt \<and> 0 \<le> offset s \<and> offsetLimit s \<le> int (length tt))"

lemma tran_row_in: "tranTable s = Some tt \<Longrightarrow> 0 \<le> i \<Longrightarrow> i < int (length tt) \<Longrightarrow> \<exists>row. tran_row s i = Inr row"
  by (simp add: tran_row_def)

lemma deferred_loop_ends:
  "\<lbrakk>tranTable s = Some tt; 0 \<le> i; i + int n \<le> int (length tt); offsetLimit s \<le> int (length tt)\<rbrakk>
    \<Longrightarrow> \<exists>r s'. deferred_loop ev n i s = Inr (r, s') \<and> tranTable s' = Some tt \<and> offsetLimit s' \<le> int (length tt)
      \<and> offset s' = offset s \<and> search_cursor s' = search_cursor s"
proof (induction n arbitrary: i s)
  case (Suc n)
  obtain row where row: "tran_row s i = Inr row" using tran_row_in [OF Suc.prems(1, 2)] Suc.prems(3) by auto
  obtain a s1 where c: "call_action ev (poll s) row = (a, s1)" by (cases "call_action ev (poll s) row")
  then have s1: "tranTable s1 = tranTable s" "offset s1 = offset s" "offsetLimit s1 = offsetLimit s" "search_cursor s1 = search_cursor s"
    by (auto simp: call_action_def poll_def Let_def)
  show ?case
    using Suc.IH [of s1 "i + 1"] Suc.prems row c s1 by auto
qed simp

lemma delete_loop_ends:
  "\<lbrakk>tranTable s = Some tt; 0 \<le> i; i + int n \<le> int (length tt)\<rbrakk>
    \<Longrightarrow> \<exists>s'. delete_loop n i s = Inr s' \<and> search_cursor s' = search_cursor s"
proof (induction n arbitrary: i s)
  case (Suc n)
  obtain row where "tran_row s i = Inr row" using tran_row_in [OF Suc.prems(1, 2)] Suc.prems(3) by auto
  then show ?case using Suc.IH [of "s\<lparr>deleted := deleted s @ [row]\<rparr>" "i + 1"] Suc.prems by auto
qed simp

lemma set_fields_keeps: "set_fields ev row fvs s = (b, s') \<Longrightarrow> tranTable s' = tranTable s \<and> search_cursor s' = search_cursor s"
  by (induction fvs arbitrary: s) (auto simp: Let_def split: if_splits)

lemma update_loop_ends:
  "\<lbrakk>tranTable s = Some tt; 0 \<le> i; i + int n \<le> int (length tt)\<rbrakk>
    \<Longrightarrow> \<exists>r s'. update_loop ev fvs n i s = Inr (r, s') \<and> search_cursor s' = search_cursor s"
proof (induction n arbitrary: i s)
  case (Suc n)
  obtain row where row: "tran_row s i = Inr row" using tran_row_in [OF Suc.prems(1, 2)] Suc.prems(3) by auto
  obtain b s1 where b: "set_fields ev row fvs s = (b, s1)" by (cases "set_fields ev row fvs s")
  show ?case
    using Suc.IH [of s1 "i + 1"] Suc.prems row b set_fields_keeps [OF b] by (cases b) auto
qed simp

lemma transaction_ends:
  assumes "in_table s"
  shows "\<exists>r s'. ctable_PerformTransaction ev s = Inr (r, s') \<and> search_cursor s' = search_cursor s"
proof -
  obtain tt where tt: "tranTable s = Some tt" "0 \<le> offset s" "offsetLimit s \<le> int (length tt)"
    using assms by (auto simp: in_table_def)
  let ?n = "nat (offsetLimit s - offset s)"
  show ?thesis
  proof (cases "?n = 0")
    case True
    then show ?thesis
      unfolding ctable_PerformTransaction_def Let_def by (simp split: tran_t.splits option.splits)
  next
    case False
    then have n: "offset s + int ?n \<le> int (length tt)" using tt(3) by linarith
    show ?thesis
      using delete_loop_ends [OF tt(1, 2) n] update_loop_ends [OF tt(1, 2) n]
      unfolding ctable_PerformTransaction_def Let_def by (auto split: tran_t.splits option.splits)
  qed
qed


lemma limit_and_sort_in_table:
  assumes "tranTable s = Some tt" "matchCount s = int (length tt)" "0 \<le> offset s"
  shows "in_table (limit_and_sort ev tt s)" "search_cursor (limit_and_sort ev tt s) = search_cursor s"
proof -
  have "length (ctable_qsort_r cmp 0 n tt) = length tt" if "n \<le> length tt" for cmp n
    using exchanged_length [OF qsort_exchanged [of 0 n tt cmp]] that by simp
  then show "in_table (limit_and_sort ev tt s)" using assms by (auto simp: limit_and_sort_def in_table_def Let_def)
qed (simp add: limit_and_sort_def Let_def)

text \<open>The cursor a search made, if it made one, exists.\<close>

definition cursor_there :: "search \<Rightarrow> cursor_sys \<Rightarrow> bool" where
  "cursor_there s cs \<longleftrightarrow> (\<forall>c. search_cursor s = Some c \<longrightarrow> cu_heap cs c \<noteq> None)"

lemma deferred_loop_type: "deferred_loop ev n i s = Inr (r, s') \<Longrightarrow> tranType s' = tranType s"
  by (induction n arbitrary: i s)
    (auto simp: call_action_def poll_def Let_def split: sum.splits if_splits)

lemma result_actions_end:
  assumes "in_table s" "search_cursor s = None"
  obtains r s' cs' where "result_actions ev a s cs = Inr (r, s', cs')" "cursor_there s' cs'" "tranType s' = tranType s"
    "tranType s \<noteq> TRAN_CURSOR \<Longrightarrow> in_table s'"
proof (cases "tranType s = TRAN_CURSOR")
  case True
  then show ?thesis
    using that by (cases "tranTable s = None \<or> cursorName s = None") (simp_all add: result_actions_def ctable_CreateCursor_def cursor_there_def)
next
  case False
  obtain tt where tt: "tranTable s = Some tt" "0 \<le> offset s" "offsetLimit s \<le> int (length tt)"
    using assms(1) by (auto simp: in_table_def)
  have "\<exists>r s'. deferred_loop ev (nat (offsetLimit s - offset s)) (offset s) s = Inr (r, s') \<and> tranTable s' = Some tt
      \<and> offsetLimit s' \<le> int (length tt) \<and> offset s' = offset s \<and> search_cursor s' = search_cursor s"
  proof (cases "nat (offsetLimit s - offset s) = 0")
    case False
    then show ?thesis using deferred_loop_ends [OF tt(1, 2)] tt(3) by simp
  qed (use tt in simp)
  then obtain r s' where d: "deferred_loop ev (nat (offsetLimit s - offset s)) (offset s) s = Inr (r, s')"
      "in_table s'" "search_cursor s' = None"
    using tt(2) assms(2) by (auto simp: in_table_def)
  show ?thesis
    using that False d assms deferred_loop_type [OF d(1)] by (cases "bufferResults s = BUFFER_DEFER") (auto simp: result_actions_def cursor_there_def)
qed

lemma count_and_transact_end:
  assumes "tranType s \<noteq> TRAN_CURSOR \<Longrightarrow> in_table s" "cursor_there s cs"
  shows "\<exists>q s'. count_and_transact ev r s cs = Inr (q, s', cs) \<and> cursor_there s' cs"
proof (cases "tranType s = TRAN_NONE \<or> tranType s = TRAN_CURSOR")
  case True
  then show ?thesis using assms(2) by (auto simp: count_and_transact_def cursor_there_def Let_def)
next
  case False
  then have "in_table (s\<lparr>matchCount := offsetLimit s - offset s\<rparr>)" using assms(1) by (simp add: in_table_def)
  then obtain q s' where "ctable_PerformTransaction ev (s\<lparr>matchCount := offsetLimit s - offset s\<rparr>) = Inr (q, s')"
      "search_cursor s' = search_cursor s"
    using transaction_ends [of "s\<lparr>matchCount := offsetLimit s - offset s\<rparr>" ev] by auto
  then show ?thesis using False assms(2) by (simp add: count_and_transact_def cursor_there_def Let_def)
qed

lemma post_search_ends:
  assumes "\<And>tt. tranTable s = Some tt \<Longrightarrow> matchCount s = int (length tt)" "0 \<le> offset s" "search_cursor s = None"
  shows "\<exists>r s' cs'. ctable_PostSearchCommonActions ev a s cs = Inr (r, s', cs') \<and> cursor_there s' cs'"
proof (cases "matchCount s = 0 \<or> offset s > matchCount s \<or> tranTable s = None")
  case True
  then show ?thesis using assms(3) by (auto simp: ctable_PostSearchCommonActions_def cursor_there_def)
next
  case False
  then obtain tt where tt: "tranTable s = Some tt" by auto
  note l = limit_and_sort_in_table [OF tt assms(1) [OF tt] assms(2), of ev]
  obtain r s' cs' where R: "result_actions ev a (limit_and_sort ev tt s) cs = Inr (r, s', cs')" "cursor_there s' cs'"
      "tranType s' \<noteq> TRAN_CURSOR \<Longrightarrow> in_table s'"
    using result_actions_end [OF l(1), of ev a cs] l(2) assms(3) by metis
  then show ?thesis
    using False tt count_and_transact_end [of s' cs' ev r] by (auto simp: ctable_PostSearchCommonActions_def)
qed

lemma reply_there: "cursor_there s cs \<Longrightarrow> \<exists>x. search_reply a s cs n = Some x"
  by (auto simp: search_reply_def cursor_there_def ctable_CreateCursorCommand_def cu_update_def ctable_CreateEmptyCursor_def split: option.splits)

lemma clean_there: "cursor_there s cs \<Longrightarrow> \<exists>q reply s' cs'. clean_and_return a r s cs = Some (q, reply, s', cs')"
  using reply_there [of "s\<lparr>tranTable := None\<rparr>" cs a] by (auto simp: clean_and_return_def cursor_there_def Let_def)




text \<open>A search whose code ends in an error for the first row it sees.\<close>

lemma searchable_any_action: "searchable ev t rows ps rs \<Longrightarrow> searchable (ev\<lparr>row_action := f\<rparr>) t rows ps rs"
  by (simp add: searchable_def)


section \<open>An offset without a limit\<close>

text \<open>
  C40. An offset in a search that changes rows.  When \<^verbatim>\<open>-delete\<close> or \<^verbatim>\<open>-update\<close> comes with an offset and
  without a limit, the upper bound that is computed for the loops is the offset itself, not the
  number of rows found: no row is deleted or updated, whatever matched, and the result is 0.
\<close>

theorem offset_without_limit:
  assumes "searchable ev t rows ps rs" and "search_ok ev t s0" and "tranType s0 \<in> {TRAN_DELETE, TRAN_UPDATE}"
    and "limit s0 = 0" and "0 < offset s0" and "cursorName s0 = None" "search_cursor s0 = None"
  shows "\<exists>s'. ctable_PerformSearch ev t a s0 cs = Some (Inr (TCL_OK, Reply_Count 0, s', cs))
    \<and> deleted s' = deleted s0 \<and> updated s' = updated s0"
proof -
  let ?s = "begin_search s0"
  obtain w ms np r tk sp where w: "plan_walk ev t ?s = Inr (True, w)" and sp: "sp = prepare_search ev t w ?s"
      and ms: "mset ms = mset (filter (row_matches ev s0) rows)" and r: "r \<in> {TCL_CONTINUE, TCL_BREAK}"
      and walk: "perform_walk ev t w (ctable_SearchCompareRow ev) sp = Some (Inr (r, after_run sp np tk))"
    by (rule search_walk [OF assms(1, 2)])
  let ?s1 = "(after_run sp np tk)\<lparr>searchField := - 1\<rparr>"
  note S = assms(2) [unfolded search_ok_def]
  have an: "action ?s = ACTION_NONE \<longrightarrow> tranType ?s = TRAN_NONE" using S by simp
  note B = prepare_buffer [OF begin_search_simps(18) an, where ev = ev and t = t and w = w, folded sp]
  have tt: "tranTable ?s1 = Some tk" by (cases "tranTable sp = None") (use B(1, 2) assms(3) in \<open>auto simp: after_run_def\<close>)
  have ol: "offsetLimit ?s1 = offset s0" "offset ?s1 = offset s0" "matchCount ?s1 = int (length tk)" "tranType ?s1 = tranType s0"
      "deleted ?s1 = deleted s0" "updated ?s1 = updated s0" "cursorName ?s1 = None" "search_cursor ?s1 = None"
    using S c_int_small assms(4-7) by (simp_all add: sp begin_search_def after_run_def)
  have uo: "update_ok ev ?s1" using S by (simp add: sp)
  obtain s2 where s2: "ctable_PostSearchCommonActions ev a ?s1 cs = Inr (TCL_OK, s2, cs)" "matchCount s2 = 0"
      "deleted s2 = deleted s0" "updated s2 = updated s0" "cursorName s2 = None" "search_cursor s2 = None"
  proof (cases "matchCount ?s1 = 0 \<or> offset ?s1 > matchCount ?s1")
    case True
    then show ?thesis using that [of "?s1\<lparr>matchCount := 0\<rparr>"] ol by (simp add: ctable_PostSearchCommonActions_def)
  next
    case False
    have "\<exists>s2. limit_and_sort ev tk ?s1 = s2 \<and> offsetLimit s2 = offset s2 \<and> tranType s2 = tranType s0 \<and> deleted s2 = deleted s0
        \<and> updated s2 = updated s0 \<and> cursorName s2 = None \<and> search_cursor s2 = None \<and> update_ok ev s2"
      using False ol uo assms(5) by (auto simp: limit_and_sort_def Let_def update_ok_def update_fields_def)
    then obtain s2 where s2: "limit_and_sort ev tk ?s1 = s2" "offsetLimit s2 = offset s2" "tranType s2 = tranType s0" "deleted s2 = deleted s0"
        "updated s2 = updated s0" "cursorName s2 = None" "search_cursor s2 = None" "update_ok ev s2" by blast
    have "ctable_PostSearchCommonActions ev a ?s1 cs = Inr (TCL_OK, s2\<lparr>matchCount := 0\<rparr>, cs)"
      unfolding ctable_PostSearchCommonActions_def if_not_P [OF False] tt option.case s2(1)
      using s2(2, 3, 8) assms(3)
      by (auto simp: result_actions_def count_and_transact_def ctable_PerformTransaction_def update_ok_def update_fields_def Let_def
          split: option.splits)
    then show ?thesis using that [of "s2\<lparr>matchCount := 0\<rparr>"] s2 by simp
  qed
  have empty: "search_reply a ?s cs 0 = Some (Reply_Count 0, ?s, cs)" using assms(6, 7) by (simp add: search_reply_def)
  show ?thesis
  proof (cases "count ev = 0")
    case True
    then show ?thesis using empty by (simp add: ctable_PerformSearch_def)
  next
    case False
    have "clean_and_return a TCL_OK s2 cs = Some (TCL_OK, Reply_Count 0, s2\<lparr>tranTable := None\<rparr>, cs)"
      using s2 by (simp add: clean_and_return_def search_reply_def Let_def)
    then show ?thesis
      using perform_search_walked [OF False w walk [unfolded sp] r] s2 by (simp add: sp)
  qed
qed


text \<open>Both rows match, the first is skipped, and the second is not deleted.\<close>

lemma offset_without_limit_witness:
  "\<exists>t s'. let s = sample_search\<lparr>components := [], tranType := TRAN_DELETE, action := ACTION_TRANSACTION_ONLY, offset := 1\<rparr>
    in filter (row_matches sample_search_env s) [24, 40] = [24, 40]
      \<and> ctable_PerformSearch sample_search_env t 64 s sample_cursors = Some (Inr (TCL_OK, Reply_Count 0, s', sample_cursors)) \<and> deleted s' = []"
proof -
  let ?s = "sample_search\<lparr>components := [], tranType := TRAN_DELETE, action := ACTION_TRANSACTION_ONLY, offset := 1\<rparr>"
  obtain t ps rs where t: "searchable sample_search_env t [24, 40] ps rs" "skipLists t 0 \<noteq> None"
    by (rule sample_table_searchable)
  note ok = t(1)
  have s: "search_ok sample_search_env t ?s" "tranType ?s \<in> {TRAN_DELETE, TRAN_UPDATE}" "limit ?s = 0" "0 < offset ?s" "cursorName ?s = None"
      "search_cursor ?s = None" "deleted ?s = []"
    by (simp_all add: search_ok_def sample_search_def update_ok_def runs_on_def stale_list_def sample_search_env_def)
  have "filter (row_matches sample_search_env ?s) [24, 40] = [24, 40]" by (simp add: row_matches_def pre_match_def sample_search_def)
  then show ?thesis using offset_without_limit [OF ok s(1-6), of 64 sample_cursors] s(7) by (auto simp: Let_def)
qed

section \<open>A key and an \<^verbatim>\<open>in\<close> list\<close>

text \<open>
  The key and a list of values of another field.  A search that compares an indexed field with \<^verbatim>\<open>in\<close>
  and then the key with \<^verbatim>\<open>=\<close> looks the key up, and goes on to look the values of the \<^verbatim>\<open>in\<close> list up as
  if they were keys; the comparison of the key counts as made for all rows found in this way.
\<close>

theorem key_after_in_list:
  assumes "components s = [c, k]" and "comparisonType c = COMP_IN" "\<not> is_key ev c" and "skipLists t (fieldID c) \<noteq> None"
    and "ctable_CreateInRows ev c \<noteq> None" and "comparisonType k = COMP_EQ" "is_key ev k"
    and "reqIndexField s = INDEX_ANY" and "\<not> share_reader t" and "previous_fields ev = []"
  shows "\<exists>w. plan_walk ev t s = Inr (True, w) \<and> walready w = Some 1
    \<and> (\<forall>step s'. perform_walk ev t w step s' =
        Some (run_rows step (filter (\<lambda>r. r \<noteq> 0) (map (find_row ev) (row_key ev (row1 k) # inListObj c))) s'))"
proof -
  obtain ins where ins: "ctable_CreateInRows ev c = Some ins" using assms(5) by auto
  obtain sk where sk: "skipLists t (fieldID c) = Some sk" using assms(4) by auto
  have "try_order (reqIndexField s) (components s) = [(0, c), (1, k)]"
    using assms(1, 8) by (simp add: try_order_def start_index_def enumerate_eq_zip)
  moreover have "\<not> 6 + (if b then SORT_SCORE else 0) < 0" for b by (simp add: SORT_SCORE_def)
  ultimately obtain w where "plan_walk ev t s = Inr (True, w)" "walready w = Some 1" "walkType w = WALK_HASH_EQ"
      "wkey w = Some (row_key ev (row1 k))" "winList w = inListObj c"
    using assms ins sk by (simp add: plan_walk_def INDEX_ANY_def INDEX_NONE_def is_key_def no_plan_def Let_def)
  then show ?thesis by (intro exI [of _ w]) (simp add: perform_walk_def hash_walk_rows)
qed


text \<open>A search for the key \<^verbatim>\<open>a\<close>, that has the row at 24, also visits the row at 40, whose key is \<^verbatim>\<open>b\<close>.\<close>

lemma key_after_in_list_witness:
  "\<exists>t w. let ev = sample_search_env\<lparr>keyField := 1, in_row := \<lambda>f v. Some 40\<rparr>;
      c = sample_component\<lparr>comparisonType := COMP_IN, inListObj := [''b'']\<rparr>;
      k = sample_component\<lparr>comparisonType := COMP_EQ, fieldID := 1, row1 := 24\<rparr>;
      s = sample_search\<lparr>components := [c, k]\<rparr>
    in plan_walk ev t s = Inr (True, w) \<and> walready w = Some 1
      \<and> (\<forall>s'. perform_walk ev t w (ctable_SearchCompareRow ev) s' = Some (run_rows (ctable_SearchCompareRow ev) [24, 40] s'))"
proof -
  let ?ev = "sample_search_env\<lparr>keyField := 1, in_row := \<lambda>f v. Some 40\<rparr>"
  let ?c = "sample_component\<lparr>comparisonType := COMP_IN, inListObj := [''b'']\<rparr>"
  let ?k = "sample_component\<lparr>comparisonType := COMP_EQ, fieldID := 1, row1 := 24\<rparr>"
  let ?s = "sample_search\<lparr>components := [?c, ?k]\<rparr>"
  obtain t :: ctable where t: "skipLists t 0 \<noteq> None" "\<not> share_reader t"
    by (rule sample_table_searchable)
  have s: "components ?s = [?c, ?k]" "comparisonType ?c = COMP_IN" "\<not> is_key ?ev ?c" "skipLists t (fieldID ?c) \<noteq> None"
      "ctable_CreateInRows ?ev ?c \<noteq> None" "comparisonType ?k = COMP_EQ" "is_key ?ev ?k" "reqIndexField ?s = INDEX_ANY"
      "previous_fields ?ev = []"
    using t(1) by (simp_all add: sample_component_def sample_search_def sample_search_env_def is_key_def ctable_CreateInRows_def)
  have f: "filter (\<lambda>r. r \<noteq> 0) (map (find_row ?ev) (row_key ?ev (row1 ?k) # inListObj ?c)) = [24, 40]"
    by (simp add: sample_component_def sample_search_env_def)
  obtain w where "plan_walk ?ev t ?s = Inr (True, w) \<and> walready w = Some 1
      \<and> (\<forall>step (s' :: search). perform_walk ?ev t w step s' = Some (run_rows step [24, 40] s'))"
    using key_after_in_list [OF s(1-8) t(2) s(9)] unfolding f by (rule exE)
  then show ?thesis unfolding Let_def by blast
qed

end
