(* ===== verification/SearchSetup.thy ===== *)
theory SearchSetup
  imports SearchEnds QuoteIO ShareCmd BoyerMoore
begin

text \<open>
  Setting a search up, \<^verbatim>\<open>ctables/ctable_search.c\<close>: the lists of fields, the terms of \<^verbatim>\<open>-compare\<close> and of
  \<^verbatim>\<open>-filter\<close>, the options of the \<^verbatim>\<open>search\<close> method, and the method as a whole.  Tcl objects are their
  strings; how Tcl reads lists, numbers and truth values out of them, and the rows the generated code
  makes to hold a value, are parameters.  The text of error messages is left out.
\<close>

section \<open>State\<close>

text \<open>
  What the parser asks Tcl and the generated code.  \<open>private_row f v\<close> is the address of a new row whose field
  \<open>f\<close> is set to \<open>v\<close>, if that works.
\<close>

record setup_env = search_env +
  list_elements :: "string \<Rightarrow> string list option"
  get_int :: "string \<Rightarrow> 32 word option"
  get_boolean :: "string \<Rightarrow> bool option"
  fieldNames :: "string list"
  string_field :: "nat \<Rightarrow> bool"
  private_row :: "nat \<Rightarrow> string \<Rightarrow> addr option"
  filterNames :: "string list"
  filterFunctions :: "nat \<Rightarrow> string \<Rightarrow> 32 word \<Rightarrow> addr \<Rightarrow> tcl_code"
  publicFieldList :: "nat list"
  channel_writable :: "string \<Rightarrow> bool option"

datatype match_type = MATCH_ANCHORED | MATCH_UNANCHORED | MATCH_PATTERN

record match_struct =
  match_type :: match_type
  nocase :: bool
  bm_table :: "bm_match option"

text \<open>The static variables: the sequence number of searches, and the number of cursors that got a name.\<close>

record statics =
  staticSequence :: "32 word"
  auto_cursor_id :: "64 word"

text \<open>
  The rest of \<^verbatim>\<open>struct CTableSearch\<close>.  \<open>nComponents\<close> is the number that goes with the pointer \<open>components\<close>, whose
  \<^verbatim>\<open>NULL\<close> is the empty list; \<open>retrieveFields\<close> is \<open>None\<close> for \<^verbatim>\<open>nRetrieveFields = -1\<close>.
\<close>

record search_setup = search +
  nComponents :: nat
  clientData :: "match_struct option list"
  retrieveFields :: "nat list option"
  noKeys :: bool
  rowVar :: "string option"
  keyVar :: "string option"
  codeBody :: "string option"
  pollCode :: "string option"
  sepstr :: string
  nullString :: "string option"
  quoteType :: quote_type
  tabsepChannel :: "string option"
  withFieldNames :: bool
  sequence :: "32 word"
  counters :: statics

datatype setup_error = Unknown_Option | Wrong_Num_Args | Bad_List | Bad_Field | Bad_Term | Bad_Term_Count | Not_A_String_Field
  | Bad_Value | Bad_Filter | Bad_Boolean | Bad_Integer | Negative_Offset | Negative_Limit | Action_Overload | Delete_With_Cursors
  | Delete_In_Search | Read_Only | Transaction_Conflict | Bad_Quote_Type | Bad_Channel | Channel_Not_Writable | Duplicate_Cursor
  | Code_With_Output | Code_Without_Variable | Field_Names_Without_Tabsep | Sort_Without_Output

section \<open>Lists of fields\<close>

definition ctable_ParseFieldList :: "setup_env \<Rightarrow> string \<Rightarrow> setup_error + nat list" where
  "ctable_ParseFieldList ev obj =
     (case list_elements ev obj of
        None \<Rightarrow> Inl Bad_List
      | Some names \<Rightarrow>
          (case those (map (tcl_get_index (fieldNames ev)) names) of
             None \<Rightarrow> Inl Bad_Field
           | Some fs \<Rightarrow> Inr fs))"

definition sort_field_name :: "setup_env \<Rightarrow> string \<Rightarrow> (nat \<times> int) option" where
  "sort_field_name ev name =
     (case name of
        CHR ''-'' # rest \<Rightarrow> map_option (\<lambda>f. (f, - 1)) (tcl_get_index (fieldNames ev) rest)
      | _ \<Rightarrow> map_option (\<lambda>f. (f, 1)) (tcl_get_index (fieldNames ev) name))"

definition ctable_ParseSortFieldList :: "setup_env \<Rightarrow> string \<Rightarrow> setup_error + (nat \<times> int) list" where
  "ctable_ParseSortFieldList ev obj =
     (case list_elements ev obj of
        None \<Rightarrow> Inl Bad_List
      | Some names \<Rightarrow>
          (case those (map (sort_field_name ev) names) of
             None \<Rightarrow> Inl Bad_Field
           | Some fs \<Rightarrow> Inr fs))"

section \<open>Patterns\<close>

text \<open>
  The loop of \<^verbatim>\<open>ctable_searchMatchPatternCheck\<close>, from the second character on: \<open>None\<close> when it returns
  \<^verbatim>\<open>CTABLE_STRING_MATCH_PATTERN\<close>, otherwise whether the last character is a star.
\<close>

fun pattern_loop :: "string \<Rightarrow> bool option" where
  "pattern_loop [] = Some False"
| "pattern_loop (c # s) =
     (if c = CHR ''*'' then (if s = [] then Some True else None)
      else if c \<in> {CHR ''?'', CHR ''['', CHR '']'', CHR 0x5C} then None
      else pattern_loop s)"

definition ctable_searchMatchPatternCheck :: "string \<Rightarrow> match_type" where
  "ctable_searchMatchPatternCheck s =
     (case s of
        [] \<Rightarrow> MATCH_ANCHORED
      | c # rest \<Rightarrow>
          (case pattern_loop rest of
             None \<Rightarrow> MATCH_PATTERN
           | Some lastCharIsStar \<Rightarrow>
               if c = CHR ''*'' then (if lastCharIsStar then MATCH_UNANCHORED else MATCH_PATTERN)
               else if lastCharIsStar then MATCH_ANCHORED
               else MATCH_PATTERN))"

text \<open>
  The loop that copies the prefix of an anchored pattern; the result is the copy and the index \<^verbatim>\<open>i\<close> after the
  loop.  Both branches leave the loop before \<^verbatim>\<open>i\<close> is counted up.
\<close>

definition prefix_loop :: "string \<Rightarrow> string \<times> nat" where
  "prefix_loop needle =
     (case needle of
        [] \<Rightarrow> ([], 0)
      | c # _ \<Rightarrow> if c = CHR ''*'' then ([], 0) else ([c], 0))"

definition next_char :: "char \<Rightarrow> char" where
  "next_char c = char_of ((of_char c + 1) mod (256 :: nat))"

text \<open>\<open>row2\<close> and \<open>row3\<close> of an anchored pattern: the prefix, and the first string after all that have it.\<close>

definition prefix_rows :: "setup_env \<Rightarrow> nat \<Rightarrow> string \<Rightarrow> (addr \<times> addr) option" where
  "prefix_rows ev field needle =
     (let (prefix, i) = prefix_loop needle
      in if i > 0
         then Option.bind (private_row ev field (take i prefix)) (\<lambda>r2.
              Option.bind (private_row ev field (take (i - 1) prefix @ [next_char (prefix ! (i - 1))])) (\<lambda>r3. Some (r2, r3)))
         else Some (0, 0))"

section \<open>The terms of a search\<close>

definition searchTerms :: "string list" where
  "searchTerms = [''false'', ''true'', ''null'', ''notnull'', ''<'', ''<='', ''='', ''!='', ''>='', ''>'', ''match'', ''notmatch'',
     ''match_case'', ''notmatch_case'', ''range'', ''in'']"

definition comp_types :: "comp_type list" where
  "comp_types = [COMP_FALSE, COMP_TRUE, COMP_NULL, COMP_NOTNULL, COMP_LT, COMP_LE, COMP_EQ, COMP_NE, COMP_GE, COMP_GT, COMP_MATCH,
     COMP_NOTMATCH, COMP_MATCH_CASE, COMP_NOTMATCH_CASE, COMP_RANGE, COMP_IN]"

definition empty_component :: "comp_type \<Rightarrow> nat \<Rightarrow> component" where
  "empty_component ct field = \<lparr>row1 = 0, row2 = 0, row3 = 0, inListObj = [], inListRows = None, fieldID = field, comparisonType = ct\<rparr>"

abbreviation is_match :: "comp_type \<Rightarrow> bool" where
  "is_match ct \<equiv> ct \<in> {COMP_MATCH, COMP_NOTMATCH, COMP_MATCH_CASE, COMP_NOTMATCH_CASE}"

text \<open>What a \<^verbatim>\<open>match\<close> keeps of its pattern: the \<^verbatim>\<open>clientData\<close> and the rows of the prefix.\<close>

definition parse_match :: "setup_env \<Rightarrow> comp_type \<Rightarrow> nat \<Rightarrow> string \<Rightarrow> setup_error + match_struct \<times> addr \<times> addr" where
  "parse_match ev ct field v =
     (if \<not> string_field ev field then Inl Not_A_String_Field
      else let ty = ctable_searchMatchPatternCheck v;
               nc = (ct = COMP_MATCH \<or> ct = COMP_NOTMATCH)
           in if ty = MATCH_UNANCHORED
              then Inr (\<lparr>match_type = ty, nocase = nc,
                         bm_table = Some (boyer_moore_setup (map of_char (take (length v - 2) (tl v))) nc)\<rparr>, 0, 0)
              else if ty = MATCH_ANCHORED \<and> ct = COMP_MATCH_CASE
              then (case prefix_rows ev field v of
                      None \<Rightarrow> Inl Bad_Value
                    | Some (r2, r3) \<Rightarrow> Inr (\<lparr>match_type = ty, nocase = nc, bm_table = None\<rparr>, r2, r3))
              else Inr (\<lparr>match_type = ty, nocase = nc, bm_table = None\<rparr>, 0, 0))"

text \<open>The values of a term, after the term and the field.\<close>

definition parse_values :: "setup_env \<Rightarrow> comp_type \<Rightarrow> nat \<Rightarrow> string list \<Rightarrow> setup_error + component \<times> match_struct option" where
  "parse_values ev ct field vals =
     (let c = empty_component ct field
      in if ct \<in> {COMP_FALSE, COMP_TRUE, COMP_NULL, COMP_NOTNULL}
         then (if vals \<noteq> [] then Inl Bad_Term_Count else Inr (c, None))
         else if ct = COMP_IN
         then (case vals of
                 [v] \<Rightarrow> (case list_elements ev v of None \<Rightarrow> Inl Bad_List | Some vs \<Rightarrow> Inr (c\<lparr>inListObj := vs\<rparr>, None))
               | _ \<Rightarrow> Inl Bad_Term_Count)
         else if ct = COMP_RANGE
         then (case vals of
                 [lo, hi] \<Rightarrow>
                   (case private_row ev field lo of
                      None \<Rightarrow> Inl Bad_Value
                    | Some r1 \<Rightarrow>
                        (case private_row ev field hi of
                           None \<Rightarrow> Inl Bad_Value
                         | Some r2 \<Rightarrow> Inr (c\<lparr>row1 := r1, row2 := r2\<rparr>, None)))
               | _ \<Rightarrow> Inl Bad_Term_Count)
         else (case vals of
                 [v] \<Rightarrow>
                   (case (if is_match ct then map_sum id (\<lambda>(sm, r2, r3). (Some sm, r2, r3)) (parse_match ev ct field v) else Inr (None, 0, 0)) of
                      Inl e \<Rightarrow> Inl e
                    | Inr (sm, r2, r3) \<Rightarrow>
                        (case private_row ev field v of
                           None \<Rightarrow> Inl Bad_Value
                         | Some r1 \<Rightarrow> Inr (c\<lparr>row1 := r1, row2 := r2, row3 := r3\<rparr>, sm)))
               | _ \<Rightarrow> Inl Bad_Term_Count))"

definition parse_term :: "setup_env \<Rightarrow> string \<Rightarrow> setup_error + component \<times> match_struct option" where
  "parse_term ev obj =
     (case list_elements ev obj of
        None \<Rightarrow> Inl Bad_List
      | Some (term # fieldName # vals) \<Rightarrow>
          (case tcl_get_index searchTerms term of
             None \<Rightarrow> Inl Bad_Term
           | Some i \<Rightarrow>
               (case tcl_get_index (fieldNames ev) fieldName of
                  None \<Rightarrow> Inl Bad_Field
                | Some field \<Rightarrow> parse_values ev (comp_types ! i) field vals))
      | _ \<Rightarrow> Inl Wrong_Num_Args)"

fun parse_terms :: "setup_env \<Rightarrow> string list \<Rightarrow> setup_error + (component \<times> match_struct option) list" where
  "parse_terms ev [] = Inr []"
| "parse_terms ev (obj # objs) =
     (case parse_term ev obj of
        Inl e \<Rightarrow> Inl e
      | Inr c \<Rightarrow> map_sum id (\<lambda>cs. c # cs) (parse_terms ev objs))"

text \<open>\<^verbatim>\<open>ctable_ParseSearch\<close>; an empty list clears the pointer and leaves the number of components.\<close>

definition ctable_ParseSearch :: "setup_env \<Rightarrow> string \<Rightarrow> search_setup \<Rightarrow> setup_error + search_setup" where
  "ctable_ParseSearch ev obj st =
     (case list_elements ev obj of
        None \<Rightarrow> Inl Bad_List
      | Some [] \<Rightarrow> Inr (st\<lparr>components := [], clientData := []\<rparr>)
      | Some objs \<Rightarrow>
          (case parse_terms ev objs of
             Inl e \<Rightarrow> Inl e
           | Inr cs \<Rightarrow> Inr (st\<lparr>components := map fst cs, nComponents := length objs, clientData := map snd cs\<rparr>)))"

definition parse_filter :: "setup_env \<Rightarrow> 32 word \<Rightarrow> string \<Rightarrow> (addr \<Rightarrow> tcl_code) option" where
  "parse_filter ev n obj =
     (case list_elements ev obj of
        Some [name, v] \<Rightarrow> map_option (\<lambda>i. filterFunctions ev i v n) (tcl_get_index (filterNames ev) name)
      | _ \<Rightarrow> None)"

definition ctable_ParseFilters :: "setup_env \<Rightarrow> string \<Rightarrow> search_setup \<Rightarrow> setup_error + search_setup" where
  "ctable_ParseFilters ev obj st =
     (case list_elements ev obj of
        None \<Rightarrow> Inl Bad_List
      | Some objs \<Rightarrow>
          (case those (map (parse_filter ev (sequence st)) objs) of
             None \<Rightarrow> Inl Bad_Filter
           | Some fs \<Rightarrow> Inr (st\<lparr>filters := fs\<rparr>)))"


section \<open>The options\<close>

datatype search_option = OPT_ARRAY | OPT_ARRAY_WITH_NULLS | OPT_ARRAY_GET | OPT_ARRAY_GET_WITH_NULLS | OPT_CODE | OPT_COMPARE
  | OPT_COUNTONLY | OPT_FIELDS | OPT_GET | OPT_GLOB | OPT_KEYVAR | OPT_WITH_FIELD_NAMES | OPT_LIMIT | OPT_DONT_INCLUDE_KEY
  | OPT_OFFSET | OPT_SORT | OPT_WRITE_TABSEP | OPT_TAB | OPT_DELETE | OPT_UPDATE | OPT_BUFFER | OPT_INDEX | OPT_POLL_CODE
  | OPT_POLL_INTERVAL | OPT_QUOTE_TYPE | OPT_NULL_STRING | OPT_FILTER | OPT_CURSOR

definition searchOptions :: "string list" where
  "searchOptions = [''-array'', ''-array_with_nulls'', ''-array_get'', ''-array_get_with_nulls'', ''-code'', ''-compare'', ''-countOnly'',
     ''-fields'', ''-get'', ''-glob'', ''-key'', ''-with_field_names'', ''-limit'', ''-nokeys'', ''-offset'', ''-sort'', ''-write_tabsep'',
     ''-tab'', ''-delete'', ''-update'', ''-buffer'', ''-index'', ''-poll_code'', ''-poll_interval'', ''-quote'', ''-null'', ''-filter'',
     ''-cursor'']"

definition search_options :: "search_option list" where
  "search_options = [OPT_ARRAY, OPT_ARRAY_WITH_NULLS, OPT_ARRAY_GET, OPT_ARRAY_GET_WITH_NULLS, OPT_CODE, OPT_COMPARE, OPT_COUNTONLY,
     OPT_FIELDS, OPT_GET, OPT_GLOB, OPT_KEYVAR, OPT_WITH_FIELD_NAMES, OPT_LIMIT, OPT_DONT_INCLUDE_KEY, OPT_OFFSET, OPT_SORT,
     OPT_WRITE_TABSEP, OPT_TAB, OPT_DELETE, OPT_UPDATE, OPT_BUFFER, OPT_INDEX, OPT_POLL_CODE, OPT_POLL_INTERVAL, OPT_QUOTE_TYPE,
     OPT_NULL_STRING, OPT_FILTER, OPT_CURSOR]"

definition DEFAULT_POLL_INTERVAL :: int where "DEFAULT_POLL_INTERVAL = 1024"

text \<open>The state a search starts with; the sequence number is never 0.\<close>

definition next_sequence :: "32 word \<Rightarrow> 32 word" where
  "next_sequence n = (if n + 1 = 0 then n + 2 else n + 1)"

definition initial_search :: "statics \<Rightarrow> int \<Rightarrow> search_setup" where
  "initial_search g indexField =
     \<lparr>components = [], filters = [], pattern = None, sortFields = [], reqIndexField = indexField, has_code = False,
      tranType = TRAN_NONE, tranData = None, action = ACTION_NONE, bufferResults = - 1, offset = 0, limit = 0, offsetLimit = 0,
      pollInterval = 0, nextPoll = - 1, matchCount = 0, alreadySearched = None, tranTable = None, tranRoom = 0, searchField = - 1,
      cursorName = None, search_cursor = None, acted = [], deleted = [], updated = [],
      nComponents = 0, clientData = [], retrieveFields = None, noKeys = False, rowVar = None, keyVar = None, codeBody = None,
      pollCode = None, sepstr = [CHR 0x09], nullString = None, quoteType = QUOTE_NONE, tabsepChannel = None, withFieldNames = False,
      sequence = next_sequence (staticSequence g), counters = g\<lparr>staticSequence := next_sequence (staticSequence g)\<rparr>\<rparr>"

text \<open>The options that say what to do with a row: there can be one of them.\<close>

definition set_action :: "action_t \<Rightarrow> string \<Rightarrow> search_setup \<Rightarrow> setup_error + search_setup" where
  "set_action new var st =
     (if action st \<noteq> ACTION_NONE then Inl Action_Overload else Inr (st\<lparr>action := new, rowVar := Some var\<rparr>))"

definition write_tabsep_option :: "setup_env \<Rightarrow> string \<Rightarrow> search_setup \<Rightarrow> setup_error + search_setup" where
  "write_tabsep_option ev arg st =
     (if action st \<noteq> ACTION_NONE then Inl Action_Overload
      else case channel_writable ev arg of
        None \<Rightarrow> Inl Bad_Channel
      | Some w \<Rightarrow> if \<not> w then Inl Channel_Not_Writable
          else Inr (st\<lparr>action := ACTION_WRITE_TABSEP, tabsepChannel := Some arg\<rparr>))"

text \<open>The options that change rows.  A reader, cursors, and searches this one is nested in forbid them.\<close>

definition delete_option :: "setup_env \<Rightarrow> ctable \<Rightarrow> cursor_sys \<Rightarrow> string \<Rightarrow> search_setup \<Rightarrow> setup_error + search_setup" where
  "delete_option ev t cs arg st =
     (case get_int ev arg of
        None \<Rightarrow> Inl Bad_Integer
      | Some i \<Rightarrow>
          if i \<noteq> 0
          then (if cu_chain cs \<noteq> [] then Inl Delete_With_Cursors
                else if previous_fields ev \<noteq> [] then Inl Delete_In_Search
                else if share_reader t then Inl Read_Only
                else if tranType st \<noteq> TRAN_NONE \<and> tranType st \<noteq> TRAN_DELETE then Inl Transaction_Conflict
                else Inr (st\<lparr>tranType := TRAN_DELETE\<rparr>))
          else Inr (if tranType st = TRAN_DELETE then st\<lparr>tranType := TRAN_NONE\<rparr> else st))"

definition update_option :: "setup_env \<Rightarrow> ctable \<Rightarrow> string \<Rightarrow> search_setup \<Rightarrow> setup_error + search_setup" where
  "update_option ev t arg st =
     (if share_reader t then Inl Read_Only
      else if tranType st \<noteq> TRAN_NONE \<and> tranType st \<noteq> TRAN_UPDATE then Inl Transaction_Conflict
      else Inr (st\<lparr>tranType := TRAN_UPDATE, tranData := list_elements ev arg\<rparr>))"

text \<open>
  \<^verbatim>\<open>-cursor\<close>; after other operations there is a message, and no error return.  \<^verbatim>\<open>#auto\<close> makes a name out of that
  of the table and a number.
\<close>

definition cursor_option :: "cursor_sys \<Rightarrow> string \<Rightarrow> string \<Rightarrow> search_setup \<Rightarrow> setup_error + search_setup" where
  "cursor_option cs table arg st =
     (let auto = (arg = ''#auto'');
          n = auto_cursor_id (counters st) + 1;
          name = (if auto then table @ ''_C'' @ decimal (unat n) else arg);
          st1 = (if auto then st\<lparr>counters := (counters st)\<lparr>auto_cursor_id := n\<rparr>\<rparr> else st)
      in if \<exists>c\<in>set (cu_chain cs). Option.bind (cu_heap cs c) cu_name = Some name then Inl Duplicate_Cursor
         else Inr (st1\<lparr>tranType := TRAN_CURSOR, action := ACTION_CURSOR, cursorName := Some name\<rparr>))"

definition int_option :: "setup_env \<Rightarrow> string \<Rightarrow> (int \<Rightarrow> setup_error + search_setup) \<Rightarrow> setup_error + search_setup" where
  "int_option ev arg k = (case get_int ev arg of None \<Rightarrow> Inl Bad_Integer | Some i \<Rightarrow> k (sint i))"

definition boolean_option :: "setup_env \<Rightarrow> string \<Rightarrow> (bool \<Rightarrow> search_setup) \<Rightarrow> setup_error + search_setup" where
  "boolean_option ev arg k = (case get_boolean ev arg of None \<Rightarrow> Inl Bad_Boolean | Some b \<Rightarrow> Inr (k b))"

text \<open>One option with its argument.\<close>

fun setup_option :: "setup_env \<Rightarrow> ctable \<Rightarrow> cursor_sys \<Rightarrow> string \<Rightarrow> search_option \<Rightarrow> string \<Rightarrow> search_setup \<Rightarrow> setup_error + search_setup" where
  "setup_option ev t cs table OPT_SORT arg st = map_sum id (\<lambda>fs. st\<lparr>sortFields := fs\<rparr>) (ctable_ParseSortFieldList ev arg)"
| "setup_option ev t cs table OPT_FIELDS arg st = map_sum id (\<lambda>fs. st\<lparr>retrieveFields := Some fs\<rparr>) (ctable_ParseFieldList ev arg)"
| "setup_option ev t cs table OPT_DONT_INCLUDE_KEY arg st = boolean_option ev arg (\<lambda>b. st\<lparr>noKeys := b\<rparr>)"
| "setup_option ev t cs table OPT_INDEX arg st =
     (case tcl_get_index (fieldNames ev) arg of None \<Rightarrow> Inl Bad_Field | Some i \<Rightarrow> Inr (st\<lparr>reqIndexField := int i\<rparr>))"
| "setup_option ev t cs table OPT_WITH_FIELD_NAMES arg st = boolean_option ev arg (\<lambda>b. st\<lparr>withFieldNames := b\<rparr>)"
| "setup_option ev t cs table OPT_ARRAY arg st = set_action ACTION_ARRAY arg st"
| "setup_option ev t cs table OPT_ARRAY_WITH_NULLS arg st = set_action ACTION_ARRAY_WITH_NULLS arg st"
| "setup_option ev t cs table OPT_ARRAY_GET arg st = set_action ACTION_ARRAY_GET arg st"
| "setup_option ev t cs table OPT_ARRAY_GET_WITH_NULLS arg st = set_action ACTION_ARRAY_GET_WITH_NULLS arg st"
| "setup_option ev t cs table OPT_KEYVAR arg st = Inr (st\<lparr>keyVar := Some arg\<rparr>)"
| "setup_option ev t cs table OPT_GET arg st = set_action ACTION_GET arg st"
| "setup_option ev t cs table OPT_GLOB arg st = Inr (st\<lparr>pattern := Some arg\<rparr>)"
| "setup_option ev t cs table OPT_COMPARE arg st = ctable_ParseSearch ev arg st"
| "setup_option ev t cs table OPT_FILTER arg st = ctable_ParseFilters ev arg st"
| "setup_option ev t cs table OPT_COUNTONLY arg st = Inr st"
| "setup_option ev t cs table OPT_OFFSET arg st = int_option ev arg (\<lambda>i. if i < 0 then Inl Negative_Offset else Inr (st\<lparr>offset := i\<rparr>))"
| "setup_option ev t cs table OPT_LIMIT arg st = int_option ev arg (\<lambda>i. if i < 0 then Inl Negative_Limit else Inr (st\<lparr>limit := i\<rparr>))"
| "setup_option ev t cs table OPT_CODE arg st = Inr (st\<lparr>has_code := True, codeBody := Some arg\<rparr>)"
| "setup_option ev t cs table OPT_POLL_CODE arg st =
     Inr (st\<lparr>pollInterval := (if pollInterval st = 0 then DEFAULT_POLL_INTERVAL else pollInterval st), pollCode := Some arg\<rparr>)"
| "setup_option ev t cs table OPT_POLL_INTERVAL arg st = int_option ev arg (\<lambda>i. Inr (st\<lparr>pollInterval := i\<rparr>))"
| "setup_option ev t cs table OPT_DELETE arg st = delete_option ev t cs arg st"
| "setup_option ev t cs table OPT_UPDATE arg st = update_option ev t arg st"
| "setup_option ev t cs table OPT_BUFFER arg st = int_option ev arg (\<lambda>i. Inr (st\<lparr>bufferResults := i\<rparr>))"
| "setup_option ev t cs table OPT_TAB arg st = Inr (st\<lparr>sepstr := arg\<rparr>)"
| "setup_option ev t cs table OPT_NULL_STRING arg st = Inr (st\<lparr>nullString := Some arg\<rparr>)"
| "setup_option ev t cs table OPT_QUOTE_TYPE arg st =
     (case ctable_parseQuoteType arg of None \<Rightarrow> Inl Bad_Quote_Type | Some q \<Rightarrow> Inr (st\<lparr>quoteType := q\<rparr>))"
| "setup_option ev t cs table OPT_WRITE_TABSEP arg st = write_tabsep_option ev arg st"
| "setup_option ev t cs table OPT_CURSOR arg st = cursor_option cs table arg st"

fun setup_options :: "setup_env \<Rightarrow> ctable \<Rightarrow> cursor_sys \<Rightarrow> string \<Rightarrow> string list \<Rightarrow> search_setup \<Rightarrow> setup_error + search_setup" where
  "setup_options ev t cs table [] st = Inr st"
| "setup_options ev t cs table [opt] st = Inl (if tcl_get_index searchOptions opt = None then Unknown_Option else Wrong_Num_Args)"
| "setup_options ev t cs table (opt # arg # objv) st =
     (case tcl_get_index searchOptions opt of
        None \<Rightarrow> Inl Unknown_Option
      | Some i \<Rightarrow>
          (case setup_option ev t cs table (search_options ! i) arg st of
             Inl e \<Rightarrow> Inl e
           | Inr st1 \<Rightarrow> setup_options ev t cs table objv st1))"

text \<open>\<^verbatim>\<open>ctable_checkForKey\<close>: the key is not written twice.\<close>

definition ctable_checkForKey :: "setup_env \<Rightarrow> search_setup \<Rightarrow> search_setup" where
  "ctable_checkForKey ev st =
     (if \<not> noKeys st \<and> keyField ev \<in> int ` set (case retrieveFields st of None \<Rightarrow> publicFieldList ev | Some fs \<Rightarrow> fs)
      then st\<lparr>noKeys := True\<rparr> else st)"

text \<open>
  The checks after the options.  A search that only counts the rows of the table is answered from the number
  of rows, \<^verbatim>\<open>TCL_RETURN\<close> in the code.
\<close>

datatype setup_result = Setup_Error setup_error | Setup_Count int search_setup | Setup_Ready search_setup

definition only_counts :: "search_setup \<Rightarrow> bool" where
  "only_counts st \<longleftrightarrow> nComponents st = 0 \<and> filters st = [] \<and> (retrieveFields st = None \<or> retrieveFields st = Some [])
     \<and> codeBody st = None \<and> pattern st = None \<and> rowVar st = None \<and> keyVar st = None"

definition quick_count :: "int \<Rightarrow> search_setup \<Rightarrow> int" where
  "quick_count n st =
     (let n1 = (if offset st \<noteq> 0 then (if n - offset st < 0 then 0 else n - offset st) else n)
      in if limit st \<noteq> 0 \<and> n1 > limit st then limit st else n1)"

definition code_error :: "search_setup \<Rightarrow> setup_error option" where
  "code_error st =
     (if codeBody st = None then None
      else if action st = ACTION_WRITE_TABSEP \<or> action st = ACTION_CURSOR then Some Code_With_Output
      else if rowVar st = None \<and> keyVar st = None then Some Code_Without_Variable
      else None)"

definition default_action :: "search_setup \<Rightarrow> search_setup" where
  "default_action st =
     (let st1 = (if codeBody st \<noteq> None \<and> action st = ACTION_NONE then st\<lparr>action := ACTION_CODE\<rparr> else st)
      in if tranType st1 \<noteq> TRAN_NONE \<and> action st1 = ACTION_NONE then st1\<lparr>action := ACTION_TRANSACTION_ONLY\<rparr> else st1)"

definition finish_setup :: "setup_env \<Rightarrow> search_setup \<Rightarrow> setup_result" where
  "finish_setup ev st =
     (case code_error st of
        Some e \<Rightarrow> Setup_Error e
      | None \<Rightarrow>
          let st1 = default_action st
          in if action st1 = ACTION_NONE \<and> only_counts st1 then Setup_Count (quick_count (int (count ev)) st1) st1
             else if action st1 = ACTION_WRITE_TABSEP then Setup_Ready (ctable_checkForKey ev st1)
             else if withFieldNames st1 then Setup_Error Field_Names_Without_Tabsep
             else if codeBody st1 = None \<and> sortFields st1 \<noteq> [] then Setup_Error Sort_Without_Output
             else Setup_Ready st1)"

text \<open>\<^verbatim>\<open>ctable_SetupSearch\<close>; \<open>objv\<close> are the arguments after the name of the table and of the method.\<close>

definition ctable_SetupSearch :: "setup_env \<Rightarrow> ctable \<Rightarrow> cursor_sys \<Rightarrow> string \<Rightarrow> statics \<Rightarrow> string list \<Rightarrow> int \<Rightarrow> setup_result" where
  "ctable_SetupSearch ev t cs table g objv indexField =
     (case setup_options ev t cs table objv (initial_search g indexField) of
        Inl e \<Rightarrow> Setup_Error e
      | Inr st \<Rightarrow> finish_setup ev st)"


section \<open>The search method\<close>

text \<open>
  \<^verbatim>\<open>ctable_TeardownSearch\<close>, with the private rows it deletes, in order.  Without components it returns before it
  frees the other lists.
\<close>

definition component_rows :: "component \<Rightarrow> addr list" where
  "component_rows c = filter (\<lambda>r. r \<noteq> 0) ([row1 c, row2 c, row3 c] @ (case inListRows c of None \<Rightarrow> [] | Some rows \<Rightarrow> rows))"

definition ctable_TeardownSearch :: "search_setup \<Rightarrow> addr list \<times> search_setup" where
  "ctable_TeardownSearch st =
     (let st1 = st\<lparr>filters := []\<rparr>
      in if components st1 = [] then ([], st1)
         else (concat (map component_rows (components st1)),
               st1\<lparr>components := [], sortFields := [], tranTable := None, clientData := [], retrieveFields := None\<rparr>))"

text \<open>
  \<^verbatim>\<open>ctable_SetupAndPerformSearch\<close>: the result, what the interpreter is told, the state of the search, and the
  private rows that were deleted.  The outer option is \<open>None\<close> when the code does not return, or reads
  components through \<^verbatim>\<open>NULL\<close>; this may happen when their number is left from an earlier \<^verbatim>\<open>-compare\<close>.
\<close>

definition perform_setup :: "setup_env \<Rightarrow> ctable \<Rightarrow> addr \<Rightarrow> search_setup \<Rightarrow> cursor_sys
    \<Rightarrow> (fault + tcl_code \<times> reply \<times> search_setup \<times> cursor_sys) option" where
  "perform_setup ev t a st cs =
     (if nComponents st \<noteq> length (components st) \<and> count ev \<noteq> 0 then None
      else map_option (map_sum id (\<lambda>(q, r, s, cs1). (q, r, search.extend s (search.more st), cs1)))
             (ctable_PerformSearch (search_env.truncate ev) t a (search.truncate st) cs))"

definition ctable_SetupAndPerformSearch :: "setup_env \<Rightarrow> ctable \<Rightarrow> addr \<Rightarrow> cursor_sys \<Rightarrow> string \<Rightarrow> statics \<Rightarrow> string list \<Rightarrow> int
    \<Rightarrow> (fault + tcl_code \<times> reply \<times> search_setup option \<times> addr list \<times> cursor_sys) option" where
  "ctable_SetupAndPerformSearch ev t a cs table g objv indexField =
     (case ctable_SetupSearch ev t cs table g objv indexField of
        Setup_Error e \<Rightarrow> Some (Inr (TCL_ERROR, No_Reply, None, [], cs))
      | Setup_Count n st \<Rightarrow>
          (let (freed, st1) = ctable_TeardownSearch st
           in Some (Inr (TCL_OK, Reply_Count n, Some st1, freed, cs)))
      | Setup_Ready st \<Rightarrow>
          map_option (map_sum id (\<lambda>(q, r, st1, cs1).
              let (freed, st2) = ctable_TeardownSearch st1 in (q, r, Some st2, freed, cs1)))
            (perform_setup ev t a st cs))"

section \<open>Patterns and strategies\<close>

text \<open>The comparison of a string with an anchored pattern, as \<^verbatim>\<open>gentable.tcl\<close> generates it.\<close>

fun anchored_match :: "(char \<Rightarrow> char) \<Rightarrow> string \<Rightarrow> string \<Rightarrow> bool" where
  "anchored_match lower field [] = True"
| "anchored_match lower field (m # ms) =
     (if m = CHR ''*'' then True
      else case field of
        [] \<Rightarrow> False
      | c # cs \<Rightarrow> if lower c \<noteq> lower m then False else anchored_match lower cs ms)"

text \<open>
  What a pattern means (\<^verbatim>\<open>Tcl_StringCaseMatch\<close>) as far as it has no bracket or backslash: a star stands for any
  string, a question mark for one character.
\<close>

fun glob :: "string \<Rightarrow> string \<Rightarrow> bool" where
  "glob [] s = (s = [])"
| "glob (p # ps) s =
     (if p = CHR ''*'' then list_ex (\<lambda>k. glob ps (drop k s)) [0..<Suc (length s)]
      else case s of [] \<Rightarrow> False | c # cs \<Rightarrow> (p = CHR ''?'' \<or> p = c) \<and> glob ps cs)"

abbreviation metachar :: "char \<Rightarrow> bool" where
  "metachar c \<equiv> c \<in> {CHR ''*'', CHR ''?'', CHR ''['', CHR '']'', CHR 0x5C}"

lemma pattern_loop_star: "pattern_loop s = Some True \<longleftrightarrow> (\<exists>q. s = q @ ''*'' \<and> \<not> list_ex metachar q)"
proof (induction s)
  case (Cons c s)
  show ?case
  proof (cases "c = CHR ''*''")
    case True
    then show ?thesis by (auto simp: Cons_eq_append_conv intro: exI [of _ "[]"])
  next
    case False
    then show ?thesis using Cons.IH by (auto simp: Cons_eq_append_conv)
  qed
qed simp

lemma pattern_check:
  "ctable_searchMatchPatternCheck s = MATCH_UNANCHORED \<longleftrightarrow> (\<exists>q. s = ''*'' @ q @ ''*'' \<and> \<not> list_ex metachar q)"
  "ctable_searchMatchPatternCheck s = MATCH_ANCHORED \<longleftrightarrow> s = [] \<or> (\<exists>c q. s = c # q @ ''*'' \<and> c \<noteq> CHR ''*'' \<and> \<not> list_ex metachar q)"
  using pattern_loop_star [of "tl s"]
  by (auto simp: ctable_searchMatchPatternCheck_def split: list.splits option.splits if_splits)

lemma glob_star: "glob ''*'' s"
  by (auto simp: list_ex_iff intro!: bexI [of _ "length s"])

lemma glob_plain: "\<not> list_ex metachar q \<Longrightarrow> glob (q @ p) s \<longleftrightarrow> (\<exists>t. s = q @ t \<and> glob p t)"
  by (induction q arbitrary: s) (auto split: list.splits)

lemma anchored_plain: "\<not> list_ex metachar q \<Longrightarrow> anchored_match (\<lambda>c. c) s (q @ ''*'') \<longleftrightarrow> (\<exists>t. s = q @ t)"
  by (induction q arbitrary: s) (auto split: list.splits)



end
