(* ===== verification/SetupCorrect.thy ===== *)
theory SetupCorrect
  imports SearchSetup
begin

text \<open>
  What a search that was set up without an error looks like, and the search method as a whole.
\<close>

section \<open>The state of a search that was set up\<close>

text \<open>
  A component as the parser makes it: only \<^verbatim>\<open>range\<close> has a second row, no pattern has rows for its prefix.
\<close>

definition component_parsed :: "setup_env \<Rightarrow> component \<Rightarrow> bool" where
  "component_parsed ev c \<longleftrightarrow> fieldID c < length (fieldNames ev) \<and> inListRows c = None \<and> row3 c = 0
     \<and> (row1 c \<noteq> 0 \<longleftrightarrow> comparisonType c \<notin> {COMP_FALSE, COMP_TRUE, COMP_NULL, COMP_NOTNULL, COMP_IN})
     \<and> (row2 c \<noteq> 0 \<longleftrightarrow> comparisonType c = COMP_RANGE)"

definition options_ok :: "setup_env \<Rightarrow> ctable \<Rightarrow> cursor_sys \<Rightarrow> search_setup \<Rightarrow> bool" where
  "options_ok ev t cs st \<longleftrightarrow>
     (0 \<le> offset st \<and> offset st < 2 ^ 31 \<and> 0 \<le> limit st \<and> limit st < 2 ^ 31)
   \<and> (if cursorName st = None then tranType st \<noteq> TRAN_CURSOR \<and> action st \<noteq> ACTION_CURSOR
      else tranType st = TRAN_CURSOR \<and> action st = ACTION_CURSOR)
   \<and> (tranType st = TRAN_DELETE \<longrightarrow> cu_chain cs = [] \<and> previous_fields ev = [] \<and> \<not> share_reader t)
   \<and> (tranType st = TRAN_UPDATE \<longrightarrow> \<not> share_reader t)
   \<and> (action st \<in> {ACTION_GET, ACTION_ARRAY, ACTION_ARRAY_WITH_NULLS, ACTION_ARRAY_GET, ACTION_ARRAY_GET_WITH_NULLS} \<longrightarrow> rowVar st \<noteq> None)
   \<and> (action st = ACTION_NONE \<longrightarrow> rowVar st = None) \<and> action st \<noteq> ACTION_CODE \<and> action st \<noteq> ACTION_TRANSACTION_ONLY
   \<and> (has_code st \<longleftrightarrow> codeBody st \<noteq> None)
   \<and> (\<forall>c\<in>set (components st). component_parsed ev c) \<and> length (clientData st) = length (components st)
   \<and> (components st = [] \<or> nComponents st = length (components st))
   \<and> (\<forall>(f, d)\<in>set (sortFields st). f < length (fieldNames ev) \<and> d \<in> {1, - 1})
   \<and> sequence st \<noteq> 0 \<and> matchCount st = 0 \<and> tranTable st = None \<and> search_cursor st = None
   \<and> acted st = [] \<and> deleted st = [] \<and> updated st = []"

lemma tcl_get_index_bound: "tcl_get_index tab s = Some i \<Longrightarrow> i < length tab \<and> tab ! i = s"
  by (auto simp: tcl_get_index_def find_Some_iff)

lemma prefix_rows_none: "prefix_rows ev f v = Some (0, 0)"
  by (simp add: prefix_rows_def prefix_loop_def split: list.splits)

lemma parse_match_rows: "map_sum id (\<lambda>(sm, y). (Some sm, y)) (parse_match ev ct f v) = Inr (sm, r2, r3) \<Longrightarrow> r2 = 0 \<and> r3 = 0"
  by (auto simp: parse_match_def prefix_rows_none Let_def split: if_splits)

lemma parse_values_ok:
  assumes "parse_values ev ct f vals = Inr (c, sm)" "f < length (fieldNames ev)" "\<And>v. private_row ev f v \<noteq> Some 0"
  shows "component_parsed ev c"
proof -
  note nz = assms(3)
  have nz': "private_row ev f v = Some r \<Longrightarrow> r \<noteq> 0" for v r using nz [of v] by auto
  show ?thesis
    using assms(1, 2)
    by (auto simp: parse_values_def component_parsed_def empty_component_def Let_def
        split: if_splits list.splits option.splits sum.splits dest!: parse_match_rows nz')
qed

lemma parse_terms_ok:
  assumes "\<And>f v. private_row ev f v \<noteq> Some 0"
  shows "parse_terms ev objs = Inr cs \<Longrightarrow> length cs = length objs \<and> (\<forall>(c, sm)\<in>set cs. component_parsed ev c)"
proof (induction objs arbitrary: cs)
  case (Cons obj objs)
  obtain c sm where c: "parse_term ev obj = Inr (c, sm)" using Cons.prems by (auto split: sum.splits)
  then have "component_parsed ev c"
    using assms tcl_get_index_bound [of "fieldNames ev"]
    by (auto simp: parse_term_def split: option.splits list.splits dest!: parse_values_ok)
  then show ?case using Cons c by (cases "parse_terms ev objs") auto
qed simp


lemma sort_fields_ok:
  assumes "ctable_ParseSortFieldList ev obj = Inr fs"
  shows "\<forall>(f, d)\<in>set fs. f < length (fieldNames ev) \<and> d \<in> {1, - 1}"
proof -
  obtain names where n: "list_elements ev obj = Some names" "those (map (sort_field_name ev) names) = Some fs"
    using assms by (auto simp: ctable_ParseSortFieldList_def split: option.splits)
  have ok: "f < length (fieldNames ev) \<and> d \<in> {1, - 1}" if "sort_field_name ev name = Some (f, d)" for name f d
    using that by (auto simp: sort_field_name_def dest!: tcl_get_index_bound split: list.splits if_splits char.splits bool.splits)
  show ?thesis
    using n(2)
  proof (induction names arbitrary: fs)
    case (Cons name names)
    then obtain x fs' where "sort_field_name ev name = Some x" "those (map (sort_field_name ev) names) = Some fs'" "fs = x # fs'"
      by (auto split: option.splits)
    then show ?case using Cons.IH ok [of name "fst x" "snd x"] by (auto split: prod.splits)
  qed simp
qed

lemma initial_ok: "options_ok ev t cs (initial_search g i)"
proof -
  have "next_sequence n \<noteq> 0" for n
  proof (cases "n + 1 = 0")
    case True
    have "n + 2 = (n + 1) + 1" by simp
    then have "n + 2 = 1" unfolding True by simp
    then have "n + 2 \<noteq> 0" by (metis zero_neq_one)
    then show ?thesis unfolding next_sequence_def if_P [OF True] .
  qed (simp add: next_sequence_def)
  then show ?thesis by (simp add: options_ok_def initial_search_def)
qed

lemma parse_search_ok:
  assumes "\<And>f v. private_row ev f v \<noteq> Some 0" "options_ok ev t cs st" "ctable_ParseSearch ev obj st = Inr st'"
  shows "options_ok ev t cs st'"
proof -
  obtain cs' n where st': "st' = st\<lparr>components := map fst cs', nComponents := n, clientData := map snd cs'\<rparr>"
      "\<forall>(c, sm)\<in>set cs'. component_parsed ev c" "cs' = [] \<or> n = length cs'"
  proof (cases "list_elements ev obj")
    case (Some objs)
    show ?thesis
    proof (cases objs)
      case Nil
      then show ?thesis using that [of "[]" "nComponents st"] assms(3) Some by (simp add: ctable_ParseSearch_def)
    next
      case (Cons o1 os)
      then obtain cs' where cs': "parse_terms ev objs = Inr cs'"
          "st' = st\<lparr>components := map fst cs', nComponents := length objs, clientData := map snd cs'\<rparr>"
        using assms(3) Some by (auto simp: ctable_ParseSearch_def simp del: parse_terms.simps split: sum.splits)
      have "length cs' = length objs" "\<forall>(c, sm)\<in>set cs'. component_parsed ev c"
        using parse_terms_ok [OF assms(1) cs'(1)] by blast+
      then show ?thesis using that [OF cs'(2)] by simp
    qed
  qed (use assms(3) in \<open>simp add: ctable_ParseSearch_def\<close>)
  have "\<forall>c\<in>set (map fst cs'). component_parsed ev c" using st'(2) by auto
  then show ?thesis using assms(2) st'(3) by (simp add: options_ok_def st'(1))
qed

lemma get_int_range: "- (2 ^ 31) \<le> sint (i :: 32 word) \<and> sint i < 2 ^ 31"
  using sint_greater_eq [of i] sint_less [of i] by simp

text \<open>Most options only set fields that the invariant does not look at.\<close>

lemma options_ok_simps [simp]:
  fixes st :: search_setup
  shows "options_ok ev t cs (st\<lparr>retrieveFields := a\<rparr>) = options_ok ev t cs st" "options_ok ev t cs (st\<lparr>noKeys := b\<rparr>) = options_ok ev t cs st"
    "options_ok ev t cs (st\<lparr>reqIndexField := c\<rparr>) = options_ok ev t cs st" "options_ok ev t cs (st\<lparr>withFieldNames := d\<rparr>) = options_ok ev t cs st"
    "options_ok ev t cs (st\<lparr>keyVar := e\<rparr>) = options_ok ev t cs st" "options_ok ev t cs (st\<lparr>pattern := f\<rparr>) = options_ok ev t cs st"
    "options_ok ev t cs (st\<lparr>filters := g\<rparr>) = options_ok ev t cs st" "options_ok ev t cs (st\<lparr>pollInterval := h\<rparr>) = options_ok ev t cs st"
    "options_ok ev t cs (st\<lparr>pollCode := i\<rparr>) = options_ok ev t cs st" "options_ok ev t cs (st\<lparr>bufferResults := j\<rparr>) = options_ok ev t cs st"
    "options_ok ev t cs (st\<lparr>sepstr := k\<rparr>) = options_ok ev t cs st" "options_ok ev t cs (st\<lparr>nullString := l\<rparr>) = options_ok ev t cs st"
    "options_ok ev t cs (st\<lparr>quoteType := m\<rparr>) = options_ok ev t cs st" "options_ok ev t cs (st\<lparr>counters := n\<rparr>) = options_ok ev t cs st"
    "options_ok ev t cs (st\<lparr>tabsepChannel := p\<rparr>) = options_ok ev t cs st" "options_ok ev t cs (st\<lparr>tranData := q\<rparr>) = options_ok ev t cs st"
  by (simp_all add: options_ok_def)

lemma set_action_ok:
  assumes "options_ok ev t cs st" "set_action a v st = Inr st'"
    "a \<in> {ACTION_GET, ACTION_ARRAY, ACTION_ARRAY_WITH_NULLS, ACTION_ARRAY_GET, ACTION_ARRAY_GET_WITH_NULLS}"
  shows "options_ok ev t cs st'"
proof -
  have st': "st' = st\<lparr>action := a, rowVar := Some v\<rparr>" "action st = ACTION_NONE"
    using assms(2) by (auto simp: set_action_def split: if_splits)
  have a: "a \<noteq> ACTION_NONE" "a \<noteq> ACTION_CURSOR" "a \<noteq> ACTION_CODE" "a \<noteq> ACTION_TRANSACTION_ONLY" using assms(3) by auto
  show ?thesis using assms(1) st'(2) a by (cases "cursorName st") (simp_all add: options_ok_def st'(1))
qed

lemma write_tabsep_ok:
  assumes "options_ok ev t cs st" "write_tabsep_option ev arg st = Inr st'"
  shows "options_ok ev t cs st'"
proof -
  have st': "st' = st\<lparr>action := ACTION_WRITE_TABSEP, tabsepChannel := Some arg\<rparr>" "action st = ACTION_NONE"
    using assms(2) by (auto simp: write_tabsep_option_def split: if_splits option.splits)
  show ?thesis using assms(1) st'(2) by (cases "cursorName st") (simp_all add: options_ok_def st'(1))
qed

lemma delete_option_ok:
  assumes "options_ok ev t cs st" "delete_option ev t cs arg st = Inr st'"
  shows "options_ok ev t cs st'"
proof -
  obtain i where i: "get_int ev arg = Some i" using assms(2) by (auto simp: delete_option_def split: option.splits)
  show ?thesis
  proof (cases "i = 0")
    case True
    then have "st' = (if tranType st = TRAN_DELETE then st\<lparr>tranType := TRAN_NONE\<rparr> else st)"
      using assms(2) i by (simp add: delete_option_def)
    then show ?thesis using assms(1) by (cases "tranType st = TRAN_DELETE"; cases "cursorName st") (simp_all add: options_ok_def)
  next
    case False
    then have "cu_chain cs = []" "previous_fields ev = []" "\<not> share_reader t" "tranType st = TRAN_NONE \<or> tranType st = TRAN_DELETE"
        "st' = st\<lparr>tranType := TRAN_DELETE\<rparr>"
      using assms(2) i by (simp_all add: delete_option_def split: if_splits)
    then show ?thesis using assms(1) by (cases "cursorName st") (simp_all add: options_ok_def)
  qed
qed

lemma update_option_ok:
  assumes "options_ok ev t cs st" "update_option ev t arg st = Inr st'"
  shows "options_ok ev t cs st'"
proof -
  have "\<not> share_reader t" "tranType st = TRAN_NONE \<or> tranType st = TRAN_UPDATE"
      "st' = st\<lparr>tranType := TRAN_UPDATE, tranData := list_elements ev arg\<rparr>"
    using assms(2) by (simp_all add: update_option_def split: if_splits)
  then show ?thesis using assms(1) by (cases "cursorName st") (simp_all add: options_ok_def)
qed

lemma cursor_option_ok:
  assumes "options_ok ev t cs st" "cursor_option cs table arg st = Inr st'"
  shows "options_ok ev t cs st'"
proof -
  have "\<exists>g name. st' = st\<lparr>counters := g\<rparr>\<lparr>tranType := TRAN_CURSOR, action := ACTION_CURSOR, cursorName := Some name\<rparr>"
  proof (cases "arg = ''#auto''")
    case True
    then show ?thesis using assms(2) by (auto simp: cursor_option_def Let_def split: if_splits)
  next
    case False
    then show ?thesis using assms(2)
      by (intro exI [of _ "counters st"] exI [of _ arg]) (auto simp: cursor_option_def Let_def split: if_splits)
  qed
  then obtain name g where st': "st' = st\<lparr>counters := g\<rparr>\<lparr>tranType := TRAN_CURSOR, action := ACTION_CURSOR, cursorName := Some name\<rparr>"
    by blast
  have "options_ok ev t cs (st\<lparr>counters := g\<rparr>)" using assms(1) by simp
  then show ?thesis unfolding st' by (simp add: options_ok_def)
qed

lemma number_option_ok:
  assumes "options_ok ev t cs st" "int_option ev arg (\<lambda>i. if i < 0 then Inl Negative_Offset else Inr (st\<lparr>offset := i\<rparr>)) = Inr st'
    \<or> int_option ev arg (\<lambda>i. if i < 0 then Inl Negative_Limit else Inr (st\<lparr>limit := i\<rparr>)) = Inr st'"
  shows "options_ok ev t cs st'"
proof -
  obtain i where i: "get_int ev arg = Some i" using assms(2) by (auto simp: int_option_def split: option.splits)
  have "st' = st\<lparr>offset := sint i\<rparr> \<or> st' = st\<lparr>limit := sint i\<rparr>" "0 \<le> sint i"
    using assms(2) by (auto simp: int_option_def i split: if_splits)
  then show ?thesis using assms(1) get_int_range [of i] by (elim disjE) (simp_all add: options_ok_def)
qed

lemma setup_option_ok:
  assumes "\<And>f v. private_row ev f v \<noteq> Some 0" "options_ok ev t cs st" "setup_option ev t cs table opt arg st = Inr st'"
  shows "options_ok ev t cs st'"
proof (cases opt)
  case OPT_COMPARE
  then show ?thesis using parse_search_ok [OF assms(1, 2)] assms(3) by simp
next
  case OPT_SORT
  then obtain fs where fs: "ctable_ParseSortFieldList ev arg = Inr fs" "st' = st\<lparr>sortFields := fs\<rparr>"
    using assms(3) by (cases "ctable_ParseSortFieldList ev arg") auto
  show ?thesis using assms(2) sort_fields_ok [OF fs(1)] by (simp add: options_ok_def fs(2))
next
  case OPT_FIELDS
  then obtain fs where "st' = st\<lparr>retrieveFields := Some fs\<rparr>" using assms(3) by (cases "ctable_ParseFieldList ev arg") auto
  then show ?thesis using assms(2) by simp
next
  case OPT_FILTER
  then obtain fs where "st' = st\<lparr>filters := fs\<rparr>" using assms(3) by (auto simp: ctable_ParseFilters_def split: option.splits)
  then show ?thesis using assms(2) by simp
next
  case OPT_CODE
  then have "st' = st\<lparr>has_code := True, codeBody := Some arg\<rparr>" using assms(3) by simp
  then show ?thesis using assms(2) by (simp add: options_ok_def)
next
  case OPT_DELETE
  then show ?thesis using delete_option_ok [OF assms(2)] assms(3) by simp
next
  case OPT_UPDATE
  then show ?thesis using update_option_ok [OF assms(2)] assms(3) by simp
next
  case OPT_LIMIT
  then show ?thesis using number_option_ok [OF assms(2), of arg st'] assms(3) by simp
next
  case OPT_OFFSET
  then show ?thesis using number_option_ok [OF assms(2), of arg st'] assms(3) by simp
next
  case OPT_POLL_CODE
  then have "st' = st\<lparr>pollInterval := (if pollInterval st = 0 then DEFAULT_POLL_INTERVAL else pollInterval st)\<rparr>\<lparr>pollCode := Some arg\<rparr>"
    using assms(3) by simp
  then show ?thesis using assms(2) by simp
qed (use assms(2, 3) set_action_ok [OF assms(2)] write_tabsep_ok [OF assms(2)]
      cursor_option_ok [OF assms(2)] in \<open>auto simp: boolean_option_def int_option_def split: option.splits\<close>)

lemma setup_options_ok:
  shows "(\<And>f v. private_row ev f v \<noteq> Some 0) \<Longrightarrow> options_ok ev t cs st \<Longrightarrow> setup_options ev t cs table objv st = Inr st'
    \<Longrightarrow> options_ok ev t cs st'"
proof (induction ev t cs table objv st rule: setup_options.induct)
  case (3 ev t cs table opt arg objv st)
  obtain i st1 where i: "tcl_get_index searchOptions opt = Some i" "setup_option ev t cs table (search_options ! i) arg st = Inr st1"
      "setup_options ev t cs table objv st1 = Inr st'"
    using "3.prems"(3) by (auto split: option.splits sum.splits)
  then show ?case using "3.IH" [OF i(1, 2)] "3.prems"(1) setup_option_ok [OF "3.prems"(1, 2) i(2)] by simp
qed auto


text \<open>After the last checks.\<close>

definition ready_ok :: "setup_env \<Rightarrow> ctable \<Rightarrow> cursor_sys \<Rightarrow> search_setup \<Rightarrow> bool" where
  "ready_ok ev t cs st \<longleftrightarrow>
     (0 \<le> offset st \<and> offset st < 2 ^ 31 \<and> 0 \<le> limit st \<and> limit st < 2 ^ 31)
   \<and> (action st = ACTION_NONE \<longrightarrow> tranType st = TRAN_NONE \<and> \<not> has_code st)
   \<and> (tranType st = TRAN_CURSOR \<longleftrightarrow> action st = ACTION_CURSOR) \<and> (action st = ACTION_CURSOR \<longleftrightarrow> cursorName st \<noteq> None)
   \<and> (has_code st \<longleftrightarrow> codeBody st \<noteq> None)
   \<and> (has_code st \<longrightarrow> action st \<notin> {ACTION_WRITE_TABSEP, ACTION_CURSOR, ACTION_TRANSACTION_ONLY})
   \<and> (has_code st \<and> action st = ACTION_CODE \<longrightarrow> keyVar st \<noteq> None)
   \<and> (action st \<in> {ACTION_GET, ACTION_ARRAY, ACTION_ARRAY_WITH_NULLS, ACTION_ARRAY_GET, ACTION_ARRAY_GET_WITH_NULLS} \<longrightarrow> rowVar st \<noteq> None)
   \<and> (sortFields st \<noteq> [] \<longrightarrow> has_code st \<or> action st = ACTION_WRITE_TABSEP)
   \<and> (tranType st = TRAN_DELETE \<longrightarrow> cu_chain cs = [] \<and> previous_fields ev = [] \<and> \<not> share_reader t)
   \<and> (tranType st = TRAN_UPDATE \<longrightarrow> \<not> share_reader t)
   \<and> (\<forall>c\<in>set (components st). component_parsed ev c) \<and> length (clientData st) = length (components st)
   \<and> (components st = [] \<or> nComponents st = length (components st))
   \<and> (\<forall>(f, d)\<in>set (sortFields st). f < length (fieldNames ev) \<and> d \<in> {1, - 1})
   \<and> sequence st \<noteq> 0 \<and> matchCount st = 0 \<and> tranTable st = None \<and> search_cursor st = None
   \<and> acted st = [] \<and> deleted st = [] \<and> updated st = []"

lemma ready_okD:
  assumes "ready_ok ev t cs st"
  shows "0 \<le> offset st" "0 \<le> limit st" "action st = ACTION_NONE \<Longrightarrow> tranType st = TRAN_NONE"
    "action st \<noteq> ACTION_CURSOR \<Longrightarrow> tranType st \<noteq> TRAN_CURSOR" "action st \<noteq> ACTION_CURSOR \<Longrightarrow> cursorName st = None"
    "tranType st \<noteq> TRAN_CURSOR \<Longrightarrow> action st \<noteq> ACTION_CURSOR" "search_cursor st = None" "acted st = []" "deleted st = []"
    "components st = [] \<or> nComponents st = length (components st)"
    "codeBody st \<noteq> None \<Longrightarrow> action st \<notin> {ACTION_NONE, ACTION_WRITE_TABSEP, ACTION_CURSOR, ACTION_TRANSACTION_ONLY}"
    "codeBody st \<noteq> None \<Longrightarrow> action st = ACTION_CODE \<Longrightarrow> keyVar st \<noteq> None"
  using assms unfolding ready_ok_def by blast+

lemma default_action_simps [simp]:
  fixes st :: search_setup
  shows "sortFields (default_action st) = sortFields st" "codeBody (default_action st) = codeBody st" "tranType (default_action st) = tranType st"
    "withFieldNames (default_action st) = withFieldNames st" "components (default_action st) = components st"
  by (simp_all add: default_action_def Let_def)

lemma default_action_ready:
  assumes "options_ok ev t cs st" "code_error st = None" "codeBody st = None \<and> sortFields st \<noteq> [] \<longrightarrow> action (default_action st) = ACTION_WRITE_TABSEP"
  shows "ready_ok ev t cs (default_action st)"
proof (cases "codeBody st")
  case None
  then show ?thesis
    using assms(1, 3)
    by (cases "cursorName st"; cases "tranType st = TRAN_NONE"; cases "action st = ACTION_NONE")
      (simp_all add: options_ok_def ready_ok_def default_action_def)
next
  case (Some c)
  then show ?thesis
    using assms(1, 2)
    by (cases "cursorName st"; cases "action st = ACTION_NONE")
      (simp_all add: options_ok_def ready_ok_def default_action_def code_error_def Let_def split: if_splits)
qed

lemma check_key_ready: "ready_ok ev t cs (ctable_checkForKey ev st) = ready_ok ev t cs st"
  by (simp add: ctable_checkForKey_def ready_ok_def)


lemma setup_ready_ok:
  assumes "\<And>f v. private_row ev f v \<noteq> Some 0" "ctable_SetupSearch ev t cs table g objv i = Setup_Ready st"
  shows "ready_ok ev t cs st"
proof -
  obtain st0 where st0: "setup_options ev t cs table objv (initial_search g i) = Inr st0" "finish_setup ev st0 = Setup_Ready st"
    using assms(2) by (auto simp: ctable_SetupSearch_def split: sum.splits)
  have ok: "options_ok ev t cs st0" by (rule setup_options_ok [OF assms(1) initial_ok st0(1)])
  have ce: "code_error st0 = None" using st0(2) by (simp add: finish_setup_def split: option.splits)
  let ?d = "default_action st0"
  have "(st = ctable_checkForKey ev ?d \<or> st = ?d) \<and> (codeBody st0 = None \<and> sortFields st0 \<noteq> [] \<longrightarrow> action ?d = ACTION_WRITE_TABSEP)"
    using st0(2) ce by (auto simp: finish_setup_def Let_def split: if_splits)
  then show ?thesis using default_action_ready [OF ok ce] check_key_ready by auto
qed

text \<open>
  C9. Setting a search up.  Whatever the options and their order are, a search that is set up without an
  error is well formed: offset and limit are not negative, only a search for rows changes rows, a cursor has
  a name and no code, code has a variable to put the row or the key in, sorting has code or a channel,
  a reader changes no rows, \<^verbatim>\<open>-delete\<close> does not run beside cursors or inside of another search, each
  component names a field and has the rows its comparison needs and no others, and the number of
  components is right unless there is no list of components.
\<close>

theorem setup_well_formed:
  assumes "\<And>f v. private_row ev f v \<noteq> Some 0" and "ctable_SetupSearch ev t cs table g objv i = Setup_Ready st"
  shows "ready_ok ev t cs st"
  by (rule setup_ready_ok [OF assms])

section \<open>Counting without a search\<close>

lemma setup_count_ok:
  assumes "\<And>f v. private_row ev f v \<noteq> Some 0" "ctable_SetupSearch ev t cs table g objv i = Setup_Count n st"
  shows "options_ok ev t cs st" "action st = ACTION_NONE" "tranType st = TRAN_NONE" "components st = []" "filters st = []" "pattern st = None"
    "n = quick_count (int (count ev)) st"
proof -
  obtain st0 where st0: "setup_options ev t cs table objv (initial_search g i) = Inr st0" "finish_setup ev st0 = Setup_Count n st"
    using assms(2) by (auto simp: ctable_SetupSearch_def split: sum.splits)
  have ok: "options_ok ev t cs st0" by (rule setup_options_ok [OF assms(1) initial_ok st0(1)])
  have st: "st = default_action st0" "action st = ACTION_NONE" "only_counts st" "n = quick_count (int (count ev)) st"
    using st0(2) by (auto simp: finish_setup_def Let_def split: option.splits if_splits)
  have "st = st0" "tranType st0 = TRAN_NONE"
    using st(1, 2) by (auto simp: default_action_def Let_def split: if_splits)
  then show "options_ok ev t cs st" "tranType st = TRAN_NONE" using ok by simp_all
  then have "components st = [] \<or> nComponents st = length (components st)" by (simp add: options_ok_def)
  then show "components st = []" using st(3) by (auto simp: only_counts_def)
  show "action st = ACTION_NONE" "filters st = []" "pattern st = None" "n = quick_count (int (count ev)) st"
    using st by (simp_all add: only_counts_def)
qed

lemma truncate_search [simp]:
  "offset (search.truncate st) = offset st" "limit (search.truncate st) = limit st" "action (search.truncate st) = action st"
  "tranType (search.truncate st) = tranType st" "components (search.truncate st) = components st" "filters (search.truncate st) = filters st"
  "pattern (search.truncate st) = pattern st" "sortFields (search.truncate st) = sortFields st" "tranData (search.truncate st) = tranData st"
  "cursorName (search.truncate st) = cursorName st" "search_cursor (search.truncate st) = search_cursor st" "acted (search.truncate st) = acted st"
  "deleted (search.truncate st) = deleted st" "updated (search.truncate st) = updated st" "bufferResults (search.truncate st) = bufferResults st"
  "reqIndexField (search.truncate st) = reqIndexField st" "has_code (search.truncate st) = has_code st"
  by (simp_all add: search.defs)

lemma truncate_env [simp]:
  "count (search_env.truncate ev) = count ev" "row_action (search_env.truncate ev) = row_action ev"
  "sort_compare (search_env.truncate ev) = sort_compare ev" "set_field (search_env.truncate ev) = set_field ev"
  "keyField (search_env.truncate ev) = keyField ev" "in_row (search_env.truncate ev) = in_row ev"
  by (simp_all add: search_env.defs)

text \<open>
  C10. Counting without a search.  When a search asks for nothing but the number of rows, it is answered from the
  number of rows of the table.  This is the answer that performing the search would have given, for every offset
  and limit whose sum is an \<^verbatim>\<open>int\<close>.
\<close>

theorem quick_count_exact:
  assumes "\<And>f v. private_row ev f v \<noteq> Some 0" and "ctable_SetupSearch ev t cs table g objv i = Setup_Count n st"
    and "searchable (search_env.truncate ev) t rows ps rs" and "offset st + limit st < 2 ^ 31"
    and "\<And>as row. goes_on (row_action ev as row)" and "comparator (sort_compare ev (sortFields st))"
  shows "\<exists>s'. ctable_PerformSearch (search_env.truncate ev) t a (search.truncate st) cs = Some (Inr (TCL_OK, Reply_Count n, s', cs))"
proof -
  let ?ev = "search_env.truncate ev" and ?s = "search.truncate st"
  note C = setup_count_ok [OF assms(1, 2)]
  have o: "0 \<le> offset st" "0 \<le> limit st" "cursorName st = None" "search_cursor st = None"
    using C(1, 3) by (auto simp: options_ok_def split: if_splits)
  have ok: "search_ok ?ev t ?s"
    using assms(4, 5) o C by (simp add: search_ok_def update_ok_def runs_on_def stale_list_def)
  obtain w xs s' where R: "mset xs = mset (filter (row_matches ?ev ?s) rows)"
      "ctable_PerformSearch ?ev t a ?s cs = Some (Inr (TCL_OK, Reply_Count (int (length (window ?s xs))), s', cs))"
    using search_finds [OF assms(3) ok, of a cs] C o assms(6) by (auto simp: immediate_def)
  have "row_matches ?ev ?s r" for r using C by (simp add: row_matches_def pre_match_def)
  then have "length xs = count ev" using R(1) searchableD(5) [OF assms(3)] by (metis filter_True mset_eq_length truncate_env(1))
  moreover have "int (length (window ?s xs)) = quick_count (int (length xs)) st"
    using o by (auto simp: window_def quick_count_def Let_def)
  ultimately show ?thesis using R(2) C(7) by auto
qed


section \<open>The search method as a whole\<close>

lemma truncate_extend [simp]:
  "search.truncate (search.extend s m) = s" "search_env.truncate (search_env.extend ev' m') = ev'"
  by (cases s, simp add: search.defs) (cases ev', simp add: search_env.defs)

lemma extend_search [simp]:
  "components (search.extend s m) = components s" "acted (search.extend s m) = acted s" "deleted (search.extend s m) = deleted s"
  "updated (search.extend s m) = updated s"
  by (simp_all add: search.defs)

lemma teardown_freed:
  "ctable_TeardownSearch st = (concat (map component_rows (components st)), snd (ctable_TeardownSearch st))"
  "acted (snd (ctable_TeardownSearch st)) = acted st" "deleted (snd (ctable_TeardownSearch st)) = deleted st"
  "updated (snd (ctable_TeardownSearch st)) = updated st"
  by (simp_all add: ctable_TeardownSearch_def Let_def)


section \<open>Components that are gone\<close>

lemma option_index:
  "tcl_get_index searchOptions ''-compare'' = Some 5" "tcl_get_index searchOptions ''-key'' = Some 10"
  "tcl_get_index searchOptions ''-code'' = Some 4" "tcl_get_index searchOptions ''-limit'' = Some 12"
  "search_options ! 5 = OPT_COMPARE" "search_options ! 10 = OPT_KEYVAR" "search_options ! 4 = OPT_CODE" "search_options ! 12 = OPT_LIMIT"
  by code_simp+

text \<open>
  A second, empty \<^verbatim>\<open>-compare\<close>.  It clears the list of components, and leaves their number: the
  options are accepted, and a search of a table that has rows goes through \<^verbatim>\<open>NULL\<close> to a component.
\<close>

theorem empty_compare_last:
  assumes "list_elements ev terms = Some [term]" and "parse_term ev term = Inr c" and "list_elements ev none = Some []"
    and "0 < count ev"
  shows "\<exists>st. ctable_SetupSearch ev t cs table g [''-compare'', terms, ''-compare'', none, ''-key'', k, ''-code'', code] i = Setup_Ready st
    \<and> components st = [] \<and> nComponents st = 1
    \<and> ctable_SetupAndPerformSearch ev t a cs table g [''-compare'', terms, ''-compare'', none, ''-key'', k, ''-code'', code] i = None"
proof -
  obtain st where "ctable_SetupSearch ev t cs table g [''-compare'', terms, ''-compare'', none, ''-key'', k, ''-code'', code] i = Setup_Ready st"
      "components st = []" "nComponents st = 1"
    using assms(1-3)
    by (simp add: ctable_SetupSearch_def option_index ctable_ParseSearch_def initial_search_def finish_setup_def code_error_def
        default_action_def)
  then show ?thesis using assms(4) by (simp add: ctable_SetupAndPerformSearch_def perform_setup_def)
qed

section \<open>Witnesses\<close>

text \<open>An interpreter that knows a few strings, over the sample table.\<close>

definition sample_setup_env :: setup_env where
  "sample_setup_env = search_env.extend sample_search_env
     \<lparr>list_elements = (\<lambda>s. if s = ''terms'' then Some [''term''] else if s = ''term'' then Some [''>='', ''f'', ''v''] else None),
      get_int = (\<lambda>s. if s = ''1'' then Some 1 else None), get_boolean = (\<lambda>s. None), fieldNames = [''f'', ''g''],
      string_field = (\<lambda>f. True), private_row = (\<lambda>f v. Some 40), filterNames = [], filterFunctions = (\<lambda>i v n r. TCL_OK),
      publicFieldList = [0, 1], channel_writable = (\<lambda>c. None)\<rparr>"

definition sample_statics :: statics where
  "sample_statics = \<lparr>staticSequence = - 1, auto_cursor_id = 0\<rparr>"

definition sample_args :: "string list" where
  "sample_args = [''-compare'', ''terms'', ''-key'', ''k'', ''-code'', ''c'']"

lemma sample_setup: "\<exists>st. ctable_SetupSearch sample_setup_env t sample_cursors ''tab'' sample_statics sample_args (- 2) = Setup_Ready st
    \<and> search.truncate st = sample_search\<lparr>action := ACTION_CODE\<rparr> \<and> nComponents st = 1"
proof -
  let ?env = "sample_setup_env"
  note opts = option_index
  have names: "tcl_get_index searchTerms ''>='' = Some 8" "tcl_get_index [''f'', ''g''] ''f'' = Some 0" "comp_types ! 8 = COMP_GE"
    by code_simp+
  have env: "list_elements ?env ''terms'' = Some [''term'']" "list_elements ?env ''term'' = Some [''>='', ''f'', ''v'']"
      "fieldNames ?env = [''f'', ''g'']" "private_row ?env 0 ''v'' = Some 40"
    by (simp_all add: sample_setup_env_def search_env.defs)
  have comp: "\<exists>sm. parse_terms ?env [''term''] = Inr [(sample_component, sm)]"
    by (simp add: parse_term_def env names parse_values_def empty_component_def sample_component_def)
  show ?thesis
    using comp
    by (auto simp: ctable_SetupSearch_def sample_args_def opts ctable_ParseSearch_def env initial_search_def finish_setup_def
        code_error_def default_action_def sample_search_def search.defs INDEX_ANY_def simp del: parse_terms.simps)
qed

lemma sample_private: "private_row sample_setup_env f v \<noteq> Some 0"
  by (simp add: sample_setup_env_def search_env.defs)

lemma empty_compare_last_witness:
  "\<exists>st. ctable_SetupSearch (sample_setup_env\<lparr>list_elements := \<lambda>s. if s = [] then Some [] else if s = ''all'' then Some [''a''] else Some [''null'', ''f'']\<rparr>)
      sample_indexed sample_cursors ''tab'' sample_statics [''-compare'', ''all'', ''-compare'', [], ''-key'', ''k'', ''-code'', ''c''] (- 2) = Setup_Ready st
    \<and> components st = [] \<and> nComponents st = 1"
proof -
  let ?env = "sample_setup_env\<lparr>list_elements := \<lambda>s. if s = [] then Some [] else if s = ''all'' then Some [''a''] else Some [''null'', ''f'']\<rparr>"
  have names: "tcl_get_index searchTerms ''null'' = Some 2" "tcl_get_index [''f'', ''g''] ''f'' = Some 0" "comp_types ! 2 = COMP_NULL"
    by code_simp+
  have env: "list_elements ?env ''all'' = Some [''a'']" "list_elements ?env [] = Some []" "fieldNames ?env = [''f'', ''g'']"
      "list_elements ?env ''a'' = Some [''null'', ''f'']" "0 < count ?env"
    by (simp_all add: sample_setup_env_def sample_search_env_def search_env.defs)
  have "parse_term ?env ''a'' = Inr (empty_component COMP_NULL 0, None)"
    unfolding parse_term_def env(4) by (simp add: names env(3) parse_values_def)
  from empty_compare_last [OF env(1) this env(2, 5)] show ?thesis by blast
qed

lemma setup_well_formed_witness:
  "\<exists>st. ctable_SetupSearch sample_setup_env sample_indexed sample_cursors ''tab'' sample_statics sample_args (- 2) = Setup_Ready st
    \<and> ready_ok sample_setup_env sample_indexed sample_cursors st"
  using sample_setup [of sample_indexed] setup_well_formed [OF sample_private] by blast


definition count_args :: "string list" where
  "count_args = [''-limit'', ''1'']"

lemma count_setup: "\<exists>st. ctable_SetupSearch sample_setup_env t sample_cursors ''tab'' sample_statics count_args (- 2) = Setup_Count 1 st
    \<and> offset st = 0 \<and> limit st = 1 \<and> sortFields st = []"
proof -
  note opts = option_index
  have env: "get_int sample_setup_env ''1'' = Some 1" "count sample_setup_env = 2"
    by (simp_all add: sample_setup_env_def sample_search_env_def search_env.defs)
  show ?thesis
    by (simp add: ctable_SetupSearch_def count_args_def opts int_option_def env initial_search_def finish_setup_def code_error_def
        default_action_def only_counts_def quick_count_def)
qed

lemma quick_count_exact_witness:
  "\<exists>t s'. skipLists t 0 \<noteq> None
    \<and> (\<exists>st. ctable_SetupSearch sample_setup_env t sample_cursors ''tab'' sample_statics count_args (- 2) = Setup_Count 1 st
       \<and> ctable_PerformSearch (search_env.truncate sample_setup_env) t 64 (search.truncate st) sample_cursors
           = Some (Inr (TCL_OK, Reply_Count 1, s', sample_cursors)))"
proof -
  obtain t ps rs where t: "searchable sample_search_env t [24, 40] ps rs" "skipLists t 0 \<noteq> None"
    by (rule sample_table_searchable)
  from t(1) have ok: "searchable (search_env.truncate sample_setup_env) t [24, 40] ps rs" by (simp add: sample_setup_env_def)
  obtain st where st: "ctable_SetupSearch sample_setup_env t sample_cursors ''tab'' sample_statics count_args (- 2) = Setup_Count 1 st"
      "offset st = 0" "limit st = 1" "sortFields st = []"
    using count_setup by blast
  have h: "offset st + limit st < 2 ^ 31" "goes_on (row_action sample_setup_env as row)" "comparator (sort_compare sample_setup_env (sortFields st))"
    for as row
    using st sample_order by (simp_all add: sample_setup_env_def sample_search_env_def search_env.defs)
  have "\<exists>s'. ctable_PerformSearch (search_env.truncate sample_setup_env) t 64 (search.truncate st) sample_cursors
      = Some (Inr (TCL_OK, Reply_Count 1, s', sample_cursors))"
    by (rule quick_count_exact [OF sample_private st(1) ok h])
  moreover note t(2)
  ultimately show ?thesis using st(1) by blast
qed


end
