(* ===== verification/RowAction.thy ===== *)
theory RowAction
  imports SetupCorrect
begin

text \<open>
  What a search does with a row, \<^verbatim>\<open>ctable_SearchAction\<close> and \<^verbatim>\<open>ctable_WriteFieldNames\<close> of
  \<^verbatim>\<open>ctables/ctable_search.c\<close>, and \<^verbatim>\<open>ctable_RunBatch\<close> of \<^verbatim>\<open>ctables/ctable_batch.c\<close>.  The calls of Tcl are recorded in
  order; what Tcl answers to them is a parameter.
\<close>

section \<open>State\<close>

text \<open>The calls that have an effect on the interpreter or on a channel.\<close>

datatype tcl_call = Write_Chars string string | Unset_Var string | Set_Element string nat | Set_Element_Null string nat
  | Set_Var string string | Set_List string "string list" | Eval_Obj string

text \<open>
  What Tcl and the generated code answer.  \<open>answer cs c\<close> is the result of the call \<open>c\<close> after the calls \<open>cs\<close>;
  \<open>field_text\<close> and \<open>field_null\<close> are a field of a row as text, and whether it is null.
\<close>

record tcl_env =
  answer :: "tcl_call list \<Rightarrow> tcl_call \<Rightarrow> tcl_code"
  field_text :: "nat \<Rightarrow> addr \<Rightarrow> string"
  field_null :: "nat \<Rightarrow> addr \<Rightarrow> bool"
  gen_list :: "addr \<Rightarrow> string list"
  tabsep_row :: "addr \<Rightarrow> nat list \<Rightarrow> bool \<Rightarrow> string \<Rightarrow> quote_type \<Rightarrow> string option \<Rightarrow> string"

definition call :: "tcl_env \<Rightarrow> tcl_call \<Rightarrow> tcl_call list \<Rightarrow> tcl_code \<times> tcl_call list" where
  "call te c cs = (answer te cs c, cs @ [c])"

section \<open>The action on a row\<close>

text \<open>The fields of a row that a search without \<^verbatim>\<open>-fields\<close> gets (\<^verbatim>\<open>is_hidden_field\<close>, \<^verbatim>\<open>is_key_field\<close>).\<close>

definition is_hidden_field :: "setup_env \<Rightarrow> nat \<Rightarrow> bool" where
  "is_hidden_field ev f \<longleftrightarrow> (case fieldNames ev ! f of c # _ \<Rightarrow> c = CHR ''_'' | [] \<Rightarrow> False)"

definition is_key_field :: "setup_env \<Rightarrow> nat \<Rightarrow> bool \<Rightarrow> bool" where
  "is_key_field ev f nokeys \<longleftrightarrow> \<not> nokeys \<and> fieldNames ev ! f = ''_key''"

definition shown_fields :: "setup_env \<Rightarrow> search_setup \<Rightarrow> nat list" where
  "shown_fields ev st =
     (case retrieveFields st of
        Some fs \<Rightarrow> fs
      | None \<Rightarrow> filter (\<lambda>f. \<not> (is_hidden_field ev f \<and> \<not> is_key_field ev f (noKeys st))) [0..<nFields (creator ev)])"

text \<open>The loop of \<^verbatim>\<open>-array\<close>: the result is that of the last field.\<close>

fun set_array :: "tcl_env \<Rightarrow> bool \<Rightarrow> string \<Rightarrow> nat list \<Rightarrow> tcl_code \<Rightarrow> tcl_call list \<Rightarrow> tcl_code \<times> tcl_call list" where
  "set_array te nulls var [] r cs = (r, cs)"
| "set_array te nulls var (f # fs) r cs =
     (let (r1, cs1) = call te (if nulls then Set_Element_Null var f else Set_Element var f) cs
      in set_array te nulls var fs r1 cs1)"

text \<open>
  The first part of the action: the value for the row variable, if it is a list.  A panic is \<open>None\<close>, and a
  failed \<^verbatim>\<open>-array\<close> ends the action with its code.
\<close>

definition row_value :: "setup_env \<Rightarrow> tcl_env \<Rightarrow> search_setup \<Rightarrow> addr \<Rightarrow> tcl_call list \<Rightarrow> (tcl_code \<times> string list option \<times> tcl_call list) option" where
  "row_value ev te st row cs =
     (case action st of
        ACTION_GET \<Rightarrow> Some (TCL_OK, Some (case retrieveFields st of None \<Rightarrow> gen_list te row | Some fs \<Rightarrow> map (\<lambda>f. field_text te f row) fs), cs)
      | ACTION_ARRAY \<Rightarrow>
          (let (r, cs1) = set_array te False (the (rowVar st)) (shown_fields ev st) TCL_OK (cs @ [Unset_Var (the (rowVar st))])
           in Some (r, None, cs1))
      | ACTION_ARRAY_WITH_NULLS \<Rightarrow>
          (let (r, cs1) = set_array te True (the (rowVar st)) (shown_fields ev st) TCL_OK (cs @ [Unset_Var (the (rowVar st))])
           in Some (r, None, cs1))
      | ACTION_ARRAY_GET \<Rightarrow>
          Some (TCL_OK, Some (concat (map (\<lambda>f. [fieldNames ev ! f, field_text te f row]) (filter (\<lambda>f. \<not> field_null te f row) (shown_fields ev st)))), cs)
      | ACTION_ARRAY_GET_WITH_NULLS \<Rightarrow>
          Some (TCL_OK, Some (concat (map (\<lambda>f. [fieldNames ev ! f, field_text te f row]) (shown_fields ev st))), cs)
      | _ \<Rightarrow> if keyVar st = None then None else Some (TCL_OK, None, cs))"

text \<open>The code body: the key and the value go to their variables, then the body is evaluated.\<close>

definition set_key_var :: "setup_env \<Rightarrow> tcl_env \<Rightarrow> search_setup \<Rightarrow> addr \<Rightarrow> tcl_call list \<Rightarrow> tcl_code \<times> tcl_call list" where
  "set_key_var ev te st row cs =
     (case keyVar st of None \<Rightarrow> (TCL_OK, cs) | Some v \<Rightarrow> call te (Set_Var v (row_key ev row)) cs)"

definition run_body :: "setup_env \<Rightarrow> tcl_env \<Rightarrow> search_setup \<Rightarrow> addr \<Rightarrow> string \<Rightarrow> tcl_call list \<Rightarrow> (tcl_code \<times> tcl_call list) option" where
  "run_body ev te st row body cs =
     (case row_value ev te st row cs of
        None \<Rightarrow> None
      | Some (r, value, cs1) \<Rightarrow>
          if r \<noteq> TCL_OK then Some (r, cs1)
          else let (k, cs2) = set_key_var ev te st row cs1
               in if k \<noteq> TCL_OK then Some (TCL_ERROR, cs2)
                  else let (v, cs3) = (case value of None \<Rightarrow> (TCL_OK, cs2) | Some xs \<Rightarrow> call te (Set_List (the (rowVar st)) xs) cs2)
                       in if v \<noteq> TCL_OK then Some (TCL_ERROR, cs3) else Some (call te (Eval_Obj body) cs3))"

text \<open>\<^verbatim>\<open>ctable_SearchAction\<close>; \<open>None\<close> is the panic for an action it does not know.\<close>

definition ctable_SearchAction :: "setup_env \<Rightarrow> tcl_env \<Rightarrow> search_setup \<Rightarrow> addr \<Rightarrow> tcl_call list \<Rightarrow> (tcl_code \<times> tcl_call list) option" where
  "ctable_SearchAction ev te st row cs =
     (if action st = ACTION_WRITE_TABSEP
      then let line = tabsep_row te row (case retrieveFields st of None \<Rightarrow> publicFieldList ev | Some fs \<Rightarrow> fs) (noKeys st) (sepstr st)
                        (quoteType st) (nullString st);
               (r, cs1) = call te (Write_Chars (the (tabsepChannel st)) line) cs
           in Some (if r \<noteq> TCL_OK then TCL_ERROR else TCL_OK, cs1)
      else case codeBody st of
        Some body \<Rightarrow> run_body ev te st row body cs
      | None \<Rightarrow> Some (TCL_OK, cs))"

text \<open>\<^verbatim>\<open>ctable_WriteFieldNames\<close>: the line with the names of the fields.\<close>

fun field_name_text :: "setup_env \<Rightarrow> bool \<Rightarrow> string \<Rightarrow> nat \<Rightarrow> nat list \<Rightarrow> string" where
  "field_name_text ev nokeys sep i [] = []"
| "field_name_text ev nokeys sep i (f # fs) =
     (if \<not> nokeys \<or> i \<noteq> 0 then sep else []) @ fieldNames ev ! f @ field_name_text ev nokeys sep (Suc i) fs"

definition ctable_WriteFieldNames :: "setup_env \<Rightarrow> tcl_env \<Rightarrow> search_setup \<Rightarrow> tcl_call list \<Rightarrow> tcl_code \<times> tcl_call list" where
  "ctable_WriteFieldNames ev te st cs =
     (let fs = (case retrieveFields st of None \<Rightarrow> publicFieldList ev | Some fs \<Rightarrow> fs);
          text = (if \<not> noKeys st then ''_key'' else []) @ field_name_text ev (noKeys st) (sepstr st) 0 fs @ [CHR 0x0A];
          (r, cs1) = call te (Write_Chars (the (tabsepChannel st)) text) cs
      in (if r \<noteq> TCL_OK then TCL_ERROR else TCL_OK, cs1))"

section \<open>Batches\<close>

text \<open>
  \<^verbatim>\<open>ctable_RunBatch\<close>: the commands of a batch, with the name of the table in front, one after the other.  A
  command is \<open>Inl\<close> with Tcl's message when it is not a list, otherwise its words and whether the object is shared;
  \<open>run\<close> is the method of the table with its result.  Results that are empty and not an error are left
  out; the others come with the number of the command.  The last component of the result are the commands
  as they are afterwards: the name is put into the object itself when it is not shared.
\<close>

fun batch_loop :: "('t \<Rightarrow> string list \<Rightarrow> tcl_code \<times> string \<times> 't) \<Rightarrow> string \<Rightarrow> nat \<Rightarrow> (string + bool \<times> string list) list \<Rightarrow> 't
    \<Rightarrow> (nat \<times> tcl_code \<times> string) list \<times> 't \<times> (string + bool \<times> string list) list" where
  "batch_loop run table i [] t = ([], t, [])"
| "batch_loop run table i (Inl msg # cmds) t =
     (let (out, t1, cmds1) = batch_loop run table (Suc i) cmds t in ((i, TCL_ERROR, msg) # out, t1, Inl msg # cmds1))"
| "batch_loop run table i (Inr (shared, argv) # cmds) t =
     (let (r, result, t1) = run t (table # argv);
          (out, t2, cmds1) = batch_loop run table (Suc i) cmds t1
      in (if r = TCL_OK \<and> result = [] then out else (i, r, result) # out, t2,
          Inr (shared, if shared then argv else table # argv) # cmds1))"

definition ctable_RunBatch :: "('t \<Rightarrow> string list \<Rightarrow> tcl_code \<times> string \<times> 't) \<Rightarrow> string \<Rightarrow> (string + bool \<times> string list) list \<Rightarrow> 't
    \<Rightarrow> (nat \<times> tcl_code \<times> string) list \<times> 't \<times> (string + bool \<times> string list) list" where
  "ctable_RunBatch run table cmds t = batch_loop run table 0 cmds t"

section \<open>The action is never unknown\<close>

lemma row_value_defined:
  assumes "ready_ok ev t cs0 st" "codeBody st \<noteq> None"
  shows "row_value ev te st row cs \<noteq> None"
  using ready_okD(11, 12) [OF assms]
  by (cases "action st") (simp_all add: row_value_def split: prod.splits)

text \<open>
  C13. The action on a row.  A search that was set up without an error never gets to the panic
  \<^verbatim>\<open>unhandled search action\<close>: for every row, and whatever Tcl answers, the action has a result.
\<close>

theorem action_never_panics:
  assumes "\<And>f v. private_row ev f v \<noteq> Some 0" and "ctable_SetupSearch ev t cs table g objv i = Setup_Ready st"
  shows "\<exists>r calls'. ctable_SearchAction ev te st row calls = Some (r, calls')"
proof (cases "codeBody st")
  case None
  then show ?thesis by (simp add: ctable_SearchAction_def Let_def split: prod.splits)
next
  case (Some body)
  have "row_value ev te st row calls \<noteq> None" by (rule row_value_defined [OF setup_ready_ok [OF assms]]) (simp add: Some)
  then have "run_body ev te st row body calls \<noteq> None" by (auto simp: run_body_def Let_def split: prod.splits option.splits)
  then show ?thesis using Some by (auto simp: ctable_SearchAction_def Let_def split: prod.splits)
qed

section \<open>A search that writes its rows\<close>

text \<open>The calls that the actions on a list of rows make, and the search whose Tcl code is the action.\<close>

fun action_calls :: "setup_env \<Rightarrow> tcl_env \<Rightarrow> search_setup \<Rightarrow> addr list \<Rightarrow> tcl_call list \<Rightarrow> tcl_call list" where
  "action_calls ev te st [] cs = cs"
| "action_calls ev te st (row # rows) cs = action_calls ev te st rows (snd (the (ctable_SearchAction ev te st row cs)))"

definition acting :: "setup_env \<Rightarrow> tcl_env \<Rightarrow> search_setup \<Rightarrow> tcl_call list \<Rightarrow> setup_env" where
  "acting ev te st cs = ev\<lparr>row_action := \<lambda>rows row. fst (the (ctable_SearchAction ev te st row (action_calls ev te st rows cs)))\<rparr>"

definition written_line :: "setup_env \<Rightarrow> tcl_env \<Rightarrow> search_setup \<Rightarrow> addr \<Rightarrow> string" where
  "written_line ev te st row = tabsep_row te row (case retrieveFields st of None \<Rightarrow> publicFieldList ev | Some fs \<Rightarrow> fs) (noKeys st) (sepstr st)
     (quoteType st) (nullString st)"

lemma tabsep_action:
  assumes "action st = ACTION_WRITE_TABSEP" "\<And>cs c. answer te cs c = TCL_OK"
  shows "ctable_SearchAction ev te st row cs = Some (TCL_OK, cs @ [Write_Chars (the (tabsepChannel st)) (written_line ev te st row)])"
  using assms by (simp add: ctable_SearchAction_def call_def written_line_def)

lemma tabsep_calls:
  assumes "action st = ACTION_WRITE_TABSEP" "\<And>cs c. answer te cs c = TCL_OK"
  shows "action_calls ev te st rows cs = cs @ map (\<lambda>row. Write_Chars (the (tabsepChannel st)) (written_line ev te st row)) rows"
  by (induction rows arbitrary: cs) (simp_all add: tabsep_action [OF assms])

text \<open>The action plays no part in which rows match.\<close>

lemma row_action_simps [simp]:
  fixes ev :: search_env
  shows "ctable_CreateInRows (ev\<lparr>row_action := f\<rparr>) = ctable_CreateInRows ev"
    and "searchable (ev\<lparr>row_action := f\<rparr>) = searchable ev" and "component_ok (ev\<lparr>row_action := f\<rparr>) = component_ok ev"
    and "stale_list (ev\<lparr>row_action := f\<rparr>) = stale_list ev" and "update_ok (ev\<lparr>row_action := f\<rparr>) = update_ok ev"
    and "row_matches (ev\<lparr>row_action := f\<rparr>) = row_matches ev"
proof -
  show c: "ctable_CreateInRows (ev\<lparr>row_action := f\<rparr>) = ctable_CreateInRows ev"
    by (simp add: fun_eq_iff ctable_CreateInRows_def split: option.split)
  have h: "component_holds (ev\<lparr>row_action := f\<rparr>) = component_holds ev"
    by (simp add: fun_eq_iff component_holds_def Let_def split: comp_type.split)
  show "searchable (ev\<lparr>row_action := f\<rparr>) = searchable ev" by (simp add: fun_eq_iff searchable_def)
  show "component_ok (ev\<lparr>row_action := f\<rparr>) = component_ok ev" by (simp add: fun_eq_iff component_ok_def is_key_def c)
  show "stale_list (ev\<lparr>row_action := f\<rparr>) = stale_list ev" by (simp add: fun_eq_iff stale_list_def is_key_def)
  show "update_ok (ev\<lparr>row_action := f\<rparr>) = update_ok ev" by (simp add: fun_eq_iff update_ok_def update_fields_def split: option.split)
  show "row_matches (ev\<lparr>row_action := f\<rparr>) = row_matches ev"
    by (simp add: fun_eq_iff row_matches_def pre_match_def satisfies_def h c split: option.split)
qed

lemma truncate_acting: "search_env.truncate (acting ev te st cs) = (search_env.truncate ev)
    \<lparr>row_action := \<lambda>rows row. fst (the (ctable_SearchAction ev te st row (action_calls ev te st rows cs)))\<rparr>"
  by (simp add: acting_def search_env.defs)


section \<open>Witnesses\<close>

definition sample_tcl :: tcl_env where
  "sample_tcl = \<lparr>answer = (\<lambda>cs c. TCL_OK), field_text = (\<lambda>f r. ''v''), field_null = (\<lambda>f r. False), gen_list = (\<lambda>r. [''v'']),
     tabsep_row = (\<lambda>r fs k s q n. if r = 24 then ''one'' else ''two'')\<rparr>"

lemma action_never_panics_witness:
  "\<exists>st r calls'. ctable_SetupSearch sample_setup_env sample_indexed sample_cursors ''tab'' sample_statics sample_args (- 2) = Setup_Ready st
    \<and> ctable_SearchAction sample_setup_env sample_tcl st 40 [] = Some (r, calls')"
proof -
  obtain st where st: "ctable_SetupSearch sample_setup_env sample_indexed sample_cursors ''tab'' sample_statics sample_args (- 2) = Setup_Ready st"
    using sample_setup [of sample_indexed] by blast
  obtain r calls' where "ctable_SearchAction sample_setup_env sample_tcl st 40 [] = Some (r, calls')"
    using action_never_panics [OF sample_private st] by blast
  then show ?thesis using st by blast
qed

text \<open>A search that writes the first row to a channel.\<close>

definition writing_env :: setup_env where
  "writing_env = sample_setup_env\<lparr>channel_writable := \<lambda>c. Some True\<rparr>"

definition writing_args :: "string list" where
  "writing_args = [''-write_tabsep'', ''out'', ''-limit'', ''1'']"

lemma writing_setup: "\<exists>st. ctable_SetupSearch writing_env t sample_cursors ''tab'' sample_statics writing_args (- 2) = Setup_Ready st
    \<and> search.truncate st = sample_search\<lparr>components := [], has_code := False, action := ACTION_WRITE_TABSEP, limit := 1\<rparr>
    \<and> tabsepChannel st = Some ''out''"
proof -
  have opts: "tcl_get_index searchOptions ''-write_tabsep'' = Some 16" "search_options ! 16 = OPT_WRITE_TABSEP" by code_simp+
  have env: "get_int writing_env ''1'' = Some 1" "channel_writable writing_env ''out'' = Some True"
    by (simp_all add: writing_env_def sample_setup_env_def search_env.defs)
  show ?thesis
    by (simp add: ctable_SetupSearch_def writing_args_def opts option_index env write_tabsep_option_def int_option_def initial_search_def
        finish_setup_def code_error_def default_action_def ctable_checkForKey_def sample_search_def search.defs INDEX_ANY_def Let_def)
qed


end
