(* ===== verification/ReaderRestart.thy ===== *)
theory ReaderRestart
  imports RowAction
begin

text \<open>
  The readers of a shared table.  A reader walks an index that the master may change under it; when a row
  it comes to has changed since the walk began, it asks \<^verbatim>\<open>ctable_SearchRestartNeeded\<close> whether the row
  is still one of the walk, and starts again if it is not.
\<close>

section \<open>Private copies of an index\<close>

text \<open>
  The part of a skip list that is private to a process: its identity, the update array, the position, and
  what goes with them; the nodes are in the public part, which all copies share.  A process that did not
  make the list works on a copy (\<^verbatim>\<open>jsw_private\<close>, \<^verbatim>\<open>jsw_private_copy\<close>); \<open>new\<close> is a new update array.
\<close>

record private_skip =
  skip_id :: int
  fix_array :: "addr option"
  position :: addr
  max_height :: nat
  publicdata :: addr
  skip_share :: addr
  skip_cmp :: "addr cmp_t"

text \<open>The result is the list as it is left, and the copy if one was made.\<close>

definition fill_private :: "addr \<Rightarrow> nat \<Rightarrow> addr cmp_t \<Rightarrow> addr \<Rightarrow> private_skip \<Rightarrow> private_skip" where
  "fill_private new mx cmp share sk =
     (let sk1 = (if fix_array sk = None then sk\<lparr>fix_array := Some new\<rparr> else sk)
      in sk1\<lparr>max_height := mx, skip_share := share, skip_cmp := cmp\<rparr>)"

definition jsw_private :: "addr \<Rightarrow> private_skip \<Rightarrow> nat \<Rightarrow> addr cmp_t \<Rightarrow> addr \<Rightarrow> int \<Rightarrow> private_skip \<times> private_skip option" where
  "jsw_private new sk mx cmp share i =
     (if i = 0 then (fill_private new mx cmp share (sk\<lparr>skip_id := 0, fix_array := None, position := 0\<rparr>), None)
      else if skip_id sk \<noteq> i then (sk, Some (fill_private new mx cmp share (sk\<lparr>position := position sk, skip_id := i, fix_array := None\<rparr>)))
      else (fill_private new mx cmp share sk, None))"

definition jsw_private_copy :: "addr \<Rightarrow> private_skip \<Rightarrow> int \<Rightarrow> addr cmp_t option \<Rightarrow> private_skip \<times> private_skip option" where
  "jsw_private_copy new sk i cmp =
     (if skip_id sk \<noteq> i
      then jsw_private new sk (max_height sk) (case cmp of None \<Rightarrow> skip_cmp sk | Some f \<Rightarrow> f) (skip_share sk) i
      else (sk, None))"

text \<open>A reader's copy shares the nodes and has an update array of its own; the list it was made from is untouched.\<close>

lemma private_copy:
  assumes "i \<noteq> 0" "skip_id sk \<noteq> i" "fix_array sk \<noteq> Some new"
  shows "\<exists>c. jsw_private_copy new sk i cmp = (sk, Some c) \<and> publicdata c = publicdata sk \<and> position c = position sk
    \<and> fix_array c \<noteq> fix_array sk \<and> max_height c = max_height sk \<and> snd (jsw_private_copy new c i cmp) = None"
  using assms by (simp add: jsw_private_copy_def jsw_private_def fill_private_def)

section \<open>The check\<close>

record restart_t =
  restart_row1 :: addr
  restart_row2 :: addr
  restart_start :: skip_start
  restart_end :: skip_end
  restart_compare :: "addr cmp_t"

definition ctable_SearchRestartNeeded :: "addr \<Rightarrow> restart_t \<Rightarrow> bool" where
  "ctable_SearchRestartNeeded row restart =
     (let cmp = restart_compare restart
      in if (case restart_end restart of
               END_GE_ROW1 \<Rightarrow> cmp row (restart_row1 restart) \<ge> 0
             | END_GT_ROW1 \<Rightarrow> cmp row (restart_row1 restart) > 0
             | END_GE_ROW2 \<Rightarrow> cmp row (restart_row2 restart) \<ge> 0
             | _ \<Rightarrow> False) then True
         else (case restart_start restart of
                 START_GE_ROW1 \<Rightarrow> cmp row (restart_row1 restart) < 0
               | START_GT_ROW1 \<Rightarrow> cmp row (restart_row1 restart) \<le> 0
               | START_EQ_ROW1 \<Rightarrow> cmp row (restart_row1 restart) \<noteq> 0
               | _ \<Rightarrow> False))"

text \<open>The conditions saved for the walk along the index, and for the list of the rows of one node.\<close>

definition main_restart :: "plan \<Rightarrow> addr cmp_t \<Rightarrow> restart_t" where
  "main_restart w cmp = \<lparr>restart_row1 = wrow1 w, restart_row2 = wrow2 w, restart_start = skipStart w, restart_end = skipEnd w,
     restart_compare = cmp\<rparr>"

definition loop_restart :: "addr \<Rightarrow> addr cmp_t \<Rightarrow> restart_t" where
  "loop_restart row cmp = \<lparr>restart_row1 = row, restart_row2 = row, restart_start = START_EQ_ROW1, restart_end = END_NE_ROW1,
     restart_compare = cmp\<rparr>"

text \<open>
  The check at a row: its cycle against that of the start of the walk, as an \<^verbatim>\<open>int\<close>, and the conditions.
\<close>

definition restarts :: "addr \<Rightarrow> cell_t \<Rightarrow> cell_t \<Rightarrow> restart_t \<Rightarrow> bool" where
  "restarts row row_cycle main_cycle restart \<longleftrightarrow>
     row_cycle \<noteq> LOST_HORIZON \<and> sint (ucast (row_cycle - main_cycle) :: 32 word) > 0 \<and> ctable_SearchRestartNeeded row restart"

section \<open>When a reader starts again\<close>


text \<open>A walk from the row at 40 on: the row at 24 is not one of it.\<close>

definition sample_walk :: plan where
  "sample_walk = no_plan\<lparr>walkType := WALK_SKIP, skipStart := START_GE_ROW1, skipNext := NEXT_ROW, wrow1 := 40, walready := Some 0\<rparr>"


end
