(* ===== verification/RowCompare.thy ===== *)
theory RowCompare
  imports Prelude "HOL-Library.List_Lexorder" "HOL-Library.Product_Lexorder"
begin

text \<open>
  Comparing the fields of rows: the C code of the templates in \<^verbatim>\<open>ctables/gentable.tcl\<close> that the indexes
  (\<^verbatim>\<open>field_compare\<close>, one function per field) and the sort (\<^verbatim>\<open>sort_compare\<close>) compare rows with.  A value is
  what a row stores for a field: the null flag and the content; a string is a pointer that may be \<^verbatim>\<open>NULL\<close>.
\<close>

section \<open>Values\<close>

datatype field_value = Number bool int | Varstring bool "cstring option" | Boolean bool bool | Key_Text cstring

text \<open>The rank of the kinds only makes the comparisons total: two values of a field are of one kind.\<close>

fun kind :: "field_value \<Rightarrow> int" where
  "kind (Number n i) = 0"
| "kind (Varstring n p) = 1"
| "kind (Boolean n b) = 2"
| "kind (Key_Text s) = 3"

text \<open>\<^verbatim>\<open>strcmp\<close> compares unsigned characters, the first character by itself is compared as it is, signed.\<close>

fun strcmp :: "cstring \<Rightarrow> cstring \<Rightarrow> int" where
  "strcmp [] [] = 0"
| "strcmp [] (d # ds) = - 1"
| "strcmp (c # cs) [] = 1"
| "strcmp (c # cs) (d # ds) = (if c = d then strcmp cs ds else if c < d then - 1 else 1)"

definition string_compare :: "cstring \<Rightarrow> cstring \<Rightarrow> int" where
  "string_compare s t =
     (if cchar s 0 \<noteq> cchar t 0 then (if sint (cchar s 0) < sint (cchar t 0) then - 1 else 1) else strcmp s t)"

definition number_compare :: "int \<Rightarrow> int \<Rightarrow> int" where
  "number_compare i j = (if i < j then - 1 else if i > j then 1 else 0)"

definition bool_compare :: "bool \<Rightarrow> bool \<Rightarrow> int" where
  "bool_compare a b = (if a \<and> \<not> b then - 1 else if \<not> a \<and> b then 1 else 0)"

text \<open>The null checks: \<open>high\<close> is the result for a null on the left of a value.\<close>

definition null_check :: "int \<Rightarrow> bool \<Rightarrow> bool \<Rightarrow> int \<Rightarrow> int" where
  "null_check high n m result = (if n then (if m then 0 else high) else if m then - high else result)"

section \<open>The two comparisons\<close>

fun table_field_compare :: "field_value \<Rightarrow> field_value \<Rightarrow> int" where
  "table_field_compare (Number n i) (Number m j) = null_check 1 n m (number_compare i j)"
| "table_field_compare (Varstring n p) (Varstring m q) =
     null_check 1 (n \<or> p = None) (m \<or> q = None) (string_compare (the p) (the q))"
| "table_field_compare (Boolean n a) (Boolean m b) = null_check 1 n m (bool_compare a b)"
| "table_field_compare (Key_Text s) (Key_Text t) = string_compare s t"
| "table_field_compare a b = kind a - kind b"

fun sort_value :: "field_value \<Rightarrow> field_value \<Rightarrow> int" where
  "sort_value (Number n i) (Number m j) = null_check 1 n m (number_compare i j)"
| "sort_value (Varstring n p) (Varstring m q) = null_check (- 1) (p = None) (q = None) (strcmp (the p) (the q))"
| "sort_value (Boolean n a) (Boolean m b) = null_check 1 n m (bool_compare a b)"
| "sort_value (Key_Text s) (Key_Text t) = string_compare s t"
| "sort_value a b = kind a - kind b"

text \<open>\<^verbatim>\<open>sort_compare\<close>: the fields in order, each with its direction, until one decides.\<close>

fun table_sort_compare :: "(nat \<times> int) list \<Rightarrow> (nat \<Rightarrow> field_value) cmp_t" where
  "table_sort_compare [] r s = 0"
| "table_sort_compare ((f, direction) # fs) r s =
     (let result = direction * sort_value (r f) (s f)
      in if result \<noteq> 0 then result else table_sort_compare fs r s)"

section \<open>Comparisons as orders\<close>

text \<open>A comparison that orders by a key is a comparator, and so are its multiples and lexicographic chains.\<close>

lemma comparator_key:
  fixes key :: "'a \<Rightarrow> 'b :: linorder"
  assumes "\<And>a b. cmp a b < 0 \<longleftrightarrow> key a < key b" "\<And>a b. cmp a b > 0 \<longleftrightarrow> key b < key a"
  shows "comparator cmp"
proof
  show "0 < cmp a b \<longleftrightarrow> cmp b a < 0" for a b using assms by simp
  have "cmp a b \<le> 0 \<longleftrightarrow> key a \<le> key b" for a b using assms(2) [of a b] by (simp add: not_less [symmetric])
  then show "cmp a b \<le> 0 \<Longrightarrow> cmp b c \<le> 0 \<Longrightarrow> cmp a c \<le> 0" for a b c by auto
qed

lemma strcmp_sign: "strcmp s t < 0 \<longleftrightarrow> s < t" "strcmp s t > 0 \<longleftrightarrow> t < s"
  by (induction s t rule: strcmp.induct) auto

definition string_key :: "cstring \<Rightarrow> int \<times> cstring" where
  "string_key s = (sint (cchar s 0), s)"

lemma sint_inject [simp]: "sint a = sint b \<longleftrightarrow> a = b"
  by (auto intro: signed_word_eqI)

lemma string_compare_sign: "string_compare s t < 0 \<longleftrightarrow> string_key s < string_key t" "string_compare s t > 0 \<longleftrightarrow> string_key t < string_key s"
  using linorder_less_linear [of "sint (cchar s 0)" "sint (cchar t 0)"]
  by (auto simp: string_compare_def string_key_def strcmp_sign)

fun value_key :: "field_value \<Rightarrow> int \<times> bool \<times> int \<times> cstring" where
  "value_key (Number n i) = (0, n, if n then 0 else i, [])"
| "value_key (Varstring n p) = (1, n \<or> p = None, if n \<or> p = None then (0, []) else string_key (the p))"
| "value_key (Boolean n b) = (2, n, if n \<or> b then 0 else 1, [])"
| "value_key (Key_Text s) = (3, False, string_key s)"

fun sort_key_of :: "field_value \<Rightarrow> int \<times> bool \<times> int \<times> cstring" where
  "sort_key_of (Varstring n p) = (1, p \<noteq> None, 0, case p of None \<Rightarrow> [] | Some s \<Rightarrow> s)"
| "sort_key_of v = value_key v"

lemma field_compare_sign: "table_field_compare a b < 0 \<longleftrightarrow> value_key a < value_key b" "table_field_compare a b > 0 \<longleftrightarrow> value_key b < value_key a"
  by (cases a; cases b; auto simp: null_check_def number_compare_def bool_compare_def string_compare_sign)+

lemma sort_value_sign: "sort_value a b < 0 \<longleftrightarrow> sort_key_of a < sort_key_of b" "sort_value a b > 0 \<longleftrightarrow> sort_key_of b < sort_key_of a"
  by (cases a; cases b; auto simp: null_check_def number_compare_def bool_compare_def string_compare_sign strcmp_sign)+

interpretation field_values: comparator table_field_compare
  by (rule comparator_key [of _ value_key]) (rule field_compare_sign)+

interpretation sort_values: comparator sort_value
  by (rule comparator_key [of _ sort_key_of]) (rule sort_value_sign)+

text \<open>Sort comparisons with directions that are not zero are orders of rows.\<close>

lemma comparator_scaled: "comparator cmp \<Longrightarrow> d \<noteq> 0 \<Longrightarrow> comparator (\<lambda>a b. d * cmp a b)"
proof
  fix a b c :: 'a assume c: "comparator cmp" and d: "d \<noteq> (0 :: int)"
  note anti = comparator.anti [OF c] and tr = comparator.trans [OF c]
  have sgn: "cmp a b < 0 \<longleftrightarrow> cmp b a > 0" for a b using anti by blast
  show "0 < d * cmp a b \<longleftrightarrow> d * cmp b a < 0" using d anti [of a b] anti [of b a] by (auto simp: zero_less_mult_iff mult_less_0_iff)
  show "d * cmp a c \<le> 0" if "d * cmp a b \<le> 0" "d * cmp b c \<le> 0"
  proof (cases "0 < d")
    case True
    then show ?thesis using that tr [of a b c] by (simp add: mult_le_0_iff)
  next
    case False
    then have "0 \<le> cmp a b" "0 \<le> cmp b c" using that d by (simp_all add: mult_le_0_iff)
    then have "cmp c a \<le> 0" using tr [of c b a] anti [of b a] anti [of c b] by linarith
    then have "0 \<le> cmp a c" using anti [of c a] by linarith
    then show ?thesis using False by (simp add: mult_le_0_iff)
  qed
qed

lemma comparator_chain:
  assumes "comparator c" "comparator d"
  shows "comparator (\<lambda>a b. if c a b \<noteq> 0 then c a b else d a b)"
proof
  fix x y z
  note C = comparator.anti [OF assms(1)] comparator.eq_sym [OF assms(1)] and D = comparator.anti [OF assms(2)] comparator.trans [OF assms(2)]
  show "0 < (if c x y \<noteq> 0 then c x y else d x y) \<longleftrightarrow> (if c y x \<noteq> 0 then c y x else d y x) < 0"
    using C [of x y] C [of y x] D(1) [of x y] by auto
  show "(if c x z \<noteq> 0 then c x z else d x z) \<le> 0"
    if h: "(if c x y \<noteq> 0 then c x y else d x y) \<le> 0" "(if c y z \<noteq> 0 then c y z else d y z) \<le> 0"
  proof -
    have le: "c x y \<le> 0" "c y z \<le> 0" using h by (auto split: if_splits)
    consider "c x y < 0" | "c y z < 0" | "c x y = 0" "c y z = 0" using le by linarith
    then show ?thesis
    proof cases
      case 1
      then show ?thesis using comparator.less_trans [OF assms(1) 1 le(2)] by simp
    next
      case 2
      then show ?thesis using comparator.less_trans' [OF assms(1) le(1) 2] by simp
    next
      case 3
      then show ?thesis using h D(2) [of x y z] comparator.eq_trans [OF assms(1) 3] by simp
    qed
  qed
qed

lemma comparator_image: "comparator cmp \<Longrightarrow> comparator (\<lambda>a b. cmp (g a) (g b))"
  by (simp add: comparator_def)

lemma sort_compare_comparator: "\<forall>(f, d)\<in>set fs. d \<noteq> 0 \<Longrightarrow> comparator (table_sort_compare fs)"
proof (induction fs)
  case Nil
  then show ?case by (simp add: comparator_def)
next
  case (Cons fd fs)
  obtain f d where fd: "fd = (f, d)" by (cases fd)
  have "comparator (\<lambda>r s. d * sort_value (r f) (s f))"
    using comparator_image [OF comparator_scaled [OF sort_values.comparator_axioms, of d], of "\<lambda>r. r f"] Cons.prems fd by simp
  from comparator_chain [OF this Cons.IH] Cons.prems show ?case by (simp add: fd Let_def [abs_def])
qed

section \<open>Properties\<close>

text \<open>
  Indexes and sorts order two values of a field alike, unless a string is involved that is null, or that
  starts with a character above 127.
\<close>

fun plain_text :: "field_value \<Rightarrow> bool" where
  "plain_text (Varstring n p) \<longleftrightarrow> (case p of None \<Rightarrow> False | Some s \<Rightarrow> \<not> n \<and> cchar s 0 < 128)"
| "plain_text v \<longleftrightarrow> True"

lemma byte_sint: "c < 128 \<Longrightarrow> sint (c :: byte) = uint c"
proof -
  have "c < 128 \<longrightarrow> sint c = uint c" by (rule byte_exhaust) code_simp
  then show "c < 128 \<Longrightarrow> sint c = uint c" ..
qed

lemma byte_uint_pos: "0 < uint (d :: byte) \<longleftrightarrow> d \<noteq> 0"
proof -
  have "0 \<le> uint d" by simp
  then show ?thesis using uint_0_iff [of d] by linarith
qed

lemma plain_string_compare:
  assumes "cchar s 0 < 128" "cchar t 0 < 128"
  shows "string_compare s t = strcmp s t"
  using assms byte_sint [OF assms(1)] byte_sint [OF assms(2)]
  by (cases "(s, t)" rule: strcmp.cases) (auto simp: string_compare_def word_less_def byte_uint_pos)

text \<open>
  The order of an index is that of a sort, for values of which strings are not null and start with an
  ASCII character.
\<close>

theorem orders_agree:
  assumes "plain_text a" and "plain_text b"
  shows "table_field_compare a b = sort_value a b"
  using assms by (cases a; cases b) (auto simp: plain_string_compare null_check_def split: option.splits)

lemma orders_agree_witness:
  "table_field_compare (Varstring False (Some [97])) (Varstring False (Some [98])) = sort_value (Varstring False (Some [97])) (Varstring False (Some [98]))"
  by (rule orders_agree) simp_all

text \<open>
  Otherwise they differ: a string that was never set is the last of an index and the first of a sort; a
  string that was set to null is the last of an index, and a sort compares the text \<open>s\<close> that stands for null;
  and a string that starts with a byte above 127 comes before the ASCII strings in an index and after
  them in a sort.
\<close>

theorem orders_differ:
  "table_field_compare (Varstring False (Some s)) (Varstring True None) < 0 \<and> sort_value (Varstring False (Some s)) (Varstring True None) > 0
   \<and> table_field_compare (Varstring False (Some s)) (Varstring True (Some s)) < 0 \<and> sort_value (Varstring False (Some s)) (Varstring True (Some s)) = 0
   \<and> table_field_compare (Varstring False (Some [97])) (Varstring False (Some (0xC3 # cs))) > 0
   \<and> sort_value (Varstring False (Some [97])) (Varstring False (Some (0xC3 # cs))) < 0"
proof -
  have "strcmp s s = 0" by (induction s) auto
  then show ?thesis by (simp add: null_check_def string_compare_def)
qed

end
