(* ===== verification/KeyedTable.thy ===== *)
theory KeyedTable
  imports HashTable SearchCorrect RowCompare
begin

text \<open>
  A table as a whole: its rows, found by key through the hash table, in the list of all rows and in the
  indexes.  The functions that keep these together are generated by \<^verbatim>\<open>ctables/gentable.tcl\<close>, from templates of
  C code, and called by the methods of a table in \<^verbatim>\<open>ctables/command-body.c-subst\<close>.  A row has one address for
  its hash entry (the first of its members) and its list nodes.  This is the table of a process that
  does not share it; memory never runs out.
\<close>

section \<open>State\<close>

text \<open>What the definition of the table says of its fields; \<open>keyNo\<close> is the number of the key field, if it is one.\<close>

record table_type =
  fieldCount :: nat
  listNumber :: "nat \<Rightarrow> int"
  uniqueField :: "nat \<Rightarrow> bool"
  default_value :: "nat \<Rightarrow> field_value"
  keyNo :: int

text \<open>
  \<open>kvals\<close> are the values of the rows, by address; the key, which is kept in the hash entry, is also shown
  as the value of the key field.  \<open>savedRow\<close> is the row that \<^verbatim>\<open>find_or_create\<close> prepared and did not use.
\<close>

record keyed_table =
  ktable :: ctable
  kheap :: hheap
  khash :: hash_table
  kcount :: int
  savedRow :: "addr option"
  kvals :: "addr \<Rightarrow> nat \<Rightarrow> field_value"

text \<open>What indexes and searches see of the rows.\<close>

definition creator_for :: "table_type \<Rightarrow> (addr \<Rightarrow> nat \<Rightarrow> field_value) \<Rightarrow> creator" where
  "creator_for ty vals = \<lparr>nFields = fieldCount ty, indexNumber = listNumber ty,
     compareFunction = (\<lambda>f r s. table_field_compare (vals r f) (vals s f)), unique = uniqueField ty\<rparr>"

text \<open>Errors of a method, and panics.\<close>

datatype row_error = Index_Error index_error | List_Panic list_error | Hash_Panic

section \<open>Rows\<close>

text \<open>\<^verbatim>\<open>init\<close>: a new row is in no list and has the default values.\<close>

definition init_row :: "table_type \<Rightarrow> addr \<Rightarrow> keyed_table \<Rightarrow> keyed_table" where
  "init_row ty row k =
     (let m = tmem (ktable k)
      in k\<lparr>ktable := (ktable k)\<lparr>tmem := m\<lparr>lnext := (lnext m)(row := \<lambda>j. 0), lprev := (lprev m)(row := \<lambda>j. None),
                                         lhead := (lhead m)(row := \<lambda>j. None)\<rparr>\<rparr>,
           kheap := (kheap k)(row := \<lparr>nextPtr = 0, hkey = [], hhash = 0\<rparr>),
           kvals := (kvals k)(row := default_value ty)\<rparr>)"

text \<open>
  \<^verbatim>\<open>find_or_create\<close>: the row of a key, or a new one, which is then in the hash table and in the list of all
  rows, but not in an index.  \<open>new\<close> is the address that is allocated, when no prepared row is left over.
\<close>

definition find_or_create :: "table_type \<Rightarrow> bool \<Rightarrow> cstring \<Rightarrow> addr \<Rightarrow> keyed_table \<Rightarrow> (row_error + addr \<times> bool \<times> keyed_table) option" where
  "find_or_create ty sanity key new k =
     (let (nextRow, k1) = (case savedRow k of Some row \<Rightarrow> (row, k) | None \<Rightarrow> (new, init_row ty new k))
      in Option.bind (ctable_StoreHashEntry (kheap k1) (khash k1) key nextRow True) (\<lambda>(h, t, row, isNew).
           let k2 = k1\<lparr>kheap := h, khash := t\<rparr>
           in if isNew = Some 1
              then case ctable_ListInsertHead sanity (tmem (ktable k2)) (ll_head (ktable k2)) row 0 of
                     Inl e \<Rightarrow> Some (Inl (List_Panic e))
                   | Inr ws \<Rightarrow> Some (Inr (row, True, k2\<lparr>ktable := (ktable k2)\<lparr>tmem := run_writes ws (tmem (ktable k2))\<rparr>,
                       kcount := kcount k2 + 1, savedRow := None,
                       kvals := (kvals k2)(row := (\<lambda>f. if int f = keyNo ty then Key_Text key else kvals k2 row f))\<rparr>))
              else Some (Inr (row, False, k2\<lparr>savedRow := Some nextRow\<rparr>))))"

text \<open>A field keeps its value when it is set to the value it has, or to null again.\<close>

fun is_null :: "field_value \<Rightarrow> bool" where
  "is_null (Number n i) \<longleftrightarrow> n"
| "is_null (Varstring n p) \<longleftrightarrow> n"
| "is_null (Boolean n b) \<longleftrightarrow> n"
| "is_null (Key_Text s) \<longleftrightarrow> False"

definition unchanged :: "field_value \<Rightarrow> field_value \<Rightarrow> bool" where
  "unchanged v w \<longleftrightarrow> is_null v \<and> is_null w \<or> v = w"

text \<open>
  \<^verbatim>\<open>set\<close> of a field other than the key: nothing happens when it has the value already.  The row leaves the
  index of the field, unless it is new, and comes back with its new value; \<open>a\<close> is the address of a new
  node of the index.
\<close>

definition set_field_value :: "table_type \<Rightarrow> bool \<Rightarrow> addr \<Rightarrow> bool \<Rightarrow> nat \<times> field_value \<times> addr \<Rightarrow> keyed_table
    \<Rightarrow> (row_error option \<times> keyed_table) option" where
  "set_field_value ty sanity row isNew = (\<lambda>(f, v, a) k.
     if unchanged (kvals k row f) v then Some (None, k)
     else Option.bind (if \<not> isNew \<and> skipLists (ktable k) f \<noteq> None
                       then ctable_RemoveFromIndex (creator_for ty (kvals k)) sanity row f (ktable k)
                       else Some (None, ktable k)) (\<lambda>(e, t1).
       case e of
         Some err \<Rightarrow> Some (Some (Index_Error err), k\<lparr>ktable := t1\<rparr>)
       | None \<Rightarrow>
           let vals = (kvals k)(row := (kvals k row)(f := v))
           in Option.bind (if skipLists t1 f \<noteq> None
                           then ctable_InsertIntoIndex (creator_for ty vals) sanity a row f t1
                           else Some (None, t1)) (\<lambda>(e', t2).
                Some (map_option Index_Error e', k\<lparr>ktable := t2, kvals := vals\<rparr>))))"

fun set_field_values :: "table_type \<Rightarrow> bool \<Rightarrow> addr \<Rightarrow> bool \<Rightarrow> (nat \<times> field_value \<times> addr) list \<Rightarrow> keyed_table
    \<Rightarrow> (row_error option \<times> keyed_table) option" where
  "set_field_values ty sanity row isNew [] k = Some (None, k)"
| "set_field_values ty sanity row isNew (s # ss) k =
     Option.bind (set_field_value ty sanity row isNew s k)
       (\<lambda>(e, k1). if e \<noteq> None then Some (e, k1) else set_field_values ty sanity row isNew ss k1)"

text \<open>\<^verbatim>\<open>index_defaults\<close>: a new row enters the indexes of the fields that were not set; \<open>nodes f\<close> is a new node.\<close>

fun index_fields :: "creator \<Rightarrow> bool \<Rightarrow> (nat \<Rightarrow> addr) \<Rightarrow> addr \<Rightarrow> nat list \<Rightarrow> ctable \<Rightarrow> (index_error option \<times> ctable) option" where
  "index_fields cr sanity nodes row [] t = Some (None, t)"
| "index_fields cr sanity nodes row (f # fs) t =
     (if 0 < indexNumber cr f \<and> skipLists t f \<noteq> None \<and> lprev (tmem t) row (nat (indexNumber cr f)) = None
      then Option.bind (ctable_InsertIntoIndex cr sanity (nodes f) row f t)
             (\<lambda>(e, t1). if e \<noteq> None then Some (e, t1) else index_fields cr sanity nodes row fs t1)
      else index_fields cr sanity nodes row fs t)"

definition index_defaults :: "table_type \<Rightarrow> bool \<Rightarrow> (nat \<Rightarrow> addr) \<Rightarrow> addr \<Rightarrow> keyed_table \<Rightarrow> (row_error option \<times> keyed_table) option" where
  "index_defaults ty sanity nodes row k =
     map_option (\<lambda>(e, t). (map_option Index_Error e, k\<lparr>ktable := t\<rparr>))
       (index_fields (creator_for ty (kvals k)) sanity nodes row [0..<fieldCount ty] (ktable k))"

section \<open>Methods\<close>

text \<open>The method \<^verbatim>\<open>set\<close>, with the fields and values to set, as Tcl reads them; a failure leaves things as they are then.\<close>

definition set_row :: "table_type \<Rightarrow> bool \<Rightarrow> cstring \<Rightarrow> addr \<Rightarrow> (nat \<times> field_value \<times> addr) list \<Rightarrow> (nat \<Rightarrow> addr) \<Rightarrow> keyed_table
    \<Rightarrow> (row_error option \<times> keyed_table) option" where
  "set_row ty sanity key new sets nodes k =
     Option.bind (find_or_create ty sanity key new k) (\<lambda>r. case r of
         Inl e \<Rightarrow> Some (Some e, k)
       | Inr (row, isNew, k1) \<Rightarrow>
           Option.bind (set_field_values ty sanity row isNew sets k1)
             (\<lambda>(e, k2). if e \<noteq> None \<or> \<not> isNew then Some (e, k2) else index_defaults ty sanity nodes row k2))"

text \<open>The generated \<^verbatim>\<open>delete\<close> of a row, and the count; the row and its key are freed.\<close>

definition delete_entry :: "table_type \<Rightarrow> bool \<Rightarrow> addr \<Rightarrow> keyed_table \<Rightarrow> (row_error + keyed_table) option" where
  "delete_entry ty sanity row k =
     Option.bind (ctable_RemoveFromAllIndexes (creator_for ty (kvals k)) sanity row (ktable k)) (\<lambda>(e, t).
       case e of
         Some err \<Rightarrow> Some (Inl (Index_Error err))
       | None \<Rightarrow> Option.bind (ctable_DeleteHashEntry (kheap k) (khash k) row) (\<lambda>r.
           case r of
             None \<Rightarrow> Some (Inl Hash_Panic)
           | Some (h, ht) \<Rightarrow> Some (Inr (k\<lparr>ktable := t, kheap := h, khash := ht, kcount := kcount k - 1\<rparr>))))"

text \<open>The method \<^verbatim>\<open>delete\<close>, after the checks that no cursor or search is active, of a row that may be there.\<close>

definition delete_row :: "table_type \<Rightarrow> bool \<Rightarrow> cstring \<Rightarrow> keyed_table \<Rightarrow> (row_error + bool \<times> keyed_table) option" where
  "delete_row ty sanity key k =
     Option.bind (ctable_FindHashEntry (kheap k) (khash k) key) (\<lambda>row.
       if row = 0 then Some (Inr (False, k))
       else map_option (map_sum id (Pair True)) (delete_entry ty sanity row k))"

text \<open>The transactions of a search (\<^verbatim>\<open>ctable_PerformTransaction\<close>) on the rows that it found.\<close>

fun delete_rows :: "table_type \<Rightarrow> bool \<Rightarrow> addr list \<Rightarrow> keyed_table \<Rightarrow> (row_error + keyed_table) option" where
  "delete_rows ty sanity [] k = Some (Inr k)"
| "delete_rows ty sanity (row # rows) k =
     Option.bind (delete_entry ty sanity row k) (\<lambda>r. case r of Inl e \<Rightarrow> Some (Inl e) | Inr k1 \<Rightarrow> delete_rows ty sanity rows k1)"

fun update_rows :: "table_type \<Rightarrow> bool \<Rightarrow> (addr \<times> (nat \<times> field_value \<times> addr) list) list \<Rightarrow> keyed_table \<Rightarrow> (row_error option \<times> keyed_table) option" where
  "update_rows ty sanity [] k = Some (None, k)"
| "update_rows ty sanity ((row, sets) # us) k =
     Option.bind (set_field_values ty sanity row False sets k)
       (\<lambda>(e, k1). if e \<noteq> None then Some (e, k1) else update_rows ty sanity us k1)"

text \<open>
  The method \<^verbatim>\<open>reset\<close>: all rows are freed, with their keys, without taking them out of anything; then the
  list of rows is made empty, the hash table and the indexes are freed, and the hash table is set up again.
\<close>

partial_function (option) free_keys :: "addr \<Rightarrow> list_mem \<Rightarrow> hheap \<Rightarrow> hheap option" where
  "free_keys row m h = (if row = 0 then Some h else free_keys (lnext m row 0) m (h(row := (h row)\<lparr>hkey := []\<rparr>)))"

definition delete_all_rows :: "table_type \<Rightarrow> bool \<Rightarrow> keyed_table \<Rightarrow> keyed_table option" where
  "delete_all_rows ty final k =
     (let t = ktable k; m = tmem t
      in Option.bind (free_keys (cell m (ll_head t)) m (kheap k)) (\<lambda>h.
         Option.bind (ctable_DropAllIndexes (creator_for ty (kvals k)) final (t\<lparr>tmem := run_writes (ctable_ListInit (ll_head t)) m\<rparr>)) (\<lambda>t1.
           Some (k\<lparr>ktable := t1, kheap := h, khash := ctable_DeleteHashTable (khash k), kcount := 0\<rparr>))))"

definition reset_table :: "table_type \<Rightarrow> keyed_table \<Rightarrow> keyed_table option" where
  "reset_table ty k = map_option (\<lambda>k1. k1\<lparr>khash := ctable_InitHashTable\<rparr>) (delete_all_rows ty False k)"

definition row_exists :: "cstring \<Rightarrow> keyed_table \<Rightarrow> bool option" where
  "row_exists key k = map_option (\<lambda>row. row \<noteq> 0) (ctable_FindHashEntry (kheap k) (khash k) key)"

section \<open>The invariant\<close>

text \<open>
  The lists and indexes of a table with the rows \<open>rows\<close>: the indexes of the fields \<open>I\<close> hold the rows \<open>S\<close>, except
  that those of fields outside \<open>P\<close> do not hold \<open>row\<close>.  All nodes are at addresses in \<open>As\<close>, and \<open>n\<close> more
  heights can be drawn.
\<close>

definition table_part :: "table_type \<Rightarrow> nat \<Rightarrow> nat set \<Rightarrow> addr set \<Rightarrow> nat \<Rightarrow> addr \<Rightarrow> nat set \<Rightarrow> (addr \<Rightarrow> nat \<Rightarrow> field_value) \<Rightarrow> ctable \<Rightarrow> addr list \<Rightarrow> addr set \<Rightarrow> bool" where
  "table_part ty mx I As n row P vals t rows S \<longleftrightarrow>
     (\<exists>ps rs. table_ok (creator_for ty vals) UNIV t rows ps rs
        \<and> (\<forall>f sk. skipLists t f = Some sk \<longrightarrow> maxh sk = mx \<and> shead sk \<in> As \<and> set (ps f) \<subseteq> As
             \<and> set (index_rows (ps f) (rs f)) = S - (if f \<in> P then {} else {row})))
     \<and> (\<forall>f. skipLists t f \<noteq> None \<longleftrightarrow> f \<in> I) \<and> ll_head t \<in> As \<and> 0 \<in> As \<and> heights_ok mx n (tlevel t) \<and> \<not> share_reader t"

definition type_ok :: "table_type \<Rightarrow> bool" where
  "type_ok ty \<longleftrightarrow> (\<forall>f. listNumber ty f \<noteq> 0) \<and> (\<forall>f g. f \<noteq> g \<and> 0 < listNumber ty f \<longrightarrow> listNumber ty f \<noteq> listNumber ty g)"

lemma creator_for_simps [simp]:
  "nFields (creator_for ty vals) = fieldCount ty" "indexNumber (creator_for ty vals) = listNumber ty"
  "unique (creator_for ty vals) = uniqueField ty"
  "compareFunction (creator_for ty vals) f = (\<lambda>r s. table_field_compare (vals r f) (vals s f))"
  by (simp_all add: creator_for_def)

lemma creator_for_ok: "type_ok ty \<Longrightarrow> creator_ok (creator_for ty vals)"
  using comparator_image [OF field_values.comparator_axioms, of "\<lambda>r. vals r f" for f]
  by (simp add: creator_ok_def type_ok_def row_comparator_def creator_for_def)

lemma table_partE:
  assumes "table_part ty mx I As n row P vals t rows S"
  obtains ps rs where "table_ok (creator_for ty vals) UNIV t rows ps rs"
    "\<forall>f sk. skipLists t f = Some sk \<longrightarrow> maxh sk = mx \<and> shead sk \<in> As \<and> set (ps f) \<subseteq> As
       \<and> set (index_rows (ps f) (rs f)) = S - (if f \<in> P then {} else {row})"
    "\<forall>f. skipLists t f \<noteq> None \<longleftrightarrow> f \<in> I" "ll_head t \<in> As" "0 \<in> As" "heights_ok mx n (tlevel t)" "\<not> share_reader t"
  using assms unfolding table_part_def by blast

lemma table_partI:
  assumes "table_ok (creator_for ty vals) UNIV t rows ps rs"
    "\<forall>f sk. skipLists t f = Some sk \<longrightarrow> maxh sk = mx \<and> shead sk \<in> As \<and> set (ps f) \<subseteq> As
       \<and> set (index_rows (ps f) (rs f)) = S - (if f \<in> P then {} else {row})"
    "\<forall>f. skipLists t f \<noteq> None \<longleftrightarrow> f \<in> I" "ll_head t \<in> As" "0 \<in> As" "heights_ok mx n (tlevel t)" "\<not> share_reader t"
  shows "table_part ty mx I As n row P vals t rows S"
proof -
  have "\<exists>ps rs. table_ok (creator_for ty vals) UNIV t rows ps rs
      \<and> (\<forall>f sk. skipLists t f = Some sk \<longrightarrow> maxh sk = mx \<and> shead sk \<in> As \<and> set (ps f) \<subseteq> As
        \<and> set (index_rows (ps f) (rs f)) = S - (if f \<in> P then {} else {row}))"
    by (rule exI, rule exI, rule conjI [OF assms(1, 2)])
  then show ?thesis using assms(3-7) by (simp only: table_part_def simp_thms)
qed

lemma table_part_rows: "table_part ty mx I As n row P vals t rows S \<Longrightarrow> is_list (tmem t) (ll_head t) 0 rows"
  by (elim table_partE) (rule table_okD(1))

lemma table_part_draws: "table_part ty mx I As (Suc n) row P vals t rows S \<Longrightarrow> table_part ty mx I As n row P vals t rows S"
  unfolding table_part_def using heights_ok_less by blast

lemma table_part_room: "table_part ty mx I As n row P vals t rows S \<Longrightarrow> As \<subseteq> B \<Longrightarrow> table_part ty mx I B n row P vals t rows S"
  unfolding table_part_def by blast

text \<open>Inserting a row into one more index.\<close>

definition keeps_list0 :: "ctable \<Rightarrow> ctable \<Rightarrow> bool" where
  "keeps_list0 t t' \<longleftrightarrow> (\<forall>r. lprev (tmem t') r 0 = lprev (tmem t) r 0)"

lemma table_part_unlinked:
  assumes "type_ok ty" "table_part ty mx I As n row P vals t rows (set rows)" "f \<in> I" "row \<in> set rows"
  shows "0 < listNumber ty f" "lprev (tmem t) row (nat (listNumber ty f)) = None \<longleftrightarrow> f \<notin> P"
proof -
  obtain ps rs where T: "table_ok (creator_for ty vals) UNIV t rows ps rs"
      "\<forall>f sk. skipLists t f = Some sk \<longrightarrow> set (index_rows (ps f) (rs f)) = set rows - (if f \<in> P then {} else {row})"
      "\<forall>f. skipLists t f \<noteq> None \<longleftrightarrow> f \<in> I"
    using assms(2) by (elim table_partE) blast
  obtain sk where sk: "skipLists t f = Some sk" using T(3) assms(3) by blast
  show "0 < listNumber ty f" using table_okD(2) [OF T(1) sk] by simp
  have "lprev (tmem t) row (nat (listNumber ty f)) \<noteq> None \<longleftrightarrow> row \<in> set (index_rows (ps f) (rs f))"
    using table_okD(4) [OF T(1) sk, of row] index_atD(6) [OF table_okD(3) [OF T(1) sk], of row] by auto
  moreover have "row \<in> set (index_rows (ps f) (rs f)) \<longleftrightarrow> f \<in> P" using T(2) sk assms(4) by simp
  ultimately show "lprev (tmem t) row (nat (listNumber ty f)) = None \<longleftrightarrow> f \<notin> P" by blast
qed

text \<open>A change of the index of one field.\<close>

lemma change_part:
  assumes part: "table_part ty mx I As m row P vals t rows S"
    and T: "table_ok (creator_for ty vals) UNIV t rows ps rs"
      "\<forall>f sk. skipLists t f = Some sk \<longrightarrow> maxh sk = mx \<and> shead sk \<in> As \<and> set (ps f) \<subseteq> As
         \<and> set (index_rows (ps f) (rs f)) = S - (if f \<in> P then {} else {row})"
    and sk: "skipLists t f = Some sk" and e: "same_elsewhere f t t'" and lv: "heights_ok mx n (tlevel t')"
    and ok: "table_ok (creator_for ty vals) UNIV t' rows (ps(f := ps')) (rs(f := rs'))"
    and new: "set ps' \<subseteq> Bs" "As \<subseteq> Bs" "set (index_rows ps' rs') = S - (if f \<in> Q then {} else {row})"
    and Q: "Q - {f} = P - {f}"
  shows "table_part ty mx I Bs n row Q vals t' rows S"
proof -
  have I: "\<forall>g. skipLists t g \<noteq> None \<longleftrightarrow> g \<in> I" and base: "ll_head t \<in> As" "0 \<in> As" "\<not> share_reader t"
    using part unfolding table_part_def by blast+
  have I': "\<forall>g. skipLists t' g \<noteq> None \<longleftrightarrow> g \<in> I"
  proof
    fix g show "skipLists t' g \<noteq> None \<longleftrightarrow> g \<in> I"
      using e I sk by (cases "g = f") (auto simp: same_elsewhere_def)
  qed
  have each: "\<forall>g s. skipLists t' g = Some s \<longrightarrow> maxh s = mx \<and> shead s \<in> Bs \<and> set ((ps(f := ps')) g) \<subseteq> Bs
      \<and> set (index_rows ((ps(f := ps')) g) ((rs(f := rs')) g)) = S - (if g \<in> Q then {} else {row})"
  proof (intro allI impI)
    fix g s assume s: "skipLists t' g = Some s"
    show "maxh s = mx \<and> shead s \<in> Bs \<and> set ((ps(f := ps')) g) \<subseteq> Bs
      \<and> set (index_rows ((ps(f := ps')) g) ((rs(f := rs')) g)) = S - (if g \<in> Q then {} else {row})"
    proof (cases "g = f")
      case True
      have "shead s = shead sk" "maxh s = maxh sk" using e sk s True by (auto simp: same_elsewhere_def)
      moreover have "maxh sk = mx" "shead sk \<in> Bs" using T(2) sk new(2) by blast+
      ultimately show ?thesis using new(1, 3) True by simp
    next
      case False
      then have g: "skipLists t g = Some s" using e s by (auto simp: same_elsewhere_def)
      have "g \<in> Q \<longleftrightarrow> g \<in> P" using Q False by blast
      moreover have "maxh s = mx" "shead s \<in> Bs" "set (ps g) \<subseteq> Bs"
          "set (index_rows (ps g) (rs g)) = S - (if g \<in> P then {} else {row})"
        using T(2) g new(2) by blast+
      ultimately show ?thesis using False by simp
    qed
  qed
  have base': "ll_head t' \<in> Bs" "0 \<in> Bs" "\<not> share_reader t'" using base e new(2) by (auto simp: same_elsewhere_def)
  show ?thesis by (rule table_partI [OF ok each I' base'(1, 2) lv base'(3)])
qed

lemma insert_part:
  assumes ty: "type_ok ty" and part: "table_part ty mx I As (Suc n) row P vals t rows (set rows)"
    and f: "f \<in> I" "f \<notin> P" and row: "row \<in> set rows" and a: "a \<notin> As"
  shows "\<exists>t'. ll_head t' = ll_head t \<and> keeps_list0 t t'
    \<and> (if uniqueField ty f \<and> (\<exists>r\<in>set rows - {row}. table_field_compare (vals row f) (vals r f) = 0)
       then ctable_InsertIntoIndex (creator_for ty vals) sanity a row f t = Some (Some (Unique_Check_Failed f), t')
         \<and> table_part ty mx I (insert a As) n row P vals t' rows (set rows)
       else ctable_InsertIntoIndex (creator_for ty vals) sanity a row f t = Some (None, t')
         \<and> table_part ty mx I (insert a As) n row (insert f P) vals t' rows (set rows))"
proof -
  obtain ps rs where T: "table_ok (creator_for ty vals) UNIV t rows ps rs"
      "\<forall>f sk. skipLists t f = Some sk \<longrightarrow> maxh sk = mx \<and> shead sk \<in> As \<and> set (ps f) \<subseteq> As
         \<and> set (index_rows (ps f) (rs f)) = set rows - (if f \<in> P then {} else {row})"
      "\<forall>f. skipLists t f \<noteq> None \<longleftrightarrow> f \<in> I" "ll_head t \<in> As" "0 \<in> As" "heights_ok mx (Suc n) (tlevel t)"
    using part by (rule table_partE)
  obtain sk where sk: "skipLists t f = Some sk" using T(3) f(1) by blast
  have ixf: "maxh sk = mx" "set (ps f) \<subseteq> As" "set (index_rows (ps f) (rs f)) = set rows - {row}"
    using T(2) sk f(2) by simp_all
  obtain h lev where lev: "rlevel (maxh sk) (tlevel t) = Some (h, lev)" "heights_ok mx n lev" "heights_ok mx n (tlevel t)"
    using T(6) ixf(1) by (metis heights_ok_step)
  have row0: "row \<noteq> 0" using is_list_null [OF table_okD(1) [OF T(1)]] row by metis
  have unl: "lprev (tmem t) row (list_no (creator_for ty vals) f) = None"
    using table_part_unlinked(2) [OF ty part f(1) row] f(2) by simp
  have fr: "fresh_node t ps a" using T(2, 4, 5) a unfolding fresh_node_def by (metis subsetD)
  let ?old = "index_rows (ps f) (rs f)" and ?c = "compareFunction (creator_for ty vals) f"
  from insert_index_table [OF creator_for_ok [OF ty] T(1) sk row0 unl fr lev(1), of sanity]
  obtain t' ps' rs' c where R: "same_elsewhere f t t'" "tlevel t' = tlevel t \<or> tlevel t' = lev"
      "table_ok (creator_for ty vals) UNIV t' rows (ps(f := ps')) (rs(f := rs'))" "set ps' \<subseteq> insert a (set (ps f))"
      "unchanged_for c (list_no (creator_for ty vals) f) (insert row (set ?old)) (tmem t) (tmem t')"
      "if (\<exists>r\<in>set ?old. ?c row r = 0) \<and> uniqueField ty f
       then ctable_InsertIntoIndex (creator_for ty vals) sanity a row f t = Some (Some (Unique_Check_Failed f), t')
         \<and> tmem t' = tmem t \<and> index_rows ps' rs' = ?old
       else ctable_InsertIntoIndex (creator_for ty vals) sanity a row f t = Some (None, t')
         \<and> index_rows ps' rs' = rows_after_insert ?c row ?old"
    unfolding creator_for_simps(3) by metis
  have "list_no (creator_for ty vals) f \<noteq> 0" using table_part_unlinked(1) [OF ty part f(1) row] by simp
  then have keep: "ll_head t' = ll_head t \<and> keeps_list0 t t'"
    using R(1, 5) by (simp add: same_elsewhere_def keeps_list0_def unchanged_for_def)
  have lv: "heights_ok mx n (tlevel t')" using R(2) lev(2, 3) by auto
  have "set ps' \<subseteq> insert a As" using R(4) ixf(2) by blast
  note part' = change_part [OF part T(1, 2) sk R(1) lv R(3) this subset_insertI]
  have ex: "(\<exists>r\<in>set ?old. ?c row r = 0) \<longleftrightarrow> (\<exists>r\<in>set rows - {row}. table_field_compare (vals row f) (vals r f) = 0)"
    unfolding ixf(3) by simp
  show ?thesis
  proof (cases "uniqueField ty f \<and> (\<exists>r\<in>set rows - {row}. table_field_compare (vals row f) (vals r f) = 0)")
    case True
    then have "ctable_InsertIntoIndex (creator_for ty vals) sanity a row f t = Some (Some (Unique_Check_Failed f), t')"
        "index_rows ps' rs' = ?old" using R(6) ex by simp_all
    then show ?thesis using True keep part' [of P] ixf(3) f(2) by (intro exI [of _ t']) simp
  next
    case False
    then have ins: "ctable_InsertIntoIndex (creator_for ty vals) sanity a row f t = Some (None, t')"
        "index_rows ps' rs' = rows_after_insert ?c row ?old" using R(6) ex by auto
    have "set (index_rows ps' rs') = set rows" unfolding ins(2) set_rows_after_insert ixf(3) using row by blast
    then show ?thesis using False ins(1) keep part' [of "insert f P"] by (intro exI [of _ t']) simp
  qed
qed

text \<open>Taking a row out of one index.\<close>

lemma remove_part:
  assumes ty: "type_ok ty" and part: "table_part ty mx I As n row P vals t rows S" and f: "f \<in> I" "0 < listNumber ty f"
  shows "\<exists>t'. ctable_RemoveFromIndex (creator_for ty vals) sanity row f t = Some (None, t')
    \<and> table_part ty mx I As n row (P - {f}) vals t' rows S \<and> ll_head t' = ll_head t \<and> keeps_list0 t t'"
proof -
  obtain ps rs where T: "table_ok (creator_for ty vals) UNIV t rows ps rs"
      "\<forall>f sk. skipLists t f = Some sk \<longrightarrow> maxh sk = mx \<and> shead sk \<in> As \<and> set (ps f) \<subseteq> As
         \<and> set (index_rows (ps f) (rs f)) = S - (if f \<in> P then {} else {row})"
      "\<forall>f. skipLists t f \<noteq> None \<longleftrightarrow> f \<in> I" "ll_head t \<in> As" "0 \<in> As" "heights_ok mx n (tlevel t)"
    using part by (rule table_partE)
  obtain sk where sk: "skipLists t f = Some sk" using T(3) f(1) by blast
  from remove_index_table [OF creator_for_ok [OF ty] T(1) sk UNIV_I, of sanity row]
  obtain t' ps' rs' c where R: "ctable_RemoveFromIndex (creator_for ty vals) sanity row f t = Some (None, t')"
      "same_elsewhere f t t'" "tlevel t' = tlevel t" "table_ok (creator_for ty vals) UNIV t' rows (ps(f := ps')) (rs(f := rs'))"
      "index_rows ps' rs' = filter (\<lambda>r. r \<noteq> row) (index_rows (ps f) (rs f))"
      "unchanged_for c (list_no (creator_for ty vals) f) (set (index_rows (ps f) (rs f))) (tmem t) (tmem t')" "set ps' \<subseteq> set (ps f)"
    by metis
  have "set (index_rows (ps f) (rs f)) = S - (if f \<in> P then {} else {row})" and ps: "set (ps f) \<subseteq> As"
    using T(2) sk by simp_all
  then have new: "set (index_rows ps' rs') = S - (if f \<in> P - {f} then {} else {row})"
    unfolding R(5) set_filter by auto
  have "table_part ty mx I As n row (P - {f}) vals t' rows S"
    by (rule change_part [OF part T(1, 2) sk R(2) _ R(4) _ _ new]) (use R(3, 7) T(6) ps in auto)
  moreover have "ll_head t' = ll_head t \<and> keeps_list0 t t'"
    using R(2, 6) f(2) by (simp add: same_elsewhere_def keeps_list0_def unchanged_for_def)
  ultimately show ?thesis using R(1) by blast
qed

text \<open>Only the links and values of the rows in the indexes matter.\<close>

lemma is_list_agree:
  assumes "is_list m c i rs" "cell m' c = cell m c"
    "\<And>r. r \<in> set rs \<Longrightarrow> lnext m' r i = lnext m r i \<and> lprev m' r i = lprev m r i \<and> lhead m' r i = lhead m r i"
  shows "is_list m' c i rs"
proof -
  have "reads m' i (HeadCell c) rs" by (rule reads_cong [where m = m]) (use assms in \<open>auto simp: is_list_def\<close>)
  moreover have "backs m' i (HeadCell c) rs" by (rule backs_cong [where m = m]) (use assms in \<open>auto simp: is_list_def\<close>)
  ultimately show ?thesis using assms by (auto simp: is_list_def)
qed

lemma index_at_agree:
  assumes ix: "index_at cmp i sk ps rs"
    and cmp: "\<forall>r\<in>set (index_rows ps rs). \<forall>s\<in>set (index_rows ps rs). cmp' r s = cmp r s"
    and m: "cell m = cell (slist sk)"
      "\<forall>r\<in>set (index_rows ps rs). lnext m r i = lnext (slist sk) r i \<and> lprev m r i = lprev (slist sk) r i \<and> lhead m r i = lhead (slist sk) r i"
  shows "index_at cmp' i (sk\<lparr>slist := m\<rparr>) ps rs"
proof -
  obtain lv where lv: "skip_inv cmp sk lv" "lv 0 = ps" using ix by (rule index_atE)
  have row: "srow sk p \<in> set (index_rows ps rs)" if "p \<in> set ps" for p using index_atD(4) [OF ix that] that by auto
  have "levels_ok (sk\<lparr>slist := m\<rparr>) lv" using lv(1) by (auto simp: skip_inv_def intro: levels_ok_cong)
  moreover have "level_order cmp' (sk\<lparr>slist := m\<rparr>) p q \<longleftrightarrow> level_order cmp sk p q" if "p \<in> set ps" "q \<in> set ps" for p q
    using bspec [OF bspec [OF cmp row [OF that(1)]] row [OF that(2)]] by (simp add: level_order_def m(1))
  then have "sorted_wrt (level_order cmp' (sk\<lparr>slist := m\<rparr>)) ps"
    using lv sorted_wrt_mono_rel [of ps "level_order cmp sk"] by (simp add: skip_inv_def)
  ultimately have "skip_inv cmp' (sk\<lparr>slist := m\<rparr>) lv" using lv(2) by (simp add: skip_inv_def)
  moreover have "rs p \<noteq> [] \<and> is_list m p i (rs p) \<and> (\<forall>r\<in>set (rs p). cmp' (srow (sk\<lparr>slist := m\<rparr>) p) r = 0)" if p: "p \<in> set ps" for p
  proof -
    have sub: "r \<in> set (rs p) \<Longrightarrow> r \<in> set (index_rows ps rs)" for r using p by auto
    note l = index_atD(2) [OF ix p]
    have "is_list m p i (rs p)" by (rule is_list_agree [OF l fun_cong [OF m(1)]]) (use m(2) sub in blast)
    moreover have "cmp' (srow sk p) r = 0" if "r \<in> set (rs p)" for r
      using index_atD(3) [OF ix p that] bspec [OF bspec [OF cmp row [OF p]] sub [OF that]] by simp
    ultimately show ?thesis using index_atD(1) [OF ix p] m(1) by simp
  qed
  ultimately show ?thesis using lv(2) by (auto simp: index_at_def)
qed

lemma agree_part:
  assumes part: "table_part ty mx I As n row P vals t rows (set rows)"
    and m: "cell m = cell (tmem t)"
      "\<forall>r\<in>set rows. \<forall>j. lnext m r j = lnext (tmem t) r j \<and> lprev m r j = lprev (tmem t) r j \<and> lhead m r j = lhead (tmem t) r j"
      "\<forall>r j. r \<notin> set rows \<longrightarrow> lprev m r j \<noteq> None \<longrightarrow> lprev (tmem t) r j \<noteq> None"
    and vals: "\<forall>r\<in>set rows. \<forall>f\<in>I. r \<noteq> row \<or> f \<in> P \<longrightarrow> vals' r f = vals r f"
  shows "table_part ty mx I As n row P vals' (t\<lparr>tmem := m\<rparr>) rows (set rows)"
proof -
  obtain ps rs where T: "table_ok (creator_for ty vals) UNIV t rows ps rs"
      "\<forall>f sk. skipLists t f = Some sk \<longrightarrow> maxh sk = mx \<and> shead sk \<in> As \<and> set (ps f) \<subseteq> As
         \<and> set (index_rows (ps f) (rs f)) = set rows - (if f \<in> P then {} else {row})"
      "\<forall>f. skipLists t f \<noteq> None \<longleftrightarrow> f \<in> I" "ll_head t \<in> As" "0 \<in> As" "heights_ok mx n (tlevel t)" "\<not> share_reader t"
    using part by (rule table_partE)
  note D = table_okD [OF T(1)]
  have l0: "is_list m (ll_head t) 0 rows" by (rule is_list_agree [OF D(1)]) (use m in auto)
  have ix: "index_at (compareFunction (creator_for ty vals') f) (nat (listNumber ty f)) (sk\<lparr>slist := m\<rparr>) (ps f) (rs f)
      \<and> (\<forall>r. lprev m r (nat (listNumber ty f)) \<noteq> None \<longrightarrow> r \<in> set (index_rows (ps f) (rs f)))" if sk: "skipLists t f = Some sk" for f sk
  proof
    have S: "set (index_rows (ps f) (rs f)) = set rows - (if f \<in> P then {} else {row})" using T(2) sk by blast
    have fI: "f \<in> I" using T(3) sk by blast
    note ix = D(3) [OF sk, unfolded creator_for_simps(2)]
    have c: "\<forall>r\<in>set (index_rows (ps f) (rs f)). \<forall>s\<in>set (index_rows (ps f) (rs f)).
        compareFunction (creator_for ty vals') f r s = compareFunction (creator_for ty vals) f r s"
      unfolding S using vals fI by (auto split: if_splits)
    have l: "\<forall>r\<in>set (index_rows (ps f) (rs f)). lnext m r i = lnext (tmem t) r i \<and> lprev m r i = lprev (tmem t) r i \<and> lhead m r i = lhead (tmem t) r i"
      for i unfolding S using m(2) by simp
    from index_at_agree [OF ix c, of m] l m(1)
    have "index_at (compareFunction (creator_for ty vals') f) (nat (listNumber ty f)) (sk\<lparr>slist := tmem t, slist := m\<rparr>) (ps f) (rs f)"
      by simp
    then show "index_at (compareFunction (creator_for ty vals') f) (nat (listNumber ty f)) (sk\<lparr>slist := m\<rparr>) (ps f) (rs f)" by simp
    have "lprev m r j \<noteq> None \<longrightarrow> lprev (tmem t) r j \<noteq> None" for r j using m(2, 3) by (cases "r \<in> set rows") auto
    then show "\<forall>r. lprev m r (nat (listNumber ty f)) \<noteq> None \<longrightarrow> r \<in> set (index_rows (ps f) (rs f))"
      using D(4) [OF sk UNIV_I, unfolded creator_for_simps] by blast
  qed
  have "table_ok (creator_for ty vals') UNIV (t\<lparr>tmem := m\<rparr>) rows ps rs"
    using l0 ix D(2, 5) unfolding table_ok_def by simp
  then show ?thesis by (rule table_partI) (use T(2-7) in simp_all)
qed

text \<open>A value may change in a field whose index does not hold the row.\<close>

lemma revalue_part:
  assumes "table_part ty mx I As n row P vals t rows (set rows)" "f \<in> I \<longrightarrow> f \<notin> P"
  shows "table_part ty mx I As n row P (vals(row := (vals row)(f := v))) t rows (set rows)"
  using agree_part [OF assms(1), of "tmem t" "vals(row := (vals row)(f := v))"] assms(2) by fastforce

text \<open>Adding a row to list 0, and taking one out.\<close>

lemma add_row_part:
  assumes ty: "type_ok ty" and part: "table_part ty mx I As n row' UNIV vals t rows (set rows)"
    and row: "row \<noteq> 0" "row \<notin> set rows" "lprev (tmem t) row 0 = None"
  shows "\<exists>ws. ctable_ListInsertHead sanity (tmem t) (ll_head t) row 0 = Inr ws
    \<and> table_part ty mx I As n row {} vals (t\<lparr>tmem := run_writes ws (tmem t)\<rparr>) (row # rows) (set (row # rows))"
proof -
  obtain ps rs where T: "table_ok (creator_for ty vals) UNIV t rows ps rs"
      "\<forall>f sk. skipLists t f = Some sk \<longrightarrow> maxh sk = mx \<and> shead sk \<in> As \<and> set (ps f) \<subseteq> As
         \<and> set (index_rows (ps f) (rs f)) = set rows - (if f \<in> UNIV then {} else {row'})"
      "\<forall>f. skipLists t f \<noteq> None \<longleftrightarrow> f \<in> I" "ll_head t \<in> As" "0 \<in> As" "heights_ok mx n (tlevel t)" "\<not> share_reader t"
    using part by (rule table_partE)
  note D = table_okD [OF T(1)]
  obtain ws where ws: "ctable_ListInsertHead sanity (tmem t) (ll_head t) row 0 = Inr ws"
      "is_list (run_writes ws (tmem t)) (ll_head t) 0 (row # rows)"
      "unchanged_for (ll_head t) 0 (insert row (set rows)) (tmem t) (run_writes ws (tmem t))"
    using insert_head_list [OF D(1) row(1, 2), of sanity] row(3) by blast
  let ?m = "run_writes ws (tmem t)"
  have "index_at (compareFunction (creator_for ty vals) f) (list_no (creator_for ty vals) f) (sk\<lparr>slist := ?m\<rparr>) (ps f) (rs f)
      \<and> (\<forall>r. lprev ?m r (list_no (creator_for ty vals) f) = lprev (tmem t) r (list_no (creator_for ty vals) f))" if "skipLists t f = Some sk" for f sk
  proof -
    have n: "list_no (creator_for ty vals) f \<noteq> 0" using D(2) [OF that] by simp
    have "index_at (compareFunction (creator_for ty vals) f) (list_no (creator_for ty vals) f) (sk\<lparr>slist := tmem t, slist := ?m\<rparr>) (ps f) (rs f)"
      by (rule index_at_frame [OF D(3) [OF that] _ _ n]) (use ws(3) D(2) [OF that] in auto)
    then show ?thesis using ws(3) n by (simp add: unchanged_for_def)
  qed
  then have "table_ok (creator_for ty vals) UNIV (t\<lparr>tmem := ?m\<rparr>) (row # rows) ps rs"
    using ws(2) D(2, 4, 5) unfolding table_ok_def by simp
  then have "table_part ty mx I As n row {} vals (t\<lparr>tmem := ?m\<rparr>) (row # rows) (set (row # rows))"
    by (rule table_partI) (use T(2-7) row(2) in simp_all)
  then show ?thesis using ws(1) by blast
qed

lemma part_list_no: "table_part ty mx I As n row P vals t rows S \<Longrightarrow> f \<in> I \<Longrightarrow> 0 < listNumber ty f"
  by (elim table_partE) (metis creator_for_simps(2) not_None_eq table_okD(2))

lemma part_indexed: "table_part ty mx I As n row P vals t rows S \<Longrightarrow> skipLists t f \<noteq> None \<longleftrightarrow> f \<in> I"
  unfolding table_part_def by blast

lemma table_part_fields:
  assumes "table_part ty mx I As n row P vals t rows S" "\<forall>f\<in>I. S - (if f \<in> P then {} else {row}) = S' - (if f \<in> Q then {} else {row'})"
  shows "table_part ty mx I As n row' Q vals t rows S'"
proof -
  obtain ps rs where T: "table_ok (creator_for ty vals) UNIV t rows ps rs"
      "\<forall>f sk. skipLists t f = Some sk \<longrightarrow> maxh sk = mx \<and> shead sk \<in> As \<and> set (ps f) \<subseteq> As
         \<and> set (index_rows (ps f) (rs f)) = S - (if f \<in> P then {} else {row})"
      "\<forall>f. skipLists t f \<noteq> None \<longleftrightarrow> f \<in> I" "ll_head t \<in> As" "0 \<in> As" "heights_ok mx n (tlevel t)" "\<not> share_reader t"
    using assms(1) by (rule table_partE)
  have "\<forall>f sk. skipLists t f = Some sk \<longrightarrow> maxh sk = mx \<and> shead sk \<in> As \<and> set (ps f) \<subseteq> As
         \<and> set (index_rows (ps f) (rs f)) = S' - (if f \<in> Q then {} else {row'})"
  proof (intro allI impI)
    fix f sk assume f: "skipLists t f = Some sk"
    then have "f \<in> I" using T(3) by blast
    with assms(2) have "S - (if f \<in> P then {} else {row}) = S' - (if f \<in> Q then {} else {row'})" by (rule bspec)
    then show "maxh sk = mx \<and> shead sk \<in> As \<and> set (ps f) \<subseteq> As \<and> set (index_rows (ps f) (rs f)) = S' - (if f \<in> Q then {} else {row'})"
      using T(2) f by simp
  qed
  from table_partI [OF T(1) this T(3-7)] show ?thesis .
qed

text \<open>Taking a row out of everything.\<close>

lemma remove_fields_part:
  assumes ty: "type_ok ty"
  shows "table_part ty mx I As n row P vals t rows S
    \<Longrightarrow> \<exists>t'. remove_fields (creator_for ty vals) sanity row fs t = Some (None, t')
      \<and> table_part ty mx I As n row (P - set fs) vals t' rows S \<and> ll_head t' = ll_head t \<and> keeps_list0 t t'"
proof (induction fs arbitrary: t P)
  case Nil
  then show ?case by (simp add: keeps_list0_def)
next
  case (Cons f fs)
  show ?case
  proof (cases "f \<in> I")
    case True
    obtain t1 where R: "ctable_RemoveFromIndex (creator_for ty vals) sanity row f t = Some (None, t1)"
        "table_part ty mx I As n row (P - {f}) vals t1 rows S" "ll_head t1 = ll_head t" "keeps_list0 t t1"
      using remove_part [OF ty Cons.prems True part_list_no [OF Cons.prems True]] by blast
    have "skipLists t f \<noteq> None" using part_indexed [OF Cons.prems] True by blast
    moreover have "P - {f} - set fs = P - set (f # fs)" by auto
    ultimately show ?thesis using Cons.IH [OF R(2)] R(1, 3, 4) by (auto simp: keeps_list0_def)
  next
    case False
    have none: "skipLists t f = None" using part_indexed [OF Cons.prems] False by blast
    obtain t' where R: "remove_fields (creator_for ty vals) sanity row fs t = Some (None, t')"
        "table_part ty mx I As n row (P - set fs) vals t' rows S" "ll_head t' = ll_head t" "keeps_list0 t t'"
      using Cons.IH [OF Cons.prems] by blast
    have "table_part ty mx I As n row (P - set (f # fs)) vals t' rows S"
      by (rule table_part_fields [OF R(2)]) (use False in auto)
    then show ?thesis using none R(1, 3, 4) by auto
  qed
qed

lemma remove_all_part:
  assumes ty: "type_ok ty" and part: "table_part ty mx I As n row' UNIV vals t (xs @ row # ys) (set (xs @ row # ys))"
    and I: "\<forall>f\<in>I. f < fieldCount ty"
  shows "\<exists>t'. ctable_RemoveFromAllIndexes (creator_for ty vals) sanity row t = Some (None, t')
    \<and> table_part ty mx I As n row'' UNIV vals t' (xs @ ys) (set (xs @ ys))
    \<and> (\<forall>r. r \<notin> set (xs @ row # ys) \<longrightarrow> lprev (tmem t') r 0 = lprev (tmem t) r 0)"
proof -
  have part': "table_part ty mx I As n row UNIV vals t (xs @ row # ys) (set (xs @ row # ys))"
    by (rule table_part_fields [OF part]) simp
  obtain ps rs where T: "table_ok (creator_for ty vals) UNIV t (xs @ row # ys) ps rs"
      "\<forall>f sk. skipLists t f = Some sk \<longrightarrow> maxh sk = mx \<and> shead sk \<in> As \<and> set (ps f) \<subseteq> As
         \<and> set (index_rows (ps f) (rs f)) = set (xs @ row # ys) - (if f \<in> UNIV then {} else {row})"
      "\<forall>f. skipLists t f \<noteq> None \<longleftrightarrow> f \<in> I" "ll_head t \<in> As" "0 \<in> As" "heights_ok mx n (tlevel t)" "\<not> share_reader t"
    using part' by (rule table_partE)
  have dist: "row \<notin> set (xs @ ys)" using table_okD(1) [OF T(1)] by (auto simp: is_list_def)
  obtain ws where ws: "ctable_ListRemove sanity (tmem t) row 0 = Inr ws"
      "table_ok (creator_for ty vals) UNIV (t\<lparr>tmem := run_writes ws (tmem t)\<rparr>) (xs @ ys) ps rs"
    using remove_row_table [OF creator_for_ok [OF ty] T(1), of sanity] by blast
  let ?t = "t\<lparr>tmem := run_writes ws (tmem t)\<rparr>"
  have un: "unchanged_for (ll_head t) 0 (set (xs @ row # ys)) (tmem t) (run_writes ws (tmem t))"
    using remove_list [OF table_okD(1) [OF T(1)], of sanity] ws(1) by auto
  have "table_part ty mx I As n row UNIV vals ?t (xs @ ys) (set (xs @ row # ys))"
    by (rule table_partI [OF ws(2)]) (use T(2-7) in auto)
  from remove_fields_part [OF ty this, of sanity "[0..<fieldCount ty]"]
  obtain t' where t': "remove_fields (creator_for ty vals) sanity row [0..<fieldCount ty] ?t = Some (None, t')"
      "table_part ty mx I As n row (UNIV - {0..<fieldCount ty}) vals t' (xs @ ys) (set (xs @ row # ys))" "keeps_list0 ?t t'"
    by auto
  have "table_part ty mx I As n row'' UNIV vals t' (xs @ ys) (set (xs @ ys))"
    by (rule table_part_fields [OF t'(2)]) (use I dist in auto)
  moreover have "lprev (tmem t') r 0 = lprev (tmem t) r 0" if "r \<notin> set (xs @ row # ys)" for r
    using t'(3) un that by (simp add: keeps_list0_def unchanged_for_def)
  ultimately show ?thesis using ws(1) t'(1) by (auto simp: ctable_RemoveFromAllIndexes_def)
qed

section \<open>Setting values\<close>

text \<open>No other row has the value in a field that must be unique.\<close>

definition no_conflict :: "table_type \<Rightarrow> nat set \<Rightarrow> (addr \<Rightarrow> nat \<Rightarrow> field_value) \<Rightarrow> addr list \<Rightarrow> addr \<Rightarrow> nat \<Rightarrow> field_value \<Rightarrow> bool" where
  "no_conflict ty I vals rows row f v \<longleftrightarrow>
     (f \<in> I \<and> uniqueField ty f \<longrightarrow> (\<forall>r\<in>set rows - {row}. table_field_compare v (vals r f) \<noteq> 0))"

fun set_values :: "(nat \<times> field_value \<times> addr) list \<Rightarrow> (nat \<Rightarrow> field_value) \<Rightarrow> (nat \<Rightarrow> field_value)" where
  "set_values [] v = v"
| "set_values ((f, w, a) # ss) v = set_values ss (if unchanged (v f) w then v else v(f := w))"

text \<open>What setting values leaves alone.\<close>

definition same_keys :: "keyed_table \<Rightarrow> keyed_table \<Rightarrow> bool" where
  "same_keys k k' \<longleftrightarrow> kheap k' = kheap k \<and> khash k' = khash k \<and> kcount k' = kcount k \<and> savedRow k' = savedRow k
     \<and> ll_head (ktable k') = ll_head (ktable k) \<and> keeps_list0 (ktable k) (ktable k')"

lemma same_keys_refl [simp]: "same_keys k k"
  by (simp add: same_keys_def keeps_list0_def)

lemma same_keys_trans: "same_keys k k' \<Longrightarrow> same_keys k' k'' \<Longrightarrow> same_keys k k''"
  by (simp add: same_keys_def keeps_list0_def)

text \<open>The row leaves the index, unless it is new.\<close>

lemma step_part:
  assumes ty: "type_ok ty" and part: "table_part ty mx I As n row P vals t rows S" and f: "f \<in> I" and P: "if isNew then f \<notin> P else P = UNIV"
  obtains t1 where "(if \<not> isNew \<and> skipLists t f \<noteq> None then ctable_RemoveFromIndex (creator_for ty vals) sanity row f t
        else Some (None, t)) = Some (None, t1)" "table_part ty mx I As n row (P - {f}) vals t1 rows S"
    "ll_head t1 = ll_head t" "keeps_list0 t t1"
proof (cases isNew)
  case True
  then have "P - {f} = P" using P by simp
  then show thesis using that [of t] part True by (simp add: keeps_list0_def)
next
  case False
  then show thesis
    using that remove_part [OF ty part f part_list_no [OF part f], of sanity] part_indexed [OF part, of f] f by auto
qed

lemma set_field_part:
  assumes ty: "type_ok ty" and part: "table_part ty mx I As (Suc n) row P (kvals k) (ktable k) rows (set rows)"
    and row: "row \<in> set rows" and a: "a \<notin> As" and P: "if isNew then f \<notin> P else P = UNIV"
    and nc: "no_conflict ty I (kvals k) rows row f w"
  shows "\<exists>k' Q. set_field_value ty sanity row isNew (f, w, a) k = Some (None, k')
    \<and> table_part ty mx I (insert a As) n row Q (kvals k') (ktable k') rows (set rows) \<and> P \<subseteq> Q \<and> Q \<subseteq> insert f P
    \<and> (f \<in> I \<longrightarrow> \<not> unchanged (kvals k row f) w \<longrightarrow> f \<in> Q)
    \<and> kvals k' = (kvals k)(row := set_values [(f, w, a)] (kvals k row)) \<and> same_keys k k'"
proof (cases "unchanged (kvals k row f) w")
  case True
  then show ?thesis
    using table_part_room [OF table_part_draws [OF part] subset_insertI] by (intro exI [of _ k] exI [of _ P]) (simp add: set_field_value_def subset_insertI)
next
  case changed: False
  let ?vals = "(kvals k)(row := (kvals k row)(f := w))"
  note sk = part_indexed [OF part]
  show ?thesis
  proof (cases "f \<in> I")
    case False
    have "table_part ty mx I (insert a As) n row P ?vals (ktable k) rows (set rows)"
      using revalue_part [OF table_part_room [OF table_part_draws [OF part] subset_insertI]] False by blast
    then show ?thesis using changed sk [of f] False
      by (intro exI [of _ "k\<lparr>kvals := ?vals\<rparr>"] exI [of _ P])
        (simp add: set_field_value_def subset_insertI same_keys_def keeps_list0_def Let_def)
  next
    case True
    let ?step = "if \<not> isNew \<and> skipLists (ktable k) f \<noteq> None
      then ctable_RemoveFromIndex (creator_for ty (kvals k)) sanity row f (ktable k) else Some (None, ktable k)"
    obtain t1 where t1: "?step = Some (None, t1)" "table_part ty mx I As (Suc n) row (P - {f}) (kvals k) t1 rows (set rows)"
        "ll_head t1 = ll_head (ktable k)" "keeps_list0 (ktable k) t1"
      using step_part [OF ty part True P] .
    have part1: "table_part ty mx I As (Suc n) row (P - {f}) ?vals t1 rows (set rows)" by (rule revalue_part [OF t1(2)]) simp
    have free: "\<not> (uniqueField ty f \<and> (\<exists>r\<in>set rows - {row}. table_field_compare (?vals row f) (?vals r f) = 0))"
      using nc True by (auto simp: no_conflict_def)
    obtain t2 where t2: "ctable_InsertIntoIndex (creator_for ty ?vals) sanity a row f t1 = Some (None, t2)"
        "table_part ty mx I (insert a As) n row (insert f (P - {f})) ?vals t2 rows (set rows)" "ll_head t2 = ll_head t1" "keeps_list0 t1 t2"
      using insert_part [OF ty part1 True _ row a, of sanity] free by auto
    have "skipLists t1 f \<noteq> None" using part_indexed [OF t1(2)] True by blast
    then have "set_field_value ty sanity row isNew (f, w, a) k = Some (None, k\<lparr>ktable := t2, kvals := ?vals\<rparr>)"
      using changed t1(1) t2(1) by (simp add: set_field_value_def Let_def)
    then show ?thesis using changed t2(2-4) t1(3, 4)
      by (intro exI [of _ "k\<lparr>ktable := t2, kvals := ?vals\<rparr>"] exI [of _ "insert f (P - {f})"]) (auto simp: same_keys_def keeps_list0_def)
  qed
qed

end
