(* ===== verification/KeyedCorrect.thy ===== *)
theory KeyedCorrect
  imports KeyedTable
begin

text \<open>
  The methods of a table keep its hash table, its list of rows and its indexes in step, and act on the
  table as on a list of keys with the values of their rows.
\<close>

section \<open>Several fields\<close>

lemma set_values_Cons: "set_values (s # ss) v = set_values ss (set_values [s] v)"
  by (cases s) simp

lemma set_fields_part:
  assumes ty: "type_ok ty" and row: "row \<in> set rows"
  shows "\<lbrakk>table_part ty mx I As (length sets + n) row P (kvals k) (ktable k) rows (set rows);
      distinct (map (snd \<circ> snd) sets); set (map (snd \<circ> snd) sets) \<inter> As = {};
      if isNew then distinct (map fst sets) \<and> set (map fst sets) \<inter> P = {} else P = UNIV;
      \<forall>(f, w, a)\<in>set sets. no_conflict ty I (kvals k) rows row f w\<rbrakk>
    \<Longrightarrow> \<exists>k' Q. set_field_values ty sanity row isNew sets k = Some (None, k')
      \<and> table_part ty mx I (As \<union> set (map (snd \<circ> snd) sets)) n row Q (kvals k') (ktable k') rows (set rows)
      \<and> P \<subseteq> Q \<and> kvals k' = (kvals k)(row := set_values sets (kvals k row)) \<and> same_keys k k'"
proof (induction sets arbitrary: k P As)
  case Nil
  then show ?case by auto
next
  case (Cons s sets)
  obtain f w a where s: "s = (f, w, a)" by (cases s)
  have "table_part ty mx I As (Suc (length sets + n)) row P (kvals k) (ktable k) rows (set rows)" using Cons.prems(1) by simp
  from set_field_part [OF ty this row, of a isNew f w sanity] Cons.prems(2-5) s
  obtain k1 Q where R: "set_field_value ty sanity row isNew (f, w, a) k = Some (None, k1)"
      "table_part ty mx I (insert a As) (length sets + n) row Q (kvals k1) (ktable k1) rows (set rows)" "P \<subseteq> Q" "Q \<subseteq> insert f P"
      "kvals k1 = (kvals k)(row := set_values [(f, w, a)] (kvals k row))" "same_keys k k1"
    by (auto split: if_splits)
  have nc: "\<forall>(f, w, a)\<in>set sets. no_conflict ty I (kvals k1) rows row f w"
    using Cons.prems(5) R(5) by (auto simp: no_conflict_def)
  have "if isNew then distinct (map fst sets) \<and> set (map fst sets) \<inter> Q = {} else Q = UNIV"
  proof (cases isNew)
    case True
    then have "distinct (map fst sets)" "set (map fst sets) \<inter> insert f P = {}" using Cons.prems(4) s by auto
    then show ?thesis using R(4) True by auto
  qed (use Cons.prems(4) R(3) in auto)
  moreover have "distinct (map (snd \<circ> snd) sets)" "set (map (snd \<circ> snd) sets) \<inter> insert a As = {}"
    using Cons.prems(2, 3) s by (auto simp: comp_def)
  ultimately obtain k' Q' where R': "set_field_values ty sanity row isNew sets k1 = Some (None, k')"
      "table_part ty mx I (insert a As \<union> set (map (snd \<circ> snd) sets)) n row Q' (kvals k') (ktable k') rows (set rows)" "Q \<subseteq> Q'"
      "kvals k' = (kvals k1)(row := set_values sets (kvals k1 row))" "same_keys k1 k'"
    using Cons.IH [OF R(2)] nc by blast
  have U: "As \<union> set (map (snd \<circ> snd) (s # sets)) = insert a As \<union> set (map (snd \<circ> snd) sets)" using s by auto
  have "kvals k' = (kvals k)(row := set_values (s # sets) (kvals k row))"
    using R(5) R'(4) by (simp add: set_values_Cons [of s] s)
  moreover have "set_field_values ty sanity row isNew (s # sets) k = Some (None, k')" using R(1) R'(1) s by simp
  moreover have "P \<subseteq> Q'" "same_keys k k'" using R(3, 6) R'(3, 5) same_keys_trans by blast+
  ultimately show ?case using R'(2) unfolding U by blast
qed

lemma index_fields_part:
  assumes ty: "type_ok ty" and row: "row \<in> set rows"
  shows "\<lbrakk>table_part ty mx I As (length fs + n) row P vals t rows (set rows); distinct (map nodes fs); nodes ` set fs \<inter> As = {};
      \<forall>f\<in>set fs. no_conflict ty I vals rows row f (vals row f)\<rbrakk>
    \<Longrightarrow> \<exists>t'. index_fields (creator_for ty vals) sanity nodes row fs t = Some (None, t')
      \<and> table_part ty mx I (As \<union> nodes ` set fs) n row (P \<union> set fs) vals t' rows (set rows)
      \<and> ll_head t' = ll_head t \<and> keeps_list0 t t'"
proof (induction fs arbitrary: t P As)
  case Nil
  then show ?case by (simp add: keeps_list0_def)
next
  case (Cons f fs)
  have part: "table_part ty mx I As (Suc (length fs + n)) row P vals t rows (set rows)" using Cons.prems(1) by simp
  have U: "As \<union> nodes ` set (f # fs) = insert (nodes f) As \<union> nodes ` set fs" "P \<union> set (f # fs) = insert f P \<union> set fs" by auto
  have fs: "distinct (map nodes fs)" "nodes ` set fs \<inter> insert (nodes f) As = {}" using Cons.prems(2, 3) by auto
  have rest: "\<exists>t'. index_fields (creator_for ty vals) sanity nodes row fs t1 = Some (None, t')
      \<and> table_part ty mx I (As \<union> nodes ` set (f # fs)) n row (P \<union> set (f # fs)) vals t' rows (set rows)
      \<and> ll_head t' = ll_head t1 \<and> keeps_list0 t1 t'"
    if "table_part ty mx I (insert (nodes f) As) (length fs + n) row (insert f P) vals t1 rows (set rows)" for t1
    using Cons.IH [OF that fs] Cons.prems(4) unfolding U by simp
  show ?case
  proof (cases "f \<in> I \<and> f \<notin> P")
    case True
    have free: "\<not> (uniqueField ty f \<and> (\<exists>r\<in>set rows - {row}. table_field_compare (vals row f) (vals r f) = 0))"
      using Cons.prems(4) True by (auto simp: no_conflict_def)
    have "nodes f \<notin> As" using Cons.prems(3) by auto
    from insert_part [OF ty part conjunct1 [OF True] conjunct2 [OF True] row this, of sanity] free
    obtain t1 where t1: "ctable_InsertIntoIndex (creator_for ty vals) sanity (nodes f) row f t = Some (None, t1)"
        "table_part ty mx I (insert (nodes f) As) (length fs + n) row (insert f P) vals t1 rows (set rows)"
        "ll_head t1 = ll_head t" "keeps_list0 t t1"
      by auto
    have "0 < listNumber ty f \<and> skipLists t f \<noteq> None \<and> lprev (tmem t) row (nat (listNumber ty f)) = None"
      using part_list_no [OF part] part_indexed [OF part] table_part_unlinked(2) [OF ty part _ row] True by blast
    then show ?thesis using t1 rest [OF t1(2)] by (auto simp: keeps_list0_def)
  next
    case False
    have "table_part ty mx I (insert (nodes f) As) (length fs + n) row (insert f P) vals t rows (set rows)"
      by (rule table_part_fields [OF table_part_room [OF table_part_draws [OF part] subset_insertI]]) (use False in auto)
    moreover have "\<not> (0 < listNumber ty f \<and> skipLists t f \<noteq> None \<and> lprev (tmem t) row (nat (listNumber ty f)) = None)"
      using part_indexed [OF part] table_part_unlinked(2) [OF ty part _ row] False by blast
    ultimately show ?thesis using rest by auto
  qed
qed

section \<open>The hash table\<close>

lemma rep_frame:
  assumes rep: "hash_rep (h, t) m" and p: "p \<notin> ran m"
  shows "hash_rep (h(p := e), t) m"
proof -
  obtain cs where inv: "hash_inv h t cs" and m: "\<forall>key p. m key = Some p \<longleftrightarrow> p \<in> set (concat cs) \<and> hkey (h p) = key"
    using rep by (auto simp: hash_rep_def)
  have pn: "p \<notin> set (concat cs)" using p m by (auto simp: ran_def)
  then have pi: "p \<notin> set (cs ! i)" if "i < length (buckets t)" for i
    using set_nth_concat [of i cs] that table_chainsD(1) [OF hash_invD(1) [OF inv]] by auto
  have same: "(h(p := e)) q = h q" if "q \<in> set (concat cs)" for q using that pn by auto
  note tc = table_chainsD [OF hash_invD(1) [OF inv]]
  have "table_chains t (h(p := e)) (buckets t) cs"
    unfolding table_chains_def
  proof (intro conjI allI impI ballI)
    fix i assume i: "i < length (buckets t)"
    show "chain (nexts (h(p := e))) (buckets t ! i) (cs ! i)" using tc(3) [OF i] pi [OF i] by simp
    fix q assume "q \<in> set (cs ! i)"
    then show "RANDOM_INDEX t (hhash ((h(p := e)) q)) = i" using tc(4) [OF i] pi [OF i] by auto
  qed (rule tc(1), rule tc(2))
  moreover have "inj_on (\<lambda>q. hkey ((h(p := e)) q)) (set (concat cs))"
    using hash_invD(7) [OF inv] same unfolding inj_on_def by metis
  ultimately have "hash_inv (h(p := e)) t cs"
    using hash_invD(2-6, 8) [OF inv] same unfolding hash_inv_def by metis
  moreover have "\<forall>key q. m key = Some q \<longleftrightarrow> q \<in> set (concat cs) \<and> hkey ((h(p := e)) q) = key"
    using m pn by (metis fun_upd_other)
  ultimately show ?thesis by (auto simp: hash_rep_def)
qed

lemma rep_entries: "hash_rep (h, t) m \<Longrightarrow> numEntries t = int (card (ran m))"
proof -
  assume "hash_rep (h, t) m"
  then obtain cs where inv: "hash_inv h t cs" and m: "\<forall>key p. m key = Some p \<longleftrightarrow> p \<in> set (concat cs) \<and> hkey (h p) = key"
    by (auto simp: hash_rep_def)
  then have "ran m = set (concat cs)" by (auto simp: ran_def)
  then show ?thesis using hash_invD(3) [OF inv] table_chainsD(2) [OF hash_invD(1) [OF inv]] by (metis distinct_card)
qed

lemma rep_key:
  assumes "hash_rep (h, t) m" "m key = Some p"
  shows "hkey (h p) = key" "p \<noteq> 0" "nul_free key"
proof -
  obtain cs where inv: "hash_inv h t cs" and m: "\<forall>key p. m key = Some p \<longleftrightarrow> p \<in> set (concat cs) \<and> hkey (h p) = key"
    using assms(1) by (auto simp: hash_rep_def)
  show "hkey (h p) = key" "p \<noteq> 0" using m assms rep_not_null [of "(h, t)"] by auto
  then show "nul_free key" using m assms(2) hash_invD(6) [OF inv, of p] by (metis nul_free_def)
qed

section \<open>The whole table\<close>

text \<open>A table with the keys and rows \<open>xs\<close>, newest first.\<close>

definition saved_ok :: "table_type \<Rightarrow> keyed_table \<Rightarrow> addr list \<Rightarrow> addr \<Rightarrow> bool" where
  "saved_ok ty k rows r \<longleftrightarrow> r \<noteq> 0 \<and> r \<notin> set rows \<and> lprev (tmem (ktable k)) r 0 = None \<and> kvals k r = default_value ty"

definition keyed_ok :: "table_type \<Rightarrow> nat \<Rightarrow> nat set \<Rightarrow> addr set \<Rightarrow> nat \<Rightarrow> keyed_table \<Rightarrow> (cstring \<times> addr) list \<Rightarrow> bool" where
  "keyed_ok ty mx I As n k xs \<longleftrightarrow>
     table_part ty mx I As n 0 UNIV (kvals k) (ktable k) (map snd xs) (set (map snd xs))
     \<and> hash_rep (kheap k, khash k) (map_of xs) \<and> distinct (map fst xs) \<and> kcount k = int (length xs)
     \<and> (\<forall>r. savedRow k = Some r \<longrightarrow> saved_ok ty k (map snd xs) r)
     \<and> (\<forall>(key, r)\<in>set xs. \<forall>f. int f = keyNo ty \<longrightarrow> kvals k r f = Key_Text key)"

text \<open>What the table holds: keys and values.\<close>

definition contents :: "keyed_table \<Rightarrow> (cstring \<times> addr) list \<Rightarrow> (cstring \<times> (nat \<Rightarrow> field_value)) list" where
  "contents k xs = map (\<lambda>(key, r). (key, kvals k r)) xs"

lemma keyed_okD:
  assumes "keyed_ok ty mx I As n k xs"
  shows "table_part ty mx I As n 0 UNIV (kvals k) (ktable k) (map snd xs) (set (map snd xs))"
    and "hash_rep (kheap k, khash k) (map_of xs)" and "distinct (map fst xs)" and "kcount k = int (length xs)"
    and "savedRow k = Some r \<Longrightarrow> saved_ok ty k (map snd xs) r"
    and "(key, r) \<in> set xs \<Longrightarrow> int f = keyNo ty \<Longrightarrow> kvals k r f = Key_Text key"
    and "distinct (map snd xs)" and "0 \<notin> set (map snd xs)"
proof -
  show p: "table_part ty mx I As n 0 UNIV (kvals k) (ktable k) (map snd xs) (set (map snd xs))" using assms by (simp add: keyed_ok_def)
  show "distinct (map snd xs)" "0 \<notin> set (map snd xs)"
    using table_part_rows [OF p] is_list_null [OF table_part_rows [OF p]] by (auto simp: is_list_def)
qed (use assms in \<open>auto simp: keyed_ok_def\<close>)

lemma keyed_entries: "keyed_ok ty mx I As n k xs \<Longrightarrow> numEntries (khash k) = int (length xs)"
proof -
  assume k: "keyed_ok ty mx I As n k xs"
  have "ran (map_of xs) = set (map snd xs)" using ran_distinct [OF keyed_okD(3) [OF k]] by simp
  then show ?thesis using rep_entries [OF keyed_okD(2) [OF k]] distinct_card [OF keyed_okD(7) [OF k]] by simp
qed

text \<open>A row that is prepared is not in the table.\<close>

lemma init_row_ok:
  assumes k: "keyed_ok ty mx I As n k xs" and new: "new \<noteq> 0" "new \<notin> set (map snd xs)" and none: "savedRow k = None"
  shows "keyed_ok ty mx I As n (init_row ty new k) xs" "saved_ok ty (init_row ty new k) (map snd xs) new"
    "contents (init_row ty new k) xs = contents k xs"
proof -
  note D = keyed_okD [OF k]
  let ?k = "init_row ty new k"
  have neq: "r \<noteq> new" if "(key, r) \<in> set xs" for key r using that new(2) by force
  have e: "ktable ?k = (ktable k)\<lparr>tmem := tmem (ktable ?k)\<rparr>" by (simp add: init_row_def Let_def)
  have "table_part ty mx I As n 0 UNIV (kvals ?k) ((ktable k)\<lparr>tmem := tmem (ktable ?k)\<rparr>) (map snd xs) (set (map snd xs))"
    by (rule agree_part [OF D(1)]) (use new(2) in \<open>auto simp: init_row_def Let_def split: if_splits\<close>)
  then have "table_part ty mx I As n 0 UNIV (kvals ?k) (ktable ?k) (map snd xs) (set (map snd xs))" using e by simp
  moreover have "new \<notin> ran (map_of xs)" using ran_distinct [OF D(3)] new(2) by simp
  then have "hash_rep (kheap ?k, khash ?k) (map_of xs)" using rep_frame [OF D(2)] by (simp add: init_row_def Let_def)
  moreover have "\<forall>(key, r)\<in>set xs. \<forall>f. int f = keyNo ty \<longrightarrow> kvals ?k r f = Key_Text key"
    using D(6) by (auto simp: init_row_def Let_def dest: neq)
  ultimately show "keyed_ok ty mx I As n ?k xs"
    using D(3, 4) none by (simp add: keyed_ok_def init_row_def Let_def)
  show "saved_ok ty ?k (map snd xs) new" using new by (simp add: saved_ok_def init_row_def Let_def)
  show "contents ?k xs = contents k xs" using neq by (auto simp: contents_def init_row_def Let_def)
qed

text \<open>The row of a key, or a new row, which is in no index yet.\<close>

text \<open>The addresses that are rows of the table, or ready to be.\<close>

definition row_addrs :: "keyed_table \<Rightarrow> (cstring \<times> addr) list \<Rightarrow> addr set" where
  "row_addrs k xs = set (map snd xs) \<union> set_option (savedRow k)"

lemma prepared_row:
  assumes "keyed_ok ty mx I As n k xs" "new \<noteq> 0" "new \<notin> set (map snd xs)"
  obtains row k1 where "(case savedRow k of Some row \<Rightarrow> (row, k) | None \<Rightarrow> (new, init_row ty new k)) = (row, k1)"
    "keyed_ok ty mx I As n k1 xs" "saved_ok ty k1 (map snd xs) row" "contents k1 xs = contents k xs"
    "row \<in> insert new (set_option (savedRow k))"
proof (cases "savedRow k")
  case None
  then show thesis using that init_row_ok [OF assms None] by simp
next
  case (Some row)
  then show thesis using that keyed_okD(5) [OF assms(1) Some] assms(1) by simp
qed

lemma find_known:
  assumes "keyed_ok ty mx I As n k xs" "new \<noteq> 0" "new \<notin> set (map snd xs)" and row: "(key, row) \<in> set xs"
  obtains k' where "find_or_create ty sanity key new k = Some (Inr (row, False, k'))" "keyed_ok ty mx I As n k' xs"
    "contents k' xs = contents k xs" "row_addrs k' xs \<subseteq> insert new (row_addrs k xs)"
proof -
  obtain r k1 where P: "(case savedRow k of Some row \<Rightarrow> (row, k) | None \<Rightarrow> (new, init_row ty new k)) = (r, k1)"
      "keyed_ok ty mx I As n k1 xs" "saved_ok ty k1 (map snd xs) r" "contents k1 xs = contents k xs"
      "r \<in> insert new (set_option (savedRow k))"
    using prepared_row [OF assms(1-3)] .
  note D = keyed_okD [OF P(2)]
  have m: "map_of xs key = Some row" using row D(3) by simp
  have "0 \<notin> set key" using rep_key(3) [OF D(2) m] by (simp add: nul_free_def)
  from store_known [OF D(2) this m, of r True]
  have "find_or_create ty sanity key new k = Some (Inr (row, False, k1\<lparr>savedRow := Some r\<rparr>))"
    unfolding find_or_create_def P(1) by simp
  moreover have "keyed_ok ty mx I As n (k1\<lparr>savedRow := Some r\<rparr>) xs"
    using P(2, 3) by (simp add: keyed_ok_def saved_ok_def)
  moreover have "contents (k1\<lparr>savedRow := Some r\<rparr>) xs = contents k xs" using P(4) by (simp add: contents_def)
  moreover have "row_addrs (k1\<lparr>savedRow := Some r\<rparr>) xs \<subseteq> insert new (row_addrs k xs)" using P(5) by (auto simp: row_addrs_def)
  ultimately show thesis by (rule that)
qed

definition new_values :: "table_type \<Rightarrow> cstring \<Rightarrow> nat \<Rightarrow> field_value" where
  "new_values ty key = (\<lambda>f. if int f = keyNo ty then Key_Text key else default_value ty f)"

lemma find_new:
  assumes ty: "type_ok ty" and k: "keyed_ok ty mx I As n k xs" and new: "new \<noteq> 0" "new \<notin> set (map snd xs)"
    and key: "key \<notin> fst ` set xs" "nul_free key" and room: "int (length xs) + 1 < HASH_LIMIT"
  obtains row k' where "find_or_create ty sanity key new k = Some (Inr (row, True, k'))" "row \<noteq> 0" "row \<notin> set (map snd xs)"
    "table_part ty mx I As n row {} (kvals k') (ktable k') (map snd ((key, row) # xs)) (set (map snd ((key, row) # xs)))"
    "hash_rep (kheap k', khash k') (map_of ((key, row) # xs))" "kcount k' = int (length ((key, row) # xs))" "savedRow k' = None"
    "kvals k' row = new_values ty key" "contents k' xs = contents k xs"
    "\<forall>(key, r)\<in>set xs. \<forall>f. int f = keyNo ty \<longrightarrow> kvals k' r f = Key_Text key"
    "row \<in> insert new (set_option (savedRow k))"
proof -
  obtain row k1 where P: "(case savedRow k of Some row \<Rightarrow> (row, k) | None \<Rightarrow> (new, init_row ty new k)) = (row, k1)"
      "keyed_ok ty mx I As n k1 xs" "saved_ok ty k1 (map snd xs) row" "contents k1 xs = contents k xs"
      "row \<in> insert new (set_option (savedRow k))"
    using prepared_row [OF k new] .
  note D = keyed_okD [OF P(2)]
  have r: "row \<noteq> 0" "row \<notin> set (map snd xs)" "lprev (tmem (ktable k1)) row 0 = None" "kvals k1 row = default_value ty"
    using P(3) by (simp_all add: saved_ok_def)
  have m: "map_of xs key = None" using key(1) by (simp add: map_of_eq_None_iff)
  have "row \<notin> ran (map_of xs)" using ran_distinct [OF D(3)] r(2) by simp
  moreover have "0 \<notin> set key" using key(2) by (simp add: nul_free_def)
  moreover have "numEntries (khash k1) + 1 < HASH_LIMIT" using keyed_entries [OF P(2)] room by simp
  ultimately obtain h t where H: "ctable_StoreHashEntry (kheap k1) (khash k1) key row True = Some (h, t, row, Some 1)"
      "hash_rep (h, t) ((map_of xs)(key \<mapsto> row))"
    using store_new [OF D(2) _ m r(1)] by blast
  obtain ws where W: "ctable_ListInsertHead sanity (tmem (ktable k1)) (ll_head (ktable k1)) row 0 = Inr ws"
      "table_part ty mx I As n row {} (kvals k1) (ktable k1\<lparr>tmem := run_writes ws (tmem (ktable k1))\<rparr>) (row # map snd xs) (set (row # map snd xs))"
    using add_row_part [OF ty D(1) r(1-3)] by blast
  let ?vals = "(kvals k1)(row := new_values ty key)"
  let ?k = "k1\<lparr>kheap := h, khash := t, ktable := (ktable k1)\<lparr>tmem := run_writes ws (tmem (ktable k1))\<rparr>, kcount := kcount k1 + 1,
      savedRow := None, kvals := ?vals\<rparr>"
  have v: "(\<lambda>f. if int f = keyNo ty then Key_Text key else kvals k1 row f) = new_values ty key"
    unfolding new_values_def r(4) ..
  have "find_or_create ty sanity key new k = Some (Inr (row, True, ?k))"
    unfolding find_or_create_def P(1) using H(1) W(1) v by (simp add: Let_def cong: if_cong)
  moreover have "table_part ty mx I As n row {} ?vals (ktable ?k) (map snd ((key, row) # xs)) (set (map snd ((key, row) # xs)))"
    using agree_part [OF W(2), of "run_writes ws (tmem (ktable k1))" ?vals] by simp
  moreover have neq: "r' \<noteq> row" if "(key', r') \<in> set xs" for key' r' using that r(2) by force
  then have "contents ?k xs = contents k xs" unfolding P(4) [symmetric] by (auto simp: contents_def)
  moreover have "\<forall>(key, r)\<in>set xs. \<forall>f. int f = keyNo ty \<longrightarrow> kvals ?k r f = Key_Text key"
    using D(6) by (auto dest: neq)
  moreover have "hash_rep (kheap ?k, khash ?k) (map_of ((key, row) # xs))" using H(2) by simp
  ultimately show thesis using that [of row ?k] r(1, 2) D(4) P(5) by simp
qed

section \<open>The methods on keys and values\<close>

text \<open>What the methods do to a list of keys with values, newest first.\<close>

definition spec_set :: "table_type \<Rightarrow> cstring \<Rightarrow> (nat \<times> field_value \<times> addr) list \<Rightarrow> (cstring \<times> (nat \<Rightarrow> field_value)) list
    \<Rightarrow> (cstring \<times> (nat \<Rightarrow> field_value)) list" where
  "spec_set ty key sets T =
     (if key \<in> fst ` set T then map (\<lambda>(k, v). (k, if k = key then set_values sets v else v)) T
      else (key, set_values sets (new_values ty key)) # T)"

definition spec_delete :: "cstring \<Rightarrow> (cstring \<times> (nat \<Rightarrow> field_value)) list \<Rightarrow> (cstring \<times> (nat \<Rightarrow> field_value)) list" where
  "spec_delete key T = filter (\<lambda>(k, v). k \<noteq> key) T"

text \<open>
  A call of \<^verbatim>\<open>set\<close> that no unique index refuses: no other row has an equal value.  It does not set the key
  field, and a new row not the same field twice.
\<close>

definition clash_free :: "table_type \<Rightarrow> nat set \<Rightarrow> cstring \<Rightarrow> (cstring \<times> (nat \<Rightarrow> field_value)) list \<Rightarrow> nat \<Rightarrow> field_value \<Rightarrow> bool" where
  "clash_free ty I key T f w \<longleftrightarrow>
     (f \<in> I \<and> uniqueField ty f \<longrightarrow> (\<forall>(k, v)\<in>set T. k \<noteq> key \<longrightarrow> table_field_compare w (v f) \<noteq> 0))"

definition admissible :: "table_type \<Rightarrow> nat set \<Rightarrow> cstring \<Rightarrow> (nat \<times> field_value \<times> addr) list \<Rightarrow> (cstring \<times> (nat \<Rightarrow> field_value)) list \<Rightarrow> bool" where
  "admissible ty I key sets T \<longleftrightarrow>
     (\<forall>(f, w, a)\<in>set sets. int f \<noteq> keyNo ty \<and> clash_free ty I key T f w)
     \<and> (key \<notin> fst ` set T \<longrightarrow> distinct (map fst sets)
          \<and> (\<forall>f. clash_free ty I key T f (set_values sets (new_values ty key) f)))"

lemma set_values_other: "f \<notin> fst ` set sets \<Longrightarrow> set_values sets v f = v f"
  by (induction sets arbitrary: v) auto

lemma contents_keys [simp]: "fst ` set (contents k xs) = fst ` set xs"
  by (force simp: contents_def)

lemma clash_free_no_conflict:
  assumes "distinct (map fst xs)" "(key, row) \<in> set xs \<or> key \<notin> fst ` set xs"
    and "clash_free ty I key (contents k xs) f w" "\<forall>r\<in>set (map snd xs). r \<noteq> row \<longrightarrow> vals r = kvals k r"
    and "set rows \<subseteq> insert row (set (map snd xs))"
  shows "no_conflict ty I vals rows row f w"
  unfolding no_conflict_def
proof (intro impI ballI)
  fix r assume u: "f \<in> I \<and> uniqueField ty f" and r: "r \<in> set rows - {row}"
  then obtain key' where k': "(key', r) \<in> set xs" using assms(5) by auto
  have "key' \<noteq> key"
  proof
    assume "key' = key"
    then have "(key, row) \<in> set xs" using assms(2) k' by force
    then show False using k' \<open>key' = key\<close> assms(1) r by (auto dest: eq_key_imp_eq_value)
  qed
  moreover have "(key', kvals k r) \<in> set (contents k xs)" using k' by (force simp: contents_def)
  ultimately show "table_field_compare w (vals r f) \<noteq> 0"
    using assms(3) u assms(4) k' r by (force simp: clash_free_def)
qed

lemma same_entry:
  assumes "distinct (map fst xs)" "distinct (map snd xs)" "(k, r) \<in> set xs" "(k', r') \<in> set xs"
  shows "r = r' \<longleftrightarrow> k = k'"
  using assms inj_onD [of fst "set xs" "(k, r)" "(k', r')"] inj_onD [of snd "set xs" "(k, r)" "(k', r')"] by (auto simp: distinct_map)

lemma saved_ok_kept:
  assumes "saved_ok ty k rows r" "same_keys k k'" "kvals k' = (kvals k)(row := v)" "row \<in> set rows"
  shows "saved_ok ty k' rows r"
  using assms by (auto simp: saved_ok_def same_keys_def keeps_list0_def)

lemma set_known_row:
  assumes ty: "type_ok ty" and k: "keyed_ok ty mx I As (length sets + n) k xs" and row: "(key, row) \<in> set xs"
    and nodes: "distinct (map (snd \<circ> snd) sets)" "set (map (snd \<circ> snd) sets) \<inter> As = {}"
    and adm: "admissible ty I key sets (contents k xs)"
  obtains k' where "set_field_values ty sanity row False sets k = Some (None, k')"
    "keyed_ok ty mx I (As \<union> set (map (snd \<circ> snd) sets)) n k' xs" "contents k' xs = spec_set ty key sets (contents k xs)"
    "row_addrs k' xs = row_addrs k xs" "kvals k' = (kvals k)(row := set_values sets (kvals k row))"
proof -
  note D = keyed_okD [OF k]
  have mem: "row \<in> set (map snd xs)" using row by force
  have "no_conflict ty I (kvals k) (map snd xs) row f w" if "(f, w, a) \<in> set sets" for f w a
    by (rule clash_free_no_conflict [OF D(3)]) (use that row adm in \<open>auto simp: admissible_def\<close>)
  then have nc: "\<forall>(f, w, a)\<in>set sets. no_conflict ty I (kvals k) (map snd xs) row f w" by blast
  have "table_part ty mx I As (length sets + n) row UNIV (kvals k) (ktable k) (map snd xs) (set (map snd xs))"
    by (rule table_part_fields [OF D(1)]) simp
  from set_fields_part [OF ty mem this nodes _ nc, of False sanity]
  obtain k' Q where R: "set_field_values ty sanity row False sets k = Some (None, k')"
      "table_part ty mx I (As \<union> set (map (snd \<circ> snd) sets)) n row Q (kvals k') (ktable k') (map snd xs) (set (map snd xs))" "UNIV \<subseteq> Q"
      "kvals k' = (kvals k)(row := set_values sets (kvals k row))" "same_keys k k'"
    by auto
  have eq: "r = row \<longleftrightarrow> key' = key" if "(key', r) \<in> set xs" for key' r
    by (rule same_entry [OF D(3, 7) that row])
  have "\<forall>(key, r)\<in>set xs. \<forall>f. int f = keyNo ty \<longrightarrow> kvals k' r f = Key_Text key"
  proof (clarify)
    fix key' r f assume r: "(key', r) \<in> set xs" and f: "int f = keyNo ty"
    have "f \<notin> fst ` set sets" using adm f by (auto simp: admissible_def)
    then show "kvals k' r f = Key_Text key'" using D(6) [OF r f] R(4) by (cases "r = row") (simp_all add: set_values_other)
  qed
  moreover have "table_part ty mx I (As \<union> set (map (snd \<circ> snd) sets)) n 0 UNIV (kvals k') (ktable k') (map snd xs) (set (map snd xs))"
    by (rule table_part_fields [OF R(2)]) (use R(3) in auto)
  moreover have "\<forall>r. savedRow k' = Some r \<longrightarrow> saved_ok ty k' (map snd xs) r"
    using D(5) saved_ok_kept [OF _ R(5, 4) mem] R(5) by (auto simp: same_keys_def)
  ultimately have k': "keyed_ok ty mx I (As \<union> set (map (snd \<circ> snd) sets)) n k' xs"
    using D(2-4) R(5) by (simp add: keyed_ok_def same_keys_def)
  have "key \<in> fst ` set (contents k xs)" using row by force
  moreover have "kvals k' r = (if key' = key then set_values sets (kvals k r) else kvals k r)" if "(key', r) \<in> set xs" for key' r
    using eq [OF that] R(4) by (cases "r = row") simp_all
  then have "contents k' xs = map (\<lambda>(k, v). (k, if k = key then set_values sets v else v)) (contents k xs)"
    by (auto simp: contents_def)
  ultimately have "contents k' xs = spec_set ty key sets (contents k xs)" by (simp only: spec_set_def if_True)
  then show thesis using R(1, 4, 5) that k' by (simp add: row_addrs_def same_keys_def)
qed

lemma set_new_row:
  assumes ty: "type_ok ty" and I: "I \<subseteq> {..<fieldCount ty}" and k: "keyed_ok ty mx I As (length sets + (fieldCount ty + n)) k xs"
    and new: "new \<noteq> 0" "new \<notin> set (map snd xs)" and key: "key \<notin> fst ` set xs" "nul_free key" and room: "int (length xs) + 1 < HASH_LIMIT"
    and addrs: "distinct (map (snd \<circ> snd) sets @ map nodes [0..<fieldCount ty])"
      "set (map (snd \<circ> snd) sets @ map nodes [0..<fieldCount ty]) \<inter> As = {}"
    and adm: "admissible ty I key sets (contents k xs)"
  shows "\<exists>k' row. set_row ty sanity key new sets nodes k = Some (None, k')
    \<and> keyed_ok ty mx I (As \<union> set (map (snd \<circ> snd) sets @ map nodes [0..<fieldCount ty])) n k' ((key, row) # xs)
    \<and> contents k' ((key, row) # xs) = spec_set ty key sets (contents k xs)
    \<and> row_addrs k' ((key, row) # xs) \<subseteq> insert new (row_addrs k xs)"
proof -
  let ?m = "fieldCount ty + n" and ?sa = "set (map (snd \<circ> snd) sets)"
  obtain row k1 where F: "find_or_create ty sanity key new k = Some (Inr (row, True, k1))" "row \<noteq> 0" "row \<notin> set (map snd xs)"
    "table_part ty mx I As (length sets + ?m) row {} (kvals k1) (ktable k1) (map snd ((key, row) # xs)) (set (map snd ((key, row) # xs)))"
    "hash_rep (kheap k1, khash k1) (map_of ((key, row) # xs))" "kcount k1 = int (length ((key, row) # xs))" "savedRow k1 = None"
    "kvals k1 row = new_values ty key" "contents k1 xs = contents k xs"
    "\<forall>(key, r)\<in>set xs. \<forall>f. int f = keyNo ty \<longrightarrow> kvals k1 r f = Key_Text key"
    "row \<in> insert new (set_option (savedRow k))"
    using find_new [OF ty k new key room] .
  let ?xs = "(key, row) # xs"
  note D = keyed_okD [OF k]
  have rows: "set (map snd ?xs) \<subseteq> insert row (set (map snd xs))" and mem: "row \<in> set (map snd ?xs)" by auto
  have free: "no_conflict ty I vals (map snd ?xs) row f w"
    if "clash_free ty I key (contents k xs) f w" "\<forall>r\<in>set (map snd xs). r \<noteq> row \<longrightarrow> vals r = kvals k1 r" for vals f w
    by (rule clash_free_no_conflict [OF D(3) _ _ that(2) rows]) (use key(1) that(1) F(9) in auto)
  have "no_conflict ty I (kvals k1) (map snd ?xs) row f w" if "(f, w, a) \<in> set sets" for f w a
    by (rule free) (use that adm in \<open>auto simp: admissible_def\<close>)
  then have nc: "\<forall>(f, w, a)\<in>set sets. no_conflict ty I (kvals k1) (map snd ?xs) row f w" by blast
  have adm': "distinct (map fst sets)" "\<forall>f. clash_free ty I key (contents k xs) f (set_values sets (new_values ty key) f)"
    using adm key(1) by (simp_all add: admissible_def)
  have sa: "distinct (map (snd \<circ> snd) sets)" "?sa \<inter> As = {}" using addrs by auto
  from set_fields_part [OF ty mem F(4) sa _ nc, of True sanity] adm'(1)
  obtain k2 Q where S: "set_field_values ty sanity row True sets k1 = Some (None, k2)"
      "table_part ty mx I (As \<union> ?sa) ?m row Q (kvals k2) (ktable k2) (map snd ?xs) (set (map snd ?xs))"
      "kvals k2 = (kvals k1)(row := set_values sets (kvals k1 row))" "same_keys k1 k2"
    by auto
  have nc2: "\<forall>f\<in>set [0..<fieldCount ty]. no_conflict ty I (kvals k2) (map snd ?xs) row f (kvals k2 row f)"
    using free adm'(2) S(3) F(8) by simp
  have nd: "distinct (map nodes [0..<fieldCount ty])" "nodes ` set [0..<fieldCount ty] \<inter> (As \<union> ?sa) = {}"
    using addrs by auto
  have part2: "table_part ty mx I (As \<union> ?sa) (length [0..<fieldCount ty] + n) row Q (kvals k2) (ktable k2) (map snd ?xs) (set (map snd ?xs))"
    using S(2) by simp
  obtain t' where T: "index_fields (creator_for ty (kvals k2)) sanity nodes row [0..<fieldCount ty] (ktable k2) = Some (None, t')"
      "table_part ty mx I (As \<union> ?sa \<union> nodes ` set [0..<fieldCount ty]) n row (Q \<union> set [0..<fieldCount ty]) (kvals k2) t' (map snd ?xs) (set (map snd ?xs))"
    using index_fields_part [OF ty mem part2 nd nc2, of sanity] by blast
  let ?k = "k2\<lparr>ktable := t'\<rparr>"
  have U: "As \<union> set (map (snd \<circ> snd) sets @ map nodes [0..<fieldCount ty]) = As \<union> ?sa \<union> nodes ` set [0..<fieldCount ty]" by auto
  have "set_row ty sanity key new sets nodes k = Some (None, ?k)"
    using F(1) S(1) T(1) by (simp add: set_row_def index_defaults_def)
  moreover have "table_part ty mx I (As \<union> ?sa \<union> nodes ` set [0..<fieldCount ty]) n 0 UNIV (kvals ?k) (ktable ?k) (map snd ?xs) (set (map snd ?xs))"
    using table_part_fields [OF T(2), of "set (map snd ?xs)" UNIV 0] I by (auto simp: subset_iff)
  moreover have neq: "r \<noteq> row" if "(key', r) \<in> set xs" for key' r using that F(3) by force
  have "\<forall>(key, r)\<in>set ?xs. \<forall>f. int f = keyNo ty \<longrightarrow> kvals ?k r f = Key_Text key"
  proof (clarify)
    fix key' r f assume r: "(key', r) \<in> set ?xs" and f: "int f = keyNo ty"
    have "f \<notin> fst ` set sets" using adm f by (auto simp: admissible_def)
    then show "kvals ?k r f = Key_Text key'"
    proof (cases "(key', r) = (key, row)")
      case True
      then show ?thesis using S(3) F(8) f \<open>f \<notin> fst ` set sets\<close> by (simp add: set_values_other new_values_def)
    next
      case False
      then have r': "(key', r) \<in> set xs" using r by auto
      then show ?thesis using S(3) F(10) f neq [OF r'] by auto
    qed
  qed
  ultimately have "keyed_ok ty mx I (As \<union> ?sa \<union> nodes ` set [0..<fieldCount ty]) n ?k ?xs"
    using F(5-7) S(4) key(1) D(3) by (simp add: keyed_ok_def same_keys_def)
  moreover have "contents ?k xs = contents k xs"
    unfolding F(9) [symmetric] using S(3) by (auto simp: contents_def dest: neq)
  then have "contents ?k ?xs = (key, set_values sets (new_values ty key)) # contents k xs"
    using S(3) F(8) by (simp add: contents_def)
  then have "contents ?k ?xs = spec_set ty key sets (contents k xs)" using key(1) by (simp add: spec_set_def)
  moreover have "row_addrs ?k ?xs \<subseteq> insert new (row_addrs k xs)"
    using F(7, 11) S(4) by (auto simp: row_addrs_def same_keys_def)
  ultimately show ?thesis using \<open>set_row ty sanity key new sets nodes k = Some (None, ?k)\<close> unfolding U by blast
qed

lemma map_of_remove: "map_of (filter (\<lambda>(k, v). k \<noteq> key) xs) = (map_of xs)(key := None)"
  by (induction xs) auto

lemma filter_other_keys: "key \<notin> fst ` set xs \<Longrightarrow> filter (\<lambda>(k, r). k \<noteq> key) xs = xs"
  by (induction xs) auto

lemma delete_entry_row:
  assumes ty: "type_ok ty" and I: "I \<subseteq> {..<fieldCount ty}" and k: "keyed_ok ty mx I As n k xs" and row: "(key, row) \<in> set xs"
  shows "\<exists>k'. delete_entry ty sanity row k = Some (Inr k') \<and> keyed_ok ty mx I As n k' (filter (\<lambda>(k, r). k \<noteq> key) xs)
    \<and> contents k' (filter (\<lambda>(k, r). k \<noteq> key) xs) = spec_delete key (contents k xs)
    \<and> row_addrs k' (filter (\<lambda>(k, r). k \<noteq> key) xs) \<subseteq> row_addrs k xs"
proof -
  note D = keyed_okD [OF k]
  have m: "map_of xs key = Some row" using row D(3) by simp
  obtain ys zs where xs: "xs = ys @ (key, row) # zs" using row by (meson split_list)
  have keep: "filter (\<lambda>(k, r). k \<noteq> key) ys = ys" "filter (\<lambda>(k, r). k \<noteq> key) zs = zs"
    by (rule filter_other_keys; use D(3) in \<open>simp add: xs\<close>)+
  then have xs': "filter (\<lambda>(k, r). k \<noteq> key) xs = ys @ zs" by (simp add: xs)
  have "table_part ty mx I As n 0 UNIV (kvals k) (ktable k) (map snd ys @ row # map snd zs) (set (map snd ys @ row # map snd zs))"
    using D(1) by (simp add: xs)
  moreover have "\<forall>f\<in>I. f < fieldCount ty" using I by auto
  ultimately obtain t' where T: "ctable_RemoveFromAllIndexes (creator_for ty (kvals k)) sanity row (ktable k) = Some (None, t')"
      "table_part ty mx I As n 0 UNIV (kvals k) t' (map snd ys @ map snd zs) (set (map snd ys @ map snd zs))"
      "\<forall>r. r \<notin> set (map snd ys @ row # map snd zs) \<longrightarrow> lprev (tmem t') r 0 = lprev (tmem (ktable k)) r 0"
    using remove_all_part [OF ty] by blast
  obtain h ht where H: "ctable_DeleteHashEntry (kheap k) (khash k) row = Some (Some (h, ht))" "hash_rep (h, ht) ((map_of xs)(key := None))"
    using delete_correct [OF D(2) m] by blast
  have "delete_entry ty sanity row k = Some (Inr (k\<lparr>ktable := t', kheap := h, khash := ht, kcount := kcount k - 1\<rparr>))"
    using T(1) H(1) by (simp add: delete_entry_def)
  moreover have "keyed_ok ty mx I As n (k\<lparr>ktable := t', kheap := h, khash := ht, kcount := kcount k - 1\<rparr>) (ys @ zs)"
    using T(2, 3) H(2) D(3-6) map_of_remove [of key xs] unfolding xs'
    by (auto simp: keyed_ok_def saved_ok_def xs)
  moreover have "contents (k\<lparr>ktable := t', kheap := h, khash := ht, kcount := kcount k - 1\<rparr>) (ys @ zs) = spec_delete key (contents k xs)"
    unfolding xs' [symmetric] by (auto simp: contents_def spec_delete_def filter_map comp_def case_prod_unfold)
  moreover have "row_addrs (k\<lparr>ktable := t', kheap := h, khash := ht, kcount := kcount k - 1\<rparr>) (ys @ zs) \<subseteq> row_addrs k xs"
    by (auto simp: row_addrs_def xs)
  ultimately show ?thesis unfolding xs' by blast
qed

lemma delete_known_row:
  assumes ty: "type_ok ty" and I: "I \<subseteq> {..<fieldCount ty}" and k: "keyed_ok ty mx I As n k xs" and row: "(key, row) \<in> set xs"
  shows "\<exists>k'. delete_row ty sanity key k = Some (Inr (True, k')) \<and> keyed_ok ty mx I As n k' (filter (\<lambda>(k, r). k \<noteq> key) xs)
    \<and> contents k' (filter (\<lambda>(k, r). k \<noteq> key) xs) = spec_delete key (contents k xs)
    \<and> row_addrs k' (filter (\<lambda>(k, r). k \<noteq> key) xs) \<subseteq> row_addrs k xs"
proof -
  note D = keyed_okD [OF k]
  have m: "map_of xs key = Some row" using row D(3) by simp
  note rk = rep_key [OF D(2) m]
  have "ctable_FindHashEntry (kheap k) (khash k) key = Some row"
    using find_correct [OF D(2)] m rk(3) by (simp add: nul_free_def)
  then show ?thesis using delete_entry_row [OF assms, of sanity] rk(2) by (auto simp: delete_row_def)
qed

lemma delete_unknown_row:
  assumes "keyed_ok ty mx I As n k xs" and "key \<notin> fst ` set xs" "nul_free key"
  shows "delete_row ty sanity key k = Some (Inr (False, k))"
  using find_correct [OF keyed_okD(2) [OF assms(1)], of key] assms(2, 3)
  by (simp add: delete_row_def nul_free_def map_of_eq_None_iff [THEN iffD2])

section \<open>Reset\<close>

lemma free_keys_reads: "reads m 0 s rs \<Longrightarrow> \<exists>h'. free_keys (read_slot m s) m h = Some h'"
proof (induction rs arbitrary: s h)
  case Nil
  then show ?case by (simp add: free_keys.simps)
next
  case (Cons r rs)
  then have r: "read_slot m s = r" "r \<noteq> 0" "reads m 0 (NextCell r 0) rs" by simp_all
  have "free_keys r m h = free_keys (read_slot m (NextCell r 0)) m (h(r := (h r)\<lparr>hkey := []\<rparr>))"
    using r(2) by (subst free_keys.simps) simp
  then show ?case unfolding r(1) using Cons.IH [OF r(3)] by metis
qed

lemma drop_fields_empty:
  "cell (tmem t) (ll_head t) = 0 \<Longrightarrow> drop_fields cr fs False t = Some (t\<lparr>skipLists := (\<lambda>f. if f \<in> set fs then None else skipLists t f)\<rparr>)"
proof (induction fs arbitrary: t)
  case (Cons f fs)
  have "ctable_DropIndex cr f False t = Some (t\<lparr>skipLists := (skipLists t)(f := None)\<rparr>)"
    using Cons.prems by (cases "skipLists t f") (auto simp: ctable_DropIndex_def clear_nodes.simps fun_upd_idem)
  moreover have "(\<lambda>g. if g \<in> set fs then None else skipLists (t\<lparr>skipLists := (skipLists t)(f := None)\<rparr>) g)
      = (\<lambda>g. if g \<in> set (f # fs) then None else skipLists t g)" by auto
  moreover have "drop_fields cr fs False (t\<lparr>skipLists := (skipLists t)(f := None)\<rparr>) = Some (t\<lparr>skipLists := (skipLists t)(f := None),
      skipLists := (\<lambda>g. if g \<in> set fs then None else skipLists (t\<lparr>skipLists := (skipLists t)(f := None)\<rparr>) g)\<rparr>)"
    by (rule Cons.IH) (use Cons.prems in simp)
  ultimately show ?case by (simp only: drop_fields.simps Option.bind_lunit ctable.simps) simp
qed simp

lemma reset_ok:
  assumes I: "I \<subseteq> {..<fieldCount ty}" and k: "keyed_ok ty mx I As n k xs"
  shows "\<exists>k'. reset_table ty k = Some k' \<and> keyed_ok ty mx {} As n k' [] \<and> row_addrs k' [] \<subseteq> row_addrs k xs"
proof -
  note D = keyed_okD [OF k]
  let ?t = "(ktable k)\<lparr>tmem := run_writes (ctable_ListInit (ll_head (ktable k))) (tmem (ktable k))\<rparr>"
  let ?u = "?t\<lparr>skipLists := (\<lambda>f. None)\<rparr>"
  have l: "is_list (tmem (ktable k)) (ll_head (ktable k)) 0 (map snd xs)" by (rule table_part_rows [OF D(1)])
  obtain h where h: "free_keys (cell (tmem (ktable k)) (ll_head (ktable k))) (tmem (ktable k)) (kheap k) = Some h"
    using free_keys_reads [of "tmem (ktable k)" "HeadCell (ll_head (ktable k))" "map snd xs" "kheap k"] l by (auto simp: is_list_def)
  have "skipLists ?t f = None" if "f \<notin> {0..<fieldCount ty}" for f
    using part_indexed [OF D(1), of f] I that by auto
  then have "(\<lambda>f. if f \<in> set [0..<fieldCount ty] then None else skipLists ?t f) = (\<lambda>f. None)" by auto
  then have "drop_fields (creator_for ty (kvals k)) [0..<fieldCount ty] False ?t = Some ?u"
    using drop_fields_empty [of ?t "creator_for ty (kvals k)" "[0..<fieldCount ty]"] by (simp add: ctable_ListInit_def)
  then have "reset_table ty k = Some (k\<lparr>ktable := ?u, kheap := h, khash := ctable_InitHashTable, kcount := 0\<rparr>)"
    using h by (simp add: reset_table_def delete_all_rows_def ctable_DropAllIndexes_def Let_def)
  moreover have "table_part ty mx {} As n 0 UNIV (kvals k) ?u [] {}"
  proof (rule table_partI)
    show "table_ok (creator_for ty (kvals k)) UNIV ?u [] (\<lambda>f. []) (\<lambda>f p. [])"
      using l by (simp add: table_ok_def is_list_def ctable_ListInit_def)
  qed (use D(1) in \<open>auto simp: table_part_def\<close>)
  then have "keyed_ok ty mx {} As n (k\<lparr>ktable := ?u, kheap := h, khash := ctable_InitHashTable, kcount := 0\<rparr>) []"
    using init_rep [of h] D(5) by (simp add: keyed_ok_def saved_ok_def ctable_ListInit_def)
  ultimately show ?thesis by (auto simp: row_addrs_def)
qed

end
