(* ===== verification/KeyedRuns.thy ===== *)
theory KeyedRuns
  imports KeyedCorrect
begin

text \<open>
  Runs of calls of the methods \<^verbatim>\<open>set\<close>, \<^verbatim>\<open>delete\<close> and \<^verbatim>\<open>reset\<close> on a table, from its creation on.
\<close>

section \<open>Runs\<close>

text \<open>
  A call with the addresses that are allocated for it, if they are needed: those of the nodes of indexes are
  next to the values, and in \<open>nodes\<close> for \<^verbatim>\<open>index_defaults\<close>; \<open>new\<close> is that of a row.
\<close>

datatype row_call = Set_Row cstring "(nat \<times> field_value \<times> addr) list" addr "nat \<Rightarrow> addr" | Delete_Row cstring
  | Reset_Table

fun row_method :: "table_type \<Rightarrow> bool \<Rightarrow> row_call \<Rightarrow> keyed_table \<Rightarrow> (row_error option \<times> keyed_table) option" where
  "row_method ty sanity (Set_Row key sets new nodes) k = set_row ty sanity key new sets nodes k"
| "row_method ty sanity (Delete_Row key) k =
     map_option (\<lambda>r. case r of Inl e \<Rightarrow> (Some e, k) | Inr (found, k') \<Rightarrow> (None, k')) (delete_row ty sanity key k)"
| "row_method ty sanity Reset_Table k = map_option (Pair None) (reset_table ty k)"

fun run_calls :: "table_type \<Rightarrow> bool \<Rightarrow> row_call list \<Rightarrow> keyed_table \<Rightarrow> (row_error option \<times> keyed_table) option" where
  "run_calls ty sanity [] k = Some (None, k)"
| "run_calls ty sanity (c # cs) k =
     Option.bind (row_method ty sanity c k) (\<lambda>(e, k1). if e \<noteq> None then Some (e, k1) else run_calls ty sanity cs k1)"

fun spec_call :: "table_type \<Rightarrow> row_call \<Rightarrow> (cstring \<times> (nat \<Rightarrow> field_value)) list \<Rightarrow> (cstring \<times> (nat \<Rightarrow> field_value)) list" where
  "spec_call ty (Set_Row key sets new nodes) T = spec_set ty key sets T"
| "spec_call ty (Delete_Row key) T = spec_delete key T"
| "spec_call ty Reset_Table T = []"

text \<open>\<^verbatim>\<open>reset\<close> drops the indexes, too; \<open>I\<close> are the fields that have one.\<close>

fun call_indexes :: "row_call \<Rightarrow> nat set \<Rightarrow> nat set" where
  "call_indexes Reset_Table I = {}"
| "call_indexes c I = I"

text \<open>
  Calls that succeed: no unique index refuses them, and the addresses they get were not given out before,
  neither to nodes (\<open>As\<close>) nor to rows (\<open>Rs\<close>).
\<close>

fun call_addrs :: "table_type \<Rightarrow> row_call \<Rightarrow> addr list" where
  "call_addrs ty (Set_Row key sets new nodes) = map (snd \<circ> snd) sets @ map nodes [0..<fieldCount ty]"
| "call_addrs ty c = []"

fun call_row :: "row_call \<Rightarrow> addr set" where
  "call_row (Set_Row key sets new nodes) = {new}"
| "call_row c = {}"

fun call_ok :: "table_type \<Rightarrow> nat set \<Rightarrow> addr set \<Rightarrow> addr set \<Rightarrow> (cstring \<times> (nat \<Rightarrow> field_value)) list \<Rightarrow> row_call \<Rightarrow> bool" where
  "call_ok ty I As Rs T (Set_Row key sets new nodes) \<longleftrightarrow> nul_free key \<and> new \<noteq> 0 \<and> new \<notin> Rs
     \<and> distinct (map (snd \<circ> snd) sets @ map nodes [0..<fieldCount ty])
     \<and> set (map (snd \<circ> snd) sets @ map nodes [0..<fieldCount ty]) \<inter> As = {} \<and> admissible ty I key sets T"
| "call_ok ty I As Rs T (Delete_Row key) \<longleftrightarrow> nul_free key"
| "call_ok ty I As Rs T Reset_Table \<longleftrightarrow> True"

fun calls_ok :: "table_type \<Rightarrow> nat set \<Rightarrow> addr set \<Rightarrow> addr set \<Rightarrow> (cstring \<times> (nat \<Rightarrow> field_value)) list \<Rightarrow> row_call list \<Rightarrow> bool" where
  "calls_ok ty I As Rs T [] \<longleftrightarrow> True"
| "calls_ok ty I As Rs T (c # cs) \<longleftrightarrow> call_ok ty I As Rs T c
     \<and> calls_ok ty (call_indexes c I) (As \<union> set (call_addrs ty c)) (Rs \<union> call_row c) (spec_call ty c T) cs"

lemma keyed_ok_weaken:
  assumes "keyed_ok ty mx I As (m + n) k xs" "As \<subseteq> Bs"
  shows "keyed_ok ty mx I Bs n k xs"
proof -
  have "table_part ty mx I As (m + n) 0 UNIV (kvals k) (ktable k) (map snd xs) (set (map snd xs))
    \<Longrightarrow> table_part ty mx I As n 0 UNIV (kvals k) (ktable k) (map snd xs) (set (map snd xs))"
    by (induction m) (auto dest: table_part_draws)
  from table_part_room [OF this [OF keyed_okD(1) [OF assms(1)]] assms(2)] show ?thesis
    using assms(1) by (simp add: keyed_ok_def)
qed

lemma set_step:
  assumes ty: "type_ok ty" and I: "I \<subseteq> {..<fieldCount ty}" and k: "keyed_ok ty mx I As (length sets + (fieldCount ty + n)) k xs"
    and c: "call_ok ty I As Rs (contents k xs) (Set_Row key sets new nodes)" and rows: "row_addrs k xs \<subseteq> Rs"
    and room: "int (length xs) + 1 < HASH_LIMIT"
  shows "\<exists>k' xs'. set_row ty sanity key new sets nodes k = Some (None, k')
    \<and> keyed_ok ty mx I (As \<union> set (call_addrs ty (Set_Row key sets new nodes))) n k' xs'
    \<and> contents k' xs' = spec_set ty key sets (contents k xs) \<and> length xs' \<le> Suc (length xs) \<and> row_addrs k' xs' \<subseteq> insert new Rs"
proof (cases "key \<in> fst ` set xs")
  case True
  then obtain row where row: "(key, row) \<in> set xs" by force
  have new: "new \<noteq> 0" "new \<notin> set (map snd xs)" using c rows by (auto simp: row_addrs_def)
  obtain k1 where F: "find_or_create ty sanity key new k = Some (Inr (row, False, k1))"
      "keyed_ok ty mx I As (length sets + (fieldCount ty + n)) k1 xs" "contents k1 xs = contents k xs" "row_addrs k1 xs \<subseteq> insert new (row_addrs k xs)"
    using find_known [OF k new row] .
  have "distinct (map (snd \<circ> snd) sets)" "set (map (snd \<circ> snd) sets) \<inter> As = {}"
      "admissible ty I key sets (contents k1 xs)"
    using c F(3) by auto
  from set_known_row [OF ty F(2) row this, of sanity]
  obtain k' where R: "set_field_values ty sanity row False sets k1 = Some (None, k')"
      "keyed_ok ty mx I (As \<union> set (map (snd \<circ> snd) sets)) (fieldCount ty + n) k' xs"
      "contents k' xs = spec_set ty key sets (contents k1 xs)" "row_addrs k' xs = row_addrs k1 xs"
    by blast
  have "keyed_ok ty mx I (As \<union> set (call_addrs ty (Set_Row key sets new nodes))) n k' xs"
    by (rule keyed_ok_weaken [OF R(2)]) auto
  moreover have "row_addrs k' xs \<subseteq> insert new Rs" using R(4) F(4) rows by auto
  ultimately show ?thesis using F(1, 3) R(1, 3) by (intro exI [of _ k'] exI [of _ xs]) (simp add: set_row_def)
next
  case False
  have "new \<noteq> 0" "new \<notin> set (map snd xs)" "nul_free key" "distinct (map (snd \<circ> snd) sets @ map nodes [0..<fieldCount ty])"
      "set (map (snd \<circ> snd) sets @ map nodes [0..<fieldCount ty]) \<inter> As = {}" "admissible ty I key sets (contents k xs)"
    using c rows by (auto simp: row_addrs_def)
  from set_new_row [OF ty I k this(1, 2) False this(3) room this(4-6), of sanity] obtain k' row where R:
      "set_row ty sanity key new sets nodes k = Some (None, k')"
      "keyed_ok ty mx I (As \<union> set (call_addrs ty (Set_Row key sets new nodes))) n k' ((key, row) # xs)"
      "contents k' ((key, row) # xs) = spec_set ty key sets (contents k xs)" "row_addrs k' ((key, row) # xs) \<subseteq> insert new (row_addrs k xs)"
    by auto
  then show ?thesis using rows by (intro exI [of _ k'] exI [of _ "(key, row) # xs"]) auto
qed

lemma call_step:
  assumes ty: "type_ok ty" and I: "I \<subseteq> {..<fieldCount ty}" and k: "keyed_ok ty mx I As (length (call_addrs ty c) + n) k xs"
    and c: "call_ok ty I As Rs (contents k xs) c" and rows: "row_addrs k xs \<subseteq> Rs" and room: "int (length xs) + 1 < HASH_LIMIT"
  shows "\<exists>k' xs'. row_method ty sanity c k = Some (None, k')
    \<and> keyed_ok ty mx (call_indexes c I) (As \<union> set (call_addrs ty c)) n k' xs'
    \<and> contents k' xs' = spec_call ty c (contents k xs) \<and> length xs' \<le> Suc (length xs) \<and> row_addrs k' xs' \<subseteq> Rs \<union> call_row c"
proof (cases c)
  case (Set_Row key sets new nodes)
  have "keyed_ok ty mx I As (length sets + (fieldCount ty + n)) k xs" using k by (simp add: Set_Row add.assoc)
  from set_step [OF ty I this c [unfolded Set_Row] rows room, of sanity] show ?thesis unfolding Set_Row by simp
next
  case (Delete_Row key)
  have k': "keyed_ok ty mx I As n k xs" using k by (simp add: Delete_Row)
  show ?thesis
  proof (cases "key \<in> fst ` set xs")
    case True
    then obtain row where "(key, row) \<in> set xs" by force
    from delete_known_row [OF ty I k' this, of sanity] obtain k1 where
      "delete_row ty sanity key k = Some (Inr (True, k1))" "keyed_ok ty mx I As n k1 (filter (\<lambda>(k, r). k \<noteq> key) xs)"
      "contents k1 (filter (\<lambda>(k, r). k \<noteq> key) xs) = spec_delete key (contents k xs)"
      "row_addrs k1 (filter (\<lambda>(k, r). k \<noteq> key) xs) \<subseteq> row_addrs k xs"
      by blast
    then show ?thesis using rows unfolding Delete_Row
      by (intro exI [of _ k1] exI [of _ "filter (\<lambda>(k, r). k \<noteq> key) xs"]) (auto intro: le_SucI)
  next
    case False
    have "spec_delete key (contents k xs) = contents k xs"
      unfolding spec_delete_def by (rule filter_other_keys) (use False in simp)
    then show ?thesis using delete_unknown_row [OF k' False] c k' rows unfolding Delete_Row
      by (intro exI [of _ k] exI [of _ xs]) simp
  qed
next
  case Reset_Table
  have k': "keyed_ok ty mx I As n k xs" using k by (simp add: Reset_Table)
  show ?thesis using reset_ok [OF I k'] rows unfolding Reset_Table by (auto simp: contents_def)
qed

text \<open>The length of a run bounds the heights it draws and the rows it adds.\<close>

definition draws :: "table_type \<Rightarrow> row_call list \<Rightarrow> nat" where
  "draws ty cs = (\<Sum>c\<leftarrow>cs. length (call_addrs ty c))"

lemma run_calls_ok:
  assumes ty: "type_ok ty"
  shows "\<lbrakk>I \<subseteq> {..<fieldCount ty}; keyed_ok ty mx I As (draws ty cs + n) k xs; calls_ok ty I As Rs (contents k xs) cs; row_addrs k xs \<subseteq> Rs;
      int (length xs + length cs) < HASH_LIMIT\<rbrakk>
    \<Longrightarrow> \<exists>k' xs' As'. run_calls ty sanity cs k = Some (None, k') \<and> keyed_ok ty mx (fold call_indexes cs I) As' n k' xs'
      \<and> As' = As \<union> (\<Union>c\<in>set cs. set (call_addrs ty c))
      \<and> contents k' xs' = fold (spec_call ty) cs (contents k xs)"
proof (induction cs arbitrary: k xs I As Rs)
  case Nil
  then show ?case by (auto simp: draws_def)
next
  case (Cons c cs)
  have k: "keyed_ok ty mx I As (length (call_addrs ty c) + (draws ty cs + n)) k xs"
    using Cons.prems(2) by (simp add: draws_def add.assoc)
  have c: "call_ok ty I As Rs (contents k xs) c" using Cons.prems(3) by simp
  have room: "int (length xs) + 1 < HASH_LIMIT" using Cons.prems(5) by simp
  obtain k1 xs1 where R: "row_method ty sanity c k = Some (None, k1)"
      "keyed_ok ty mx (call_indexes c I) (As \<union> set (call_addrs ty c)) (draws ty cs + n) k1 xs1"
      "contents k1 xs1 = spec_call ty c (contents k xs)" "length xs1 \<le> Suc (length xs)" "row_addrs k1 xs1 \<subseteq> Rs \<union> call_row c"
    using call_step [OF ty Cons.prems(1) k c Cons.prems(4) room] by blast
  have "calls_ok ty (call_indexes c I) (As \<union> set (call_addrs ty c)) (Rs \<union> call_row c) (contents k1 xs1) cs"
    using Cons.prems(3) R(3) by simp
  moreover have "int (length xs1 + length cs) < HASH_LIMIT" using R(4) Cons.prems(5) by simp
  moreover have "call_indexes c I \<subseteq> {..<fieldCount ty}" using Cons.prems(1) by (cases c) auto
  ultimately show ?case using Cons.IH [OF _ R(2) _ R(5)] R(1, 3) by (auto simp: Un_assoc)
qed

section \<open>A new table\<close>

text \<open>\<^verbatim>\<open>create\<close>: no rows and no indexes.  In the memory that rows will be allocated in, none is linked.\<close>

definition new_keyed_table :: "addr \<Rightarrow> list_mem \<Rightarrow> level_state \<Rightarrow> hheap \<Rightarrow> (addr \<Rightarrow> nat \<Rightarrow> field_value) \<Rightarrow> keyed_table" where
  "new_keyed_table c m lev h vals =
     \<lparr>ktable = \<lparr>tmem = run_writes (ctable_ListInit c) m, ll_head = c, skipLists = (\<lambda>f. None), share_reader = False, tlevel = lev\<rparr>,
      kheap = h, khash = ctable_InitHashTable, kcount = 0, savedRow = None, kvals = vals\<rparr>"

lemma new_table_ok:
  assumes "c \<noteq> 0" "c \<in> As" "0 \<in> As" "heights_ok mx n lev"
  shows "keyed_ok ty mx {} As n (new_keyed_table c m lev h vals) []"
proof -
  have "table_ok (creator_for ty vals) UNIV (ktable (new_keyed_table c m lev h vals)) [] (\<lambda>f. []) (\<lambda>f p. [])"
    using assms(1) by (simp add: table_ok_def new_keyed_table_def ctable_ListInit_def is_list_def)
  from table_partI [OF this, of mx As "{}" UNIV 0 "{}" n] have
    "table_part ty mx {} As n 0 UNIV vals (ktable (new_keyed_table c m lev h vals)) [] {}"
    using assms by (simp add: new_keyed_table_def)
  then show ?thesis using init_rep by (simp add: keyed_ok_def new_keyed_table_def)
qed

text \<open>An index of a table without rows.\<close>

lemma index_new_table:
  assumes ty: "type_ok ty" and k: "keyed_ok ty (Suc depth) I As m k []" and f: "f \<notin> I" "0 < listNumber ty f"
    and a: "a \<notin> As" and d: "1 \<le> depth" and unl: "\<forall>r. lprev (tmem (ktable k)) r (nat (listNumber ty f)) = None"
    and hs: "heights_ok (Suc depth) n ((tlevel (ktable k))\<lparr>lrand := jsw_seed seed (lrand (tlevel (ktable k)))\<rparr>)"
  obtains t where "ctable_CreateIndex (creator_for ty (kvals k)) sanity a seed nodes f depth (ktable k) = Some (None, t)"
    "keyed_ok ty (Suc depth) (insert f I) (insert a As) n (k\<lparr>ktable := t\<rparr>) []"
    "lprev (tmem t) = lprev (tmem (ktable k))" "tlevel t = (tlevel (ktable k))\<lparr>lrand := jsw_seed seed (lrand (tlevel (ktable k)))\<rparr>"
proof -
  let ?t = "ktable k" and ?cr = "creator_for ty (kvals k)"
  let ?u = "put_skip f (jsw_sinit a depth seed (tmem ?t) (tlevel ?t)) ?t"
  note D = keyed_okD [OF k]
  obtain ps rs where T: "table_ok ?cr UNIV ?t [] ps rs"
      "\<forall>f sk. skipLists ?t f = Some sk \<longrightarrow> maxh sk = Suc depth \<and> shead sk \<in> As \<and> set (ps f) \<subseteq> As
         \<and> set (index_rows (ps f) (rs f)) = {} - (if f \<in> UNIV then {} else {0})"
      "\<forall>f. skipLists ?t f \<noteq> None \<longleftrightarrow> f \<in> I" "ll_head ?t \<in> As" "0 \<in> As" "\<not> share_reader ?t"
    using D(1) unfolding list.map list.set by (rule table_partE)
  have none: "skipLists ?t f = None" using T(3) f(1) by blast
  have fr: "fresh_node ?t ps a" using T(2, 4, 5) a unfolding fresh_node_def by (metis subsetD)
  have u: "\<forall>r\<in>UNIV. lprev (tmem ?t) r (list_no ?cr f) = None" using unl by simp
  have f': "0 < indexNumber ?cr f" using f(2) by simp
  note N = new_index_table [OF creator_for_ok [OF ty] T(1) none f' u fr d, where seed = seed]
  obtain sk where sk: "skipLists ?u = (skipLists ?t)(f := Some sk)" "shead sk = a" "maxh sk = Suc depth" using N(7) by blast
  have "cell (tmem ?u) (ll_head ?u) = 0" 
  proof -
    have "cell (tmem ?t) (ll_head ?t) = 0" using table_okD(1) [OF T(1)] by (simp add: is_list_def)
    then show ?thesis unfolding N(2, 6) by simp
  qed
  then have "ctable_CreateIndex ?cr sanity a seed nodes f depth ?t = Some (None, ?u)"
    using f' none T(6) by (simp add: ctable_CreateIndex_def create_loop.simps)
  moreover have "table_part ty (Suc depth) (insert f I) (insert a As) n 0 UNIV (kvals k) ?u [] {}"
  proof (rule table_partI [OF N(1) [where ?r0.0 = "\<lambda>p. []"]])
    show "\<forall>g s. skipLists ?u g = Some s \<longrightarrow> maxh s = Suc depth \<and> shead s \<in> insert a As \<and> set ((ps(f := [])) g) \<subseteq> insert a As
        \<and> set (index_rows ((ps(f := [])) g) ((rs(f := \<lambda>p. [])) g)) = {} - (if g \<in> UNIV then {} else {0})"
    proof (intro allI impI)
      fix g s assume s: "skipLists ?u g = Some s"
      show "maxh s = Suc depth \<and> shead s \<in> insert a As \<and> set ((ps(f := [])) g) \<subseteq> insert a As
        \<and> set (index_rows ((ps(f := [])) g) ((rs(f := \<lambda>p. [])) g)) = {} - (if g \<in> UNIV then {} else {0})"
      proof (cases "g = f")
        case True
        then show ?thesis using s sk by simp
      next
        case False
        then have "skipLists ?t g = Some s" using s sk(1) by simp
        then have "maxh s = Suc depth" "shead s \<in> As" "set (ps g) \<subseteq> As"
            "set (index_rows (ps g) (rs g)) = {} - (if g \<in> UNIV then {} else {0})" using T(2) by blast+
        then show ?thesis using False by auto
      qed
    qed
    show "\<forall>g. skipLists ?u g \<noteq> None \<longleftrightarrow> g \<in> insert f I" unfolding sk(1) using T(3) by simp
  qed (use N(2-4) T(4-6) hs in simp_all)
  then have "keyed_ok ty (Suc depth) (insert f I) (insert a As) n (k\<lparr>ktable := ?u\<rparr>) []"
    using k by (simp add: keyed_ok_def saved_ok_def N(5))
  ultimately show thesis using that N(4, 5) by blast
qed

section \<open>Correctness\<close>


section \<open>Witnesses\<close>

text \<open>A table with one field of numbers, unique or not, and a new table of this type with an index on the field.\<close>

definition sample_type :: "bool \<Rightarrow> table_type" where
  "sample_type u = \<lparr>fieldCount = 1, listNumber = (\<lambda>f. int f + 1), uniqueField = (\<lambda>f. u),
     default_value = (\<lambda>f. Number True 0), keyNo = - 1\<rparr>"

lemma sample_type_ok: "type_ok (sample_type u)"
  by (simp add: type_ok_def sample_type_def)

lemma sample_type_simps [simp]:
  "fieldCount (sample_type u) = 1" "listNumber (sample_type u) f = int f + 1" "uniqueField (sample_type u) f \<longleftrightarrow> u"
  "default_value (sample_type u) f = Number True 0" "keyNo (sample_type u) = - 1"
  by (simp_all add: sample_type_def)

definition sample_new :: keyed_table where
  "sample_new = new_keyed_table 8 empty_mem \<lparr>lbits = 511, lreset = 31, lrand = \<lparr>rx = [], rnext = 0\<rparr>\<rparr> blank_heap (\<lambda>r f. Number True 0)"

lemma sample_nine: "heights_ok 5 9 \<lparr>lbits = 511, lreset = 31, lrand = r\<rparr>"
proof -
  have "heights_ok 5 (Suc (Suc (Suc (Suc (Suc (Suc (Suc (Suc (Suc 0))))))))) \<lparr>lbits = 511, lreset = 31, lrand = r\<rparr>"
    by (simp add: rlevel_def rlevel_loop.simps draw_bits_def Let_def drop_bit_Suc)
  then show ?thesis by (simp add: eval_nat_numeral)
qed

lemma sample_keyed:
  obtains t where "keyed_ok (sample_type u) 5 {0} {0, 8, 16} 9 (sample_new\<lparr>ktable := t\<rparr>) []"
proof -
  have k: "keyed_ok (sample_type u) (Suc 4) {} {0, 8} 0 sample_new []"
    unfolding sample_new_def by (rule new_table_ok) simp_all
  have u: "\<forall>r. lprev (tmem (ktable sample_new)) r (nat (listNumber (sample_type u) 0)) = None"
    by (simp add: sample_new_def new_keyed_table_def ctable_ListInit_def empty_mem_def)
  have h: "heights_ok (Suc 4) 9 ((tlevel (ktable sample_new))\<lparr>lrand := jsw_seed 0 (lrand (tlevel (ktable sample_new)))\<rparr>)"
    using sample_nine by (simp add: sample_new_def new_keyed_table_def)
  have p: "(0 :: nat) \<notin> {}" "0 < listNumber (sample_type u) 0" "(16 :: addr) \<notin> {0, 8}" "(1 :: nat) \<le> 4" by simp_all
  obtain t where t: "keyed_ok (sample_type u) (Suc 4) (insert 0 {}) (insert 16 {0, 8}) 9 (sample_new\<lparr>ktable := t\<rparr>) []"
    by (rule index_new_table [OF sample_type_ok k p u h])
  have e: "insert (16 :: addr) {0, 8} = {0, 8, 16}" "Suc 4 = 5" by auto
  show thesis by (rule that [OF t [unfolded e]])
qed

text \<open>Three rows, a change of one and the removal of another.\<close>

definition sample_calls :: "row_call list" where
  "sample_calls = [Set_Row [97] [(0, Number False 3, 24)] 400 (\<lambda>f. 32), Set_Row [98] [] 408 (\<lambda>f. 40),
     Set_Row [99] [(0, Number False 5, 48)] 416 (\<lambda>f. 56), Set_Row [97] [(0, Number False 7, 64)] 424 (\<lambda>f. 72), Delete_Row [99]]"

definition number_seven :: "nat \<Rightarrow> field_value" where
  "number_seven = (\<lambda>f. if f = 0 then Number False 7 else Number True 0)"

lemma sample_contents: "fold (spec_call (sample_type u)) sample_calls [] = [([98], \<lambda>f. Number True 0), ([97], number_seven)]"
  by (auto simp: sample_calls_def spec_set_def spec_delete_def new_values_def number_seven_def unchanged_def fun_eq_iff)

lemma sample_calls_ok: "calls_ok (sample_type u) {0} {0, 8, 16} {} [] sample_calls"
  by (simp add: sample_calls_def nul_free_def admissible_def clash_free_def spec_set_def new_values_def unchanged_def number_compare_def null_check_def)

lemma sample_indexes: "fold call_indexes sample_calls {0} = {0}"
  by (simp add: sample_calls_def)

lemma sample_draws_calls: "draws (sample_type u) sample_calls = 7"
  by (simp add: draws_def sample_calls_def)

lemma sample_room: "int (length [] + length sample_calls) < HASH_LIMIT"
  by (simp add: sample_calls_def HASH_LIMIT_def)

lemma sample_run:
  obtains k where "keyed_ok (sample_type u) 5 {0} {0, 8, 16} (draws (sample_type u) sample_calls + 2) k []" "row_addrs k [] \<subseteq> {}"
proof -
  obtain t where t: "keyed_ok (sample_type u) 5 {0} {0, 8, 16} 9 (sample_new\<lparr>ktable := t\<rparr>) []" using sample_keyed .
  have "row_addrs (sample_new\<lparr>ktable := t\<rparr>) [] \<subseteq> {}" by (simp add: row_addrs_def sample_new_def new_keyed_table_def)
  then show thesis using that [of "sample_new\<lparr>ktable := t\<rparr>"] t by (simp add: sample_draws_calls)
qed

lemma sample_fields: "{0} \<subseteq> {..<fieldCount (sample_type u)}"
  by simp


end
