(* ===== verification/KeyedErrors.thy ===== *)
theory KeyedErrors
  imports KeyedRuns
begin

text \<open>
  Calls of \<^verbatim>\<open>set\<close> that fail: what they leave behind.
\<close>

lemma changed_contents:
  assumes "distinct (map fst xs)" "distinct (map snd xs)" "(key, row) \<in> set xs" "kvals k' = (kvals k)(row := v)"
  shows "contents k' xs = map (\<lambda>(c, u). (c, if c = key then v else u)) (contents k xs)"
proof -
  have "kvals k' r = (if c = key then v else kvals k r)" if "(c, r) \<in> set xs" for c r
    using same_entry [OF assms(1, 2) that assms(3)] assms(4) by auto
  then show ?thesis by (auto simp: contents_def)
qed

lemma set_contents:
  assumes "xs' = (if key \<in> fst ` set xs then xs else (key, row) # xs)" "(key, row) \<in> set xs'" "distinct (map fst xs')"
    "distinct (map snd xs')" "contents k1 xs = contents k xs"
    "kvals k1 row = (case map_of (contents k xs) key of Some v \<Rightarrow> v | None \<Rightarrow> new_values ty key)"
    "kvals k' = (kvals k1)(row := set_values sets (kvals k1 row))"
  shows "contents k' xs' = spec_set ty key sets (contents k xs)"
proof -
  let ?v = "set_values sets (kvals k1 row)"
  have "contents k' xs' = map (\<lambda>(c, u). (c, if c = key then ?v else u)) (contents k1 xs')"
    by (rule changed_contents [OF assms(3) assms(4) assms(2)]) (use assms(7) in simp)
  also have "\<dots> = spec_set ty key sets (contents k xs)"
  proof (cases "key \<in> fst ` set xs")
    case True
    then have "xs' = xs" using assms(1) by simp
    then have T: "contents k1 xs' = contents k xs" using assms(5) by simp
    have "u = kvals k1 row" if "(key, u) \<in> set (contents k xs)" for u
      using that same_entry [OF assms(3) assms(4) _ assms(2)] unfolding T [symmetric] by (auto simp: contents_def)
    then have "map (\<lambda>(c, u). (c, if c = key then ?v else u)) (contents k xs)
        = map (\<lambda>(c, u). (c, if c = key then set_values sets u else u)) (contents k xs)" by auto
    then show ?thesis using True T by (simp only: spec_set_def contents_keys if_True)
  next
    case False
    then have xs': "xs' = (key, row) # xs" and none: "map_of (contents k xs) key = None"
      using assms(1) by (simp_all add: map_of_eq_None_iff)
    have "map (\<lambda>(c, u). (c, if c = key then ?v else u)) (contents k xs) = contents k xs"
      by (rule map_idI) (use False in \<open>force simp: contents_def\<close>)
    moreover have "contents k1 xs' = (key, kvals k1 row) # contents k xs" unfolding xs' assms(5) [symmetric] by (simp add: contents_def)
    ultimately show ?thesis using False assms(6) none by (simp add: spec_set_def)
  qed
  finally show ?thesis .
qed

section \<open>Refused by a unique index\<close>

lemma set_field_refused:
  assumes ty: "type_ok ty" and part: "table_part ty mx I As (Suc n) row P (kvals k) (ktable k) rows (set rows)"
    and row: "row \<in> set rows" and a: "a \<notin> As" and P: "if isNew then f \<notin> P else P = UNIV" and f: "f \<in> I" "uniqueField ty f"
    and w: "\<not> unchanged (kvals k row f) w" "\<exists>r\<in>set rows - {row}. table_field_compare w (kvals k r f) = 0"
  shows "\<exists>k'. set_field_value ty sanity row isNew (f, w, a) k = Some (Some (Index_Error (Unique_Check_Failed f)), k')
    \<and> table_part ty mx I (insert a As) n row (P - {f}) (kvals k') (ktable k') rows (set rows)
    \<and> kvals k' = (kvals k)(row := (kvals k row)(f := w)) \<and> same_keys k k'"
proof -
  let ?vals = "(kvals k)(row := (kvals k row)(f := w))"
  let ?step = "if \<not> isNew \<and> skipLists (ktable k) f \<noteq> None
    then ctable_RemoveFromIndex (creator_for ty (kvals k)) sanity row f (ktable k) else Some (None, ktable k)"
  obtain t1 where t1: "?step = Some (None, t1)" "table_part ty mx I As (Suc n) row (P - {f}) (kvals k) t1 rows (set rows)"
      "ll_head t1 = ll_head (ktable k)" "keeps_list0 (ktable k) t1"
    using step_part [OF ty part f(1) P] .
  have part1: "table_part ty mx I As (Suc n) row (P - {f}) ?vals t1 rows (set rows)" by (rule revalue_part [OF t1(2)]) simp
  have clash: "uniqueField ty f \<and> (\<exists>r\<in>set rows - {row}. table_field_compare (?vals row f) (?vals r f) = 0)"
    using f(2) w(2) by auto
  obtain t2 where t2: "ctable_InsertIntoIndex (creator_for ty ?vals) sanity a row f t1 = Some (Some (Unique_Check_Failed f), t2)"
      "table_part ty mx I (insert a As) n row (P - {f}) ?vals t2 rows (set rows)" "ll_head t2 = ll_head t1" "keeps_list0 t1 t2"
    using insert_part [OF ty part1 f(1) _ row a, of sanity] clash by auto
  have "skipLists t1 f \<noteq> None" using part_indexed [OF t1(2)] f(1) by blast
  then have "set_field_value ty sanity row isNew (f, w, a) k
      = Some (Some (Index_Error (Unique_Check_Failed f)), k\<lparr>ktable := t2, kvals := ?vals\<rparr>)"
    using w(1) t1(1) t2(1) by (simp add: set_field_value_def Let_def)
  then show ?thesis using t2(2-4) t1(3, 4)
    by (intro exI [of _ "k\<lparr>ktable := t2, kvals := ?vals\<rparr>"]) (auto simp: same_keys_def keeps_list0_def)
qed

lemma exists_known:
  assumes "hash_rep (kheap k, khash k) (map_of xs)" "distinct (map fst xs)" "(key, row) \<in> set xs"
  shows "row_exists key k = Some True"
proof -
  have m: "map_of xs key = Some row" using assms(2, 3) by simp
  then have "nul_free key" "row \<noteq> 0" using rep_key [OF assms(1) m] by simp_all
  then show ?thesis using find_correct [OF assms(1), of key] m by (simp add: row_exists_def nul_free_def)
qed

text \<open>The row that \<^verbatim>\<open>set\<close> works on, old or new.\<close>

lemma found_row:
  assumes "type_ok ty" and "keyed_ok ty mx I As n k xs" and "new \<noteq> 0" and "new \<notin> set (map snd xs)" and "nul_free key"
    and "int (length xs) + 1 < HASH_LIMIT"
  obtains row k1 isNew xs' P where "find_or_create ty sanity key new k = Some (Inr (row, isNew, k1))"
    "xs' = (if key \<in> fst ` set xs then xs else (key, row) # xs)" "(key, row) \<in> set xs'" "distinct (map fst xs')"
    "table_part ty mx I As n row P (kvals k1) (ktable k1) (map snd xs') (set (map snd xs'))"
    "if isNew then P = {} else P = UNIV"
    "hash_rep (kheap k1, khash k1) (map_of xs')" "kcount k1 = int (length xs')" "contents k1 xs = contents k xs"
    "kvals k1 row = (case map_of (contents k xs) key of Some v \<Rightarrow> v | None \<Rightarrow> new_values ty key)"
    "isNew \<longleftrightarrow> key \<notin> fst ` set xs"
proof -
  note D = keyed_okD [OF assms(2)]
  show thesis
  proof (cases "key \<in> fst ` set xs")
    case True
    then obtain row where row: "(key, row) \<in> set xs" by force
    obtain k1 where R: "find_or_create ty sanity key new k = Some (Inr (row, False, k1))" "keyed_ok ty mx I As (n) k1 xs"
        "contents k1 xs = contents k xs"
      using find_known [OF assms(2-4) row] .
    note D1 = keyed_okD [OF R(2)]
    have p: "table_part ty mx I As (n) row UNIV (kvals k1) (ktable k1) (map snd xs) (set (map snd xs))"
      by (rule table_part_fields [OF D1(1)]) simp
    have "map_of (contents k1 xs) key = Some (kvals k1 row)" using row D(3) by (force simp: contents_def map_of_map)
    then have v: "kvals k1 row = (case map_of (contents k xs) key of Some v \<Rightarrow> v | None \<Rightarrow> new_values ty key)" using R(3) by simp
    show thesis by (rule that [OF R(1) _ row D(3) p _ D1(2, 4) R(3) v]) (use True in simp_all)
  next
    case False
    obtain row k1 where R: "find_or_create ty sanity key new k = Some (Inr (row, True, k1))" "row \<noteq> 0" "row \<notin> set (map snd xs)"
        "table_part ty mx I As n row {} (kvals k1) (ktable k1) (map snd ((key, row) # xs)) (set (map snd ((key, row) # xs)))"
        "hash_rep (kheap k1, khash k1) (map_of ((key, row) # xs))" "kcount k1 = int (length ((key, row) # xs))" "savedRow k1 = None"
        "kvals k1 row = new_values ty key" "contents k1 xs = contents k xs"
        "\<forall>(key, r)\<in>set xs. \<forall>f. int f = keyNo ty \<longrightarrow> kvals k1 r f = Key_Text key" "row \<in> insert new (set_option (savedRow k))"
      using find_new [OF assms(1-4) False assms(5, 6)] .
    have "map_of (contents k xs) key = None" using False contents_keys [of k xs] by (simp add: map_of_eq_None_iff)
    then have v: "kvals k1 row = (case map_of (contents k xs) key of Some v \<Rightarrow> v | None \<Rightarrow> new_values ty key)" using R(8) by simp
    show thesis by (rule that [OF R(1) _ _ _ R(4) _ R(5, 6, 9) v]) (use False D(3) in auto)
  qed
qed


section \<open>A field that is set twice\<close>


section \<open>Witnesses\<close>

text \<open>A table of one row.\<close>

lemma sample_one:
  obtains k xs where "keyed_ok (sample_type True) 5 {0} {0, 8, 16, 24, 32} (Suc 6) k xs" "fst ` set xs = {[97]}" "set (map snd xs) \<subseteq> {400}"
    "contents k xs = [([97], number_seven)]"
proof -
  obtain t where t: "keyed_ok (sample_type True) 5 {0} {0, 8, 16} 9 (sample_new\<lparr>ktable := t\<rparr>) []" using sample_keyed .
  let ?k = "sample_new\<lparr>ktable := t\<rparr>" and ?sets = "[(0, Number False 7, 24)] :: (nat \<times> field_value \<times> addr) list"
  have e: "9 = length ?sets + (fieldCount (sample_type True) + Suc 6)" by simp
  have c: "call_ok (sample_type True) {0} {0, 8, 16} {} (contents ?k []) (Set_Row [97] ?sets 400 (\<lambda>f. 32))"
    by (simp add: contents_def nul_free_def admissible_def clash_free_def)
  have r: "row_addrs ?k [] \<subseteq> {}" by (simp add: row_addrs_def sample_new_def new_keyed_table_def)
  have h: "int (length []) + 1 < HASH_LIMIT" by (simp add: HASH_LIMIT_def)
  obtain k xs where R: "keyed_ok (sample_type True) 5 {0} ({0, 8, 16} \<union> set (call_addrs (sample_type True) (Set_Row [97] ?sets 400 (\<lambda>f. 32)))) (Suc 6) k xs"
      "contents k xs = spec_set (sample_type True) [97] ?sets (contents ?k [])" "row_addrs k xs \<subseteq> insert 400 {}"
    using set_step [OF sample_type_ok sample_fields t [unfolded e] c r h, of True] by blast
  have A: "{0, 8, 16} \<union> set (call_addrs (sample_type True) (Set_Row [97] ?sets 400 (\<lambda>f. 32))) = {0, 8, 16, 24, 32}" by auto
  have C: "contents k xs = [([97], number_seven)]"
    unfolding R(2) by (simp add: contents_def spec_set_def new_values_def number_seven_def unchanged_def fun_eq_iff)
  show thesis by (rule that [OF R(1) [unfolded A] _ _ C]) (use contents_keys [of k xs] C R(3) in \<open>auto simp: row_addrs_def\<close>)
qed



end
