(* ===== verification/KeyedSearch.thy ===== *)
theory KeyedSearch
  imports KeyedRuns
begin

text \<open>
  Searches of a table that was made by calls of its methods, and the deletions and updates of a search.
\<close>

section \<open>Searches\<close>

text \<open>
  What a search sees of a table: the comparisons, keys and rows of its state.  A key of Tcl has no NUL
  character, which Tcl writes as two bytes.
\<close>

definition text_of :: "cstring \<Rightarrow> string" where
  "text_of s = map (\<lambda>b. char_of (unat b)) s"

definition bytes_of :: "string \<Rightarrow> cstring" where
  "bytes_of s = map (\<lambda>c. word_of_nat (of_char c)) s"

definition key_of :: "table_type \<Rightarrow> keyed_table \<Rightarrow> addr \<Rightarrow> cstring" where
  "key_of ty k r = (if 0 \<le> keyNo ty then (case kvals k r (nat (keyNo ty)) of Key_Text s \<Rightarrow> s | _ \<Rightarrow> []) else hkey (kheap k r))"

text \<open>\<^verbatim>\<open>find_row\<close> of the generated code.\<close>

definition table_find :: "keyed_table \<Rightarrow> cstring \<Rightarrow> addr" where
  "table_find k key = (case ctable_FindHashEntry (kheap k) (khash k) key of None \<Rightarrow> 0 | Some row \<Rightarrow> row)"

definition table_env :: "table_type \<Rightarrow> keyed_table \<Rightarrow> search_env \<Rightarrow> search_env" where
  "table_env ty k ev = ev\<lparr>creator := creator_for ty (kvals k), keyField := keyNo ty, count := nat (kcount k),
     row_key := (\<lambda>r. text_of (key_of ty k r)),
     find_row := (\<lambda>s. if nul_free (bytes_of s) then table_find k (bytes_of s) else 0),
     sort_compare := (\<lambda>fs r s. table_sort_compare fs (kvals k r) (kvals k s))\<rparr>"

lemma table_env_simps [simp]:
  "creator (table_env ty k ev) = creator_for ty (kvals k)" "count (table_env ty k ev) = nat (kcount k)"
  "keyField (table_env ty k ev) = keyNo ty" "row_key (table_env ty k ev) = (\<lambda>r. text_of (key_of ty k r))"
  "find_row (table_env ty k ev) = (\<lambda>s. if nul_free (bytes_of s) then table_find k (bytes_of s) else 0)"
  "sort_compare (table_env ty k ev) = (\<lambda>fs r s. table_sort_compare fs (kvals k r) (kvals k s))"
  by (simp_all add: table_env_def)

lemma bytes_text [simp]: "bytes_of (text_of s) = s"
  by (simp add: bytes_of_def text_of_def comp_def)

lemma text_bytes [simp]: "text_of (bytes_of s) = s"
  by (simp add: bytes_of_def text_of_def comp_def unat_of_nat)

lemma table_ok_weaken: "table_ok cr V t rows ps rs \<Longrightarrow> W \<subseteq> V \<Longrightarrow> table_ok cr W t rows ps rs"
  unfolding table_ok_def by blast

lemma table_env_searchable:
  assumes ty: "type_ok ty" and k: "keyed_ok ty mx I As n k xs"
  obtains ps rs where "searchable (table_env ty k ev) (ktable k) (map snd xs) ps rs"
proof -
  note D = keyed_okD [OF k]
  obtain ps rs where T: "table_ok (creator_for ty (kvals k)) UNIV (ktable k) (map snd xs) ps rs"
      "\<forall>f sk. skipLists (ktable k) f = Some sk \<longrightarrow> maxh sk = mx \<and> shead sk \<in> As \<and> set (ps f) \<subseteq> As
         \<and> set (index_rows (ps f) (rs f)) = set (map snd xs) - (if f \<in> UNIV then {} else {0})"
    using D(1) by (rule table_partE)
  have key: "key_of ty k r = key" if "(key, r) \<in> set xs" for key r
  proof (cases "0 \<le> keyNo ty")
    case True
    then show ?thesis using D(6) [OF that, of "nat (keyNo ty)"] by (simp add: key_of_def)
  next
    case False
    have "map_of xs key = Some r" using that D(3) by simp
    then show ?thesis using False rep_key(1) [OF D(2)] by (simp add: key_of_def)
  qed
  have inj: "inj_on (\<lambda>r. text_of (key_of ty k r)) (set (map snd xs))"
  proof (rule inj_onI)
    fix r r' assume "r \<in> set (map snd xs)" "r' \<in> set (map snd xs)" and e: "text_of (key_of ty k r) = text_of (key_of ty k r')"
    then obtain c c' where c: "(c, r) \<in> set xs" "(c', r') \<in> set xs" by auto
    have "c = c'" using arg_cong [OF e, of bytes_of] key [OF c(1)] key [OF c(2)] by simp
    then show "r = r'" using same_entry [OF D(3, 7) c] by simp
  qed
  have find: "table_find k key = (case map_of xs key of None \<Rightarrow> 0 | Some r \<Rightarrow> r)" if "nul_free key" for key
    using find_correct [OF D(2), of key] that by (simp add: table_find_def nul_free_def)
  have finds: "if s \<in> (\<lambda>r. text_of (key_of ty k r)) ` set (map snd xs)
      then (if nul_free (bytes_of s) then table_find k (bytes_of s) else 0) \<in> set (map snd xs)
        \<and> text_of (key_of ty k (if nul_free (bytes_of s) then table_find k (bytes_of s) else 0)) = s
      else (if nul_free (bytes_of s) then table_find k (bytes_of s) else 0) = 0" for s
  proof (cases "map_of xs (bytes_of s)")
    case None
    have no: "s \<noteq> text_of (key_of ty k r)" if r: "(c, r) \<in> set xs" for c r
    proof
      assume "s = text_of (key_of ty k r)"
      then have "bytes_of s = c" using key [OF r] by simp
      then show False using None r by (force simp: map_of_eq_None_iff)
    qed
    have "s \<notin> (\<lambda>r. text_of (key_of ty k r)) ` set (map snd xs)"
    proof
      assume "s \<in> (\<lambda>r. text_of (key_of ty k r)) ` set (map snd xs)"
      then obtain c r where "(c, r) \<in> set xs" "s = text_of (key_of ty k r)" by auto
      then show False using no by blast
    qed
    moreover have "(if nul_free (bytes_of s) then table_find k (bytes_of s) else 0) = 0" using None find by auto
    ultimately show ?thesis by simp
  next
    case (Some r)
    have r: "(bytes_of s, r) \<in> set xs" using Some by (rule map_of_SomeD)
    have f: "(if nul_free (bytes_of s) then table_find k (bytes_of s) else 0) = r"
      using find Some rep_key(3) [OF D(2) Some] by simp
    have "text_of (key_of ty k r) = s" using key [OF r] by simp
    moreover have "r \<in> set (map snd xs)" using r by force
    ultimately show ?thesis unfolding f by (metis image_eqI)
  qed
  have ixs: "\<forall>f. skipLists (ktable k) f \<noteq> None \<longrightarrow> set (index_rows (ps f) (rs f)) = set (map snd xs)"
  proof (intro allI impI)
    fix f assume "skipLists (ktable k) f \<noteq> None"
    then obtain sk where "skipLists (ktable k) f = Some sk" by blast
    then have "set (index_rows (ps f) (rs f)) = set (map snd xs) - (if f \<in> UNIV then {} else {0})" using T(2) by blast
    then show "set (index_rows (ps f) (rs f)) = set (map snd xs)" by (simp only: UNIV_I if_True Diff_empty)
  qed
  have "searchable (table_env ty k ev) (ktable k) (map snd xs) ps rs"
    unfolding searchable_def table_env_simps using D(4)
    by (intro conjI creator_for_ok [OF ty] table_ok_weaken [OF T(1)] ixs inj allI finds) simp_all
  then show thesis by (rule that)
qed


text \<open>What a search does: the rows \<open>ms\<close> that it finds are those that \<open>sel\<close> accepts.\<close>

definition found :: "(cstring \<Rightarrow> (nat \<Rightarrow> field_value) \<Rightarrow> bool) \<Rightarrow> keyed_table \<Rightarrow> (cstring \<times> addr) list \<Rightarrow> addr list \<Rightarrow> bool" where
  "found sel k xs ms \<longleftrightarrow> distinct ms \<and> set ms = {r. \<exists>key. (key, r) \<in> set xs \<and> sel key (kvals k r)}
     \<and> mset (map (\<lambda>r. (hkey (kheap k r), kvals k r)) ms) = mset (filter (\<lambda>(key, v). sel key v) (contents k xs))"

lemma found_rows:
  assumes k: "keyed_ok ty mx I As n k xs" and ms: "mset ms = mset (filter P (map snd xs))"
    and P: "\<And>r. P r \<longleftrightarrow> sel (hkey (kheap k r)) (kvals k r)"
  shows "found sel k xs ms"
proof -
  note D = keyed_okD [OF k]
  have key: "hkey (kheap k r) = c" if "(c, r) \<in> set xs" for c r using rep_key(1) [OF D(2)] D(3) that by simp
  have e: "contents k xs = map (\<lambda>r. (hkey (kheap k r), kvals k r)) (map snd xs)" unfolding contents_def using key by auto
  have "P = (\<lambda>r. sel (hkey (kheap k r)) (kvals k r))" by (rule ext) (rule P)
  then have "map (\<lambda>r. (hkey (kheap k r), kvals k r)) (filter P (map snd xs)) = filter (\<lambda>(key, v). sel key v) (contents k xs)"
    unfolding e by (simp only: filter_map comp_def split_conv)
  from arg_cong [OF this, of mset]
  have "mset (map (\<lambda>r. (hkey (kheap k r), kvals k r)) ms) = mset (filter (\<lambda>(key, v). sel key v) (contents k xs))"
    unfolding mset_map ms .
  moreover have "distinct (filter P (map snd xs))" using D(7) by (rule distinct_filter)
  then have "distinct ms" using ms by (metis mset_eq_imp_distinct_iff)
  moreover have "set ms = {r. \<exists>key. (key, r) \<in> set xs \<and> sel key (kvals k r)}"
  proof (rule set_eqI)
    fix r
    have "r \<in> set ms \<longleftrightarrow> r \<in> set (map snd xs) \<and> sel (hkey (kheap k r)) (kvals k r)" using mset_eq_setD [OF ms] P by simp
    also have "\<dots> \<longleftrightarrow> (\<exists>key. (key, r) \<in> set xs \<and> sel (hkey (kheap k r)) (kvals k r))" by force
    also have "\<dots> \<longleftrightarrow> (\<exists>key. (key, r) \<in> set xs \<and> sel key (kvals k r))" by (rule ex_cong1) (auto simp: key)
    finally show "r \<in> set ms \<longleftrightarrow> r \<in> {r. \<exists>key. (key, r) \<in> set xs \<and> sel key (kvals k r)}" by simp
  qed
  ultimately show ?thesis by (simp only: found_def simp_thms)
qed

lemma search_contents:
  assumes ty: "type_ok ty" and k: "keyed_ok ty mx I As n k xs"
    and s0: "search_ok (table_env ty k ev) (ktable k) s0" "action s0 \<noteq> ACTION_CURSOR" "tranType s0 \<noteq> TRAN_CURSOR"
      "cursorName s0 = None" "search_cursor s0 = None" "limit s0 = 0 \<Longrightarrow> offset s0 = 0 \<or> immediate (ktable k) s0"
    and sort: "\<forall>(f, d)\<in>set (sortFields s0). d \<noteq> 0"
    and sel: "\<forall>r. row_matches (table_env ty k ev) s0 r \<longleftrightarrow> sel (hkey (kheap k r)) (kvals k r)"
  shows "\<exists>w ms s'. plan_walk (table_env ty k ev) (ktable k) (begin_search s0) = Inr (True, w) \<and> found sel k xs ms
    \<and> (sortFields s0 = [] \<or> action s0 = ACTION_NONE
        \<or> sorted_wrt (if sort_eliminated w s0 then (\<lambda>v u. table_field_compare (v (skipField w)) (u (skipField w)) \<le> 0)
            else (\<lambda>v u. table_sort_compare (sortFields s0) v u \<le> 0)) (map (kvals k) ms))
    \<and> ctable_PerformSearch (table_env ty k ev) (ktable k) a s0 cs = Some (Inr (TCL_OK, Reply_Count (int (length (window s0 ms))), s', cs))
    \<and> acted s' = acted s0 @ (if action s0 = ACTION_NONE then [] else window s0 ms)
    \<and> deleted s' = deleted s0 @ (if tranType s0 = TRAN_DELETE then window s0 ms else [])
    \<and> updated s' = updated s0 @ (if tranType s0 = TRAN_UPDATE
         then concat (map (\<lambda>row. map (\<lambda>(f, v). (row, f, v)) (the (update_fields (table_env ty k ev) s0))) (window s0 ms)) else [])"
proof -
  let ?ev = "table_env ty k ev"
  obtain ps rs where S: "searchable ?ev (ktable k) (map snd xs) ps rs" using table_env_searchable [OF ty k] .
  have "comparator (sort_compare ?ev (sortFields s0))"
    using comparator_image [OF sort_compare_comparator [OF sort], of "kvals k"] by simp
  from search_finds [OF S s0 this, of a cs] obtain w ms s' where R:
      "plan_walk ?ev (ktable k) (begin_search s0) = Inr (True, w)"
      "mset ms = mset (filter (row_matches ?ev s0) (map snd xs))"
      "sortFields s0 = [] \<or> action s0 = ACTION_NONE \<or> sorted_wrt (if sort_eliminated w s0 then (\<lambda>r q. field_cmp ?ev (skipField w) r q \<le> 0)
            else (\<lambda>r q. sort_compare ?ev (sortFields s0) r q \<le> 0)) ms"
      "ctable_PerformSearch ?ev (ktable k) a s0 cs = Some (Inr (TCL_OK, Reply_Count (int (length (window s0 ms))), s', cs))"
      "acted s' = acted s0 @ (if action s0 = ACTION_NONE then [] else window s0 ms)"
      "deleted s' = deleted s0 @ (if tranType s0 = TRAN_DELETE then window s0 ms else [])"
      "updated s' = updated s0 @ (if tranType s0 = TRAN_UPDATE
         then concat (map (\<lambda>row. map (\<lambda>(f, v). (row, f, v)) (the (update_fields ?ev s0))) (window s0 ms)) else [])"
    by blast
  have "found sel k xs ms" by (rule found_rows [OF k R(2)]) (use sel in blast)
  moreover have "sortFields s0 = [] \<or> action s0 = ACTION_NONE
        \<or> sorted_wrt (if sort_eliminated w s0 then (\<lambda>v u. table_field_compare (v (skipField w)) (u (skipField w)) \<le> 0)
            else (\<lambda>v u. table_sort_compare (sortFields s0) v u \<le> 0)) (map (kvals k) ms)"
    using R(3) unfolding sorted_wrt_map table_env_simps creator_for_simps by (cases "sort_eliminated w s0") simp_all
  ultimately show ?thesis using R(1, 4-7) by (intro exI [of _ w] exI [of _ ms] exI [of _ s'] conjI)
qed

section \<open>Deletions of a search\<close>

lemma delete_entry_vals: "delete_entry ty sanity row k = Some (Inr k') \<Longrightarrow> kvals k' = kvals k"
  by (auto simp: delete_entry_def bind_eq_Some_conv split: option.splits)

lemma delete_rows_ok:
  assumes ty: "type_ok ty" and I: "I \<subseteq> {..<fieldCount ty}"
  shows "\<lbrakk>keyed_ok ty mx I As n k xs; distinct rs; set rs \<subseteq> set (map snd xs)\<rbrakk>
    \<Longrightarrow> \<exists>k'. delete_rows ty sanity rs k = Some (Inr k') \<and> keyed_ok ty mx I As n k' (filter (\<lambda>(c, r). r \<notin> set rs) xs)
      \<and> kvals k' = kvals k"
proof (induction rs arbitrary: k xs)
  case Nil
  have "filter (\<lambda>(c, r). r \<notin> set []) xs = xs" by simp
  then show ?case using Nil.prems(1) by simp
next
  case (Cons row rs)
  note D = keyed_okD [OF Cons.prems(1)]
  obtain key where row: "(key, row) \<in> set xs" using Cons.prems(3) by auto
  obtain k1 where R: "delete_entry ty sanity row k = Some (Inr k1)" "keyed_ok ty mx I As n k1 (filter (\<lambda>(k, r). k \<noteq> key) xs)"
    using delete_entry_row [OF ty I Cons.prems(1) row, of sanity] by blast
  have e: "filter (\<lambda>(k, r). k \<noteq> key) xs = filter (\<lambda>(k, r). r \<noteq> row) xs"
    by (rule filter_cong) (use same_entry [OF D(3, 7) _ row] in auto)
  have "set rs \<subseteq> set (map snd (filter (\<lambda>(k, r). r \<noteq> row) xs))" using Cons.prems(2, 3) by force
  with Cons.IH [OF R(2) [unfolded e]] Cons.prems(2) obtain k' where R': "delete_rows ty sanity rs k1 = Some (Inr k')"
      "keyed_ok ty mx I As n k' (filter (\<lambda>(c, r). r \<notin> set rs) (filter (\<lambda>(k, r). r \<noteq> row) xs))" "kvals k' = kvals k1"
    by auto
  have "filter (\<lambda>(c, r). r \<notin> set rs) (filter (\<lambda>(k, r). r \<noteq> row) xs) = filter (\<lambda>(c, r). r \<notin> set (row # rs)) xs"
    unfolding filter_filter by (rule filter_cong) auto
  then show ?case using R(1) R' delete_entry_vals [OF R(1)] by simp
qed

lemma window_part: "distinct xs \<Longrightarrow> distinct (window s xs)" "set (window s xs) \<subseteq> set xs"
  using set_take_subset [of "nat (limit s)" "drop (nat (offset s)) xs"] set_drop_subset [of "nat (offset s)" xs]
  by (auto simp: window_def Let_def)

section \<open>Updates of a search\<close>

text \<open>The fields \<open>fvs\<close> with their values, for one row: \<open>at row i\<close> is the address of a node for the \<open>i\<close>-th of them.\<close>

definition row_sets :: "(addr \<Rightarrow> nat \<Rightarrow> addr) \<Rightarrow> (nat \<times> field_value) list \<Rightarrow> addr \<Rightarrow> (nat \<times> field_value \<times> addr) list" where
  "row_sets at fvs row = map (\<lambda>(i, f, w). (f, w, at row i)) (enumerate 0 fvs)"

fun assign :: "(nat \<times> field_value) list \<Rightarrow> (nat \<Rightarrow> field_value) \<Rightarrow> (nat \<Rightarrow> field_value)" where
  "assign [] v = v"
| "assign ((f, w) # ss) v = assign ss (if unchanged (v f) w then v else v(f := w))"

lemma set_values_assign: "set_values (row_sets at fvs row) v = assign fvs v"
proof -
  have "set_values (map (\<lambda>(i, f, w). (f, w, at row i)) (enumerate m fvs)) v = assign fvs v" for m
    by (induction fvs arbitrary: m v) auto
  then show ?thesis by (simp add: row_sets_def)
qed

lemma row_sets_simps [simp]:
  "length (row_sets at fvs row) = length fvs" "map (snd \<circ> snd) (row_sets at fvs row) = map (at row) [0..<length fvs]"
  "(f, w, a) \<in> set (row_sets at fvs row) \<Longrightarrow> (f, w) \<in> set fvs"
proof -
  show "length (row_sets at fvs row) = length fvs" by (simp add: row_sets_def)
  have "map (snd \<circ> snd) (map (\<lambda>(i, f, w). (f, w, at row i)) (enumerate m fvs)) = map (at row) [m..<m + length fvs]" for m
    by (induction fvs arbitrary: m) (auto simp: upt_rec)
  then show "map (snd \<circ> snd) (row_sets at fvs row) = map (at row) [0..<length fvs]" by (simp only: row_sets_def add_0)
  show "(f, w) \<in> set fvs" if "(f, w, a) \<in> set (row_sets at fvs row)"
    using that by (auto simp: row_sets_def in_set_enumerate_eq) (metis nth_mem)
qed

lemma update_rows_ok:
  assumes ty: "type_ok ty" and fvs: "\<forall>(f, w)\<in>set fvs. int f \<noteq> keyNo ty \<and> \<not> (f \<in> I \<and> uniqueField ty f)"
  shows "\<lbrakk>keyed_ok ty mx I As (length rs * length fvs + n) k xs; distinct rs; set rs \<subseteq> set (map snd xs);
      inj_on (\<lambda>(r, i). at r i) (set rs \<times> {..<length fvs}); \<forall>r\<in>set rs. \<forall>i<length fvs. at r i \<notin> As\<rbrakk>
    \<Longrightarrow> \<exists>k' As'. update_rows ty sanity (map (\<lambda>r. (r, row_sets at fvs r)) rs) k = Some (None, k') \<and> keyed_ok ty mx I As' n k' xs
      \<and> kvals k' = (\<lambda>r. if r \<in> set rs then assign fvs (kvals k r) else kvals k r)"
proof (induction rs arbitrary: k As)
  case Nil
  then show ?case by auto
next
  case (Cons row rs)
  let ?sets = "row_sets at fvs row"
  obtain key where row: "(key, row) \<in> set xs" using Cons.prems(3) by auto
  have k: "keyed_ok ty mx I As (length ?sets + (length rs * length fvs + n)) k xs" using Cons.prems(1) by (simp add: add.assoc)
  have inj: "at r i = at r' i' \<longleftrightarrow> r = r' \<and> i = i'" if "r \<in> set (row # rs)" "r' \<in> set (row # rs)" "i < length fvs" "i' < length fvs" for r r' i i'
    using inj_onD [OF Cons.prems(4), of "(r, i)" "(r', i')"] that by auto
  have nodes: "distinct (map (snd \<circ> snd) ?sets)" "set (map (snd \<circ> snd) ?sets) \<inter> As = {}"
    using inj [of row row] Cons.prems(5) by (auto simp: distinct_map inj_on_def)
  have adm: "admissible ty I key ?sets (contents k xs)"
    unfolding admissible_def clash_free_def contents_keys using fvs row by (force dest!: row_sets_simps(3))
  obtain k1 where R: "set_field_values ty sanity row False ?sets k = Some (None, k1)"
      "keyed_ok ty mx I (As \<union> set (map (snd \<circ> snd) ?sets)) (length rs * length fvs + n) k1 xs"
      "kvals k1 = (kvals k)(row := set_values ?sets (kvals k row))"
    using set_known_row [OF ty k row nodes adm, of sanity] by blast
  have "\<forall>r\<in>set rs. \<forall>i<length fvs. at r i \<notin> As \<union> set (map (snd \<circ> snd) ?sets)"
    using Cons.prems(2, 5) inj by auto
  moreover have "inj_on (\<lambda>(r, i). at r i) (set rs \<times> {..<length fvs})" by (rule inj_on_subset [OF Cons.prems(4)]) auto
  moreover have "distinct rs" "set rs \<subseteq> set (map snd xs)" using Cons.prems(2, 3) by auto
  ultimately obtain k' As' where R': "update_rows ty sanity (map (\<lambda>r. (r, row_sets at fvs r)) rs) k1 = Some (None, k')"
      "keyed_ok ty mx I As' n k' xs" "kvals k' = (\<lambda>r. if r \<in> set rs then assign fvs (kvals k1 r) else kvals k1 r)"
    using Cons.IH [OF R(2)] by blast
  have "kvals k' = (\<lambda>r. if r \<in> set (row # rs) then assign fvs (kvals k r) else kvals k r)"
    unfolding R'(3) R(3) set_values_assign using Cons.prems(2) by auto
  then show ?case using R(1) R'(1, 2) by auto
qed

section \<open>Searches after calls\<close>




section \<open>Witnesses\<close>

lemma sample_table_run:
  obtains k xs As where "keyed_ok (sample_type u) 5 {0} As 2 k xs" "\<forall>r. r + 80 \<notin> As" "contents k xs = [([98], \<lambda>f. Number True 0), ([97], number_seven)]"
proof -
  obtain k where k: "keyed_ok (sample_type u) 5 {0} {0, 8, 16} (draws (sample_type u) sample_calls + 2) k []" "row_addrs k [] \<subseteq> {}"
    using sample_run .
  have c: "calls_ok (sample_type u) {0} {0, 8, 16} {} (contents k []) sample_calls" using sample_calls_ok by (simp add: contents_def)
  have e: "contents k [] = []" by (simp add: contents_def)
  obtain k' xs' As' where R: "keyed_ok (sample_type u) 5 {0} As' 2 k' xs'" "contents k' xs' = [([98], \<lambda>f. Number True 0), ([97], number_seven)]"
      "As' = {0, 8, 16} \<union> (\<Union>c\<in>set sample_calls. set (call_addrs (sample_type u) c))"
    using run_calls_ok [OF sample_type_ok sample_fields k(1) c k(2) sample_room, of True] unfolding e sample_contents sample_indexes by blast
  have "\<forall>r. r + 80 \<notin> As'" unfolding R(3) by (simp add: sample_calls_def)
  from that [OF R(1) this R(2)] show thesis .
qed

text \<open>The rows whose field is not null.\<close>

definition sample_asking :: "(addr \<Rightarrow> nat \<Rightarrow> field_value) \<Rightarrow> search_env" where
  "sample_asking vals = sample_search_env\<lparr>field_compare := (\<lambda>c r. \<not> is_null (vals r (fieldID c)))\<rparr>"

definition asking_search :: search where
  "asking_search = sample_search\<lparr>components := [sample_component\<lparr>comparisonType := COMP_NOTNULL\<rparr>], sortFields := [(0, - 1)]\<rparr>"

lemmas asking_defs = asking_search_def sample_asking_def table_env_def sample_search_def sample_component_def sample_search_env_def
  search_ok_def update_ok_def update_fields_def runs_on_def component_ok_def stale_list_def
  row_matches_def pre_match_def satisfies_def component_holds_def




end
