(* ===== verification/Spec2Isabelle.thy ===== *)
theory Spec2Isabelle
  imports BoyerMoore QuoteIO Ethers QSort HashTable SkipList ShareCmd TableIndex TableCursor ReaderRestart KeyedErrors KeyedSearch
begin

text \<open>
  Speedtables: the C run time of the speed table extension, \<^verbatim>\<open>src/ctables/\<close>.

  \<^bold>\<open>The program.\<close>  A speed table is a table of rows in memory that a Tcl program reads and changes through
  methods.  \<^verbatim>\<open>gentable.tcl\<close> compiles the definition of a table to C; what the generated code calls is the
  run time of this directory.  A row carries one hash entry and one list node per list.  It is found by
  its key through a hash table (\<^verbatim>\<open>hash/\<close>), it is in the list of all rows (list 0, \<^verbatim>\<open>ctable_lists.c\<close>), and in
  one list for each indexed field.  An index is a skip list (\<^verbatim>\<open>skiplists/\<close>) whose nodes head the lists of
  rows that are equal in the field.  The method \<^verbatim>\<open>search\<close> (\<^verbatim>\<open>ctable_search.c\<close>) parses its options, picks the
  index or the hash table that restricts the rows most, walks it, compares each row with the other
  conditions (patterns with Boyer and Moore's algorithm, \<^verbatim>\<open>boyer_moore.c\<close>), sorts what it found
  (\<^verbatim>\<open>ctable_qsort.c\<close>) and acts on the rows: it writes them (\<^verbatim>\<open>ctable_io.c\<close>), runs Tcl code, deletes or
  updates them, or leaves them behind as a cursor.  A table may live in shared memory (\<^verbatim>\<open>shared/\<close>): then
  one process, the master, changes it, and readers walk its indexes without a lock; memory that the master
  took out of the table is only reused when no reader can be looking at it any more.

  \<^bold>\<open>Theories and code.\<close>
  \<^item> \<open>Prelude\<close>: C characters, strings and addresses, the functions of the C library that are used, chains
    of cells, and the interface \<open>comparator\<close> of comparison functions.
  \<^item> \<open>BoyerMoore\<close> (\<^verbatim>\<open>boyer_moore.c\<close>): the skip tables of \<^verbatim>\<open>boyer_moore_setup\<close> and the search with them.
  \<^item> \<open>QuoteIO\<close> (\<^verbatim>\<open>ctable_io.c\<close>): quoting and dequoting in the three styles, with the buffer as a list of bytes.
  \<^item> \<open>Ethers\<close> (\<^verbatim>\<open>ethers.c\<close>): \<^verbatim>\<open>ether_aton\<close> and \<^verbatim>\<open>ether_ntoa\<close>.
  \<^item> \<open>QSort\<close> (\<^verbatim>\<open>ctable_qsort.c\<close>): the sort on a list of elements that is changed by exchanges.
  \<^item> \<open>HashTable\<close> (\<^verbatim>\<open>hash/speedtableHash.c\<close>): entries in a heap, chained by \<^verbatim>\<open>nextPtr\<close>, buckets in an array.
  \<^item> \<open>LinkedLists\<close> (\<^verbatim>\<open>ctable_lists.c\<close>, macros of \<^verbatim>\<open>ctable.h\<close>): each operation is the sequence of its writes to memory.
  \<^item> \<open>Rand\<close> (\<^verbatim>\<open>skiplists/jsw_rand.c\<close>, \<^verbatim>\<open>rlevel\<close> of \<^verbatim>\<open>jsw_slib.c\<close>): random numbers, and node heights drawn from them.
  \<^item> \<open>SkipList\<close> (\<^verbatim>\<open>skiplists/jsw_slib.c\<close>): nodes in a heap, each with its array of links.
  \<^item> \<open>SharedMem\<close> (\<^verbatim>\<open>shared/shared.c\<close>): cycles, slots of readers, garbage and its collection, as one step
    relation of master and readers.
  \<^item> \<open>ShareCmd\<close> (\<^verbatim>\<open>shared/shared.c\<close>): files, symbols, names of objects, and the Tcl command \<^verbatim>\<open>share\<close>.
  \<^item> \<open>TableIndex\<close> (\<^verbatim>\<open>ctable_search.c\<close>): insertion into, removal from, creation, dropping and listing of the indexes.
  \<^item> \<open>TableCursor\<close> (\<^verbatim>\<open>ctable_search.c\<close>): cursors and their Tcl commands.
  \<^item> \<open>TableSearch\<close> (\<^verbatim>\<open>ctable_search.c\<close>): \<^verbatim>\<open>ctable_PerformSearch\<close> and what it calls; \<open>SearchWalk\<close>, \<open>SearchCorrect\<close> and
    \<open>SearchEnds\<close> are about it.
  \<^item> \<open>SearchSetup\<close> (\<^verbatim>\<open>ctable_search.c\<close>): the parsers and options of \<^verbatim>\<open>search\<close>, set-up, tear-down and the method;
    \<open>SetupCorrect\<close> is about it.
  \<^item> \<open>RowAction\<close> (\<^verbatim>\<open>ctable_search.c\<close>, \<^verbatim>\<open>ctable_batch.c\<close>): what a search does with a row, and batches.
  \<^item> \<open>ReaderRestart\<close> (\<^verbatim>\<open>jsw_slib.c\<close>, \<^verbatim>\<open>ctable_search.c\<close>): private copies of an index, and when a reader starts again.
  \<^item> \<open>RowCompare\<close> (templates of \<^verbatim>\<open>gentable.tcl\<close>): the generated comparisons of fields, for indexes and for sorting.
  \<^item> \<open>KeyedTable\<close> (templates of \<^verbatim>\<open>gentable.tcl\<close>, \<^verbatim>\<open>command-body.c-subst\<close>): a table as a whole, hash table, list of rows
    and indexes, with the methods \<^verbatim>\<open>set\<close>, \<^verbatim>\<open>delete\<close>, \<^verbatim>\<open>reset\<close> and \<^verbatim>\<open>exists\<close>; \<open>KeyedCorrect\<close>, \<open>KeyedRuns\<close> (with the
    creation of a table), \<open>KeyedSearch\<close> and \<open>KeyedErrors\<close> are about it.

  \<^bold>\<open>Lemmas.\<close>  The lemmas of a theory go from the representation to what the callers see.  Lists and chains: a
  run of links is a list of addresses, and each operation is an operation on that list, for readers at
  every moment between two writes, too.  Hash table: it represents a finite map through every rehashing.
  Skip list: its bottom level is a sorted list, of which search, insertion and removal are the usual
  operations.  Index: \<open>table_ok\<close> relates list 0 and the indexes of a table to the list of its rows and, for
  each index, its nodes with their rows, and every operation on indexes keeps it.  Search: under
  \<open>searchable\<close>, a walk of any of the kinds visits exactly the rows that meet the condition it stands for, so that the
  rows found do not depend on the index.  Set-up: what the parser accepts is a search of which that holds.
  Whole table: \<open>keyed_ok\<close> relates the state to a list of keys and rows; the methods act on it as on a list of
  keys and values, runs of calls do, and it is \<open>searchable\<close>, which joins the two halves.  Shared memory: the
  invariant of the steps of master and readers says which blocks a reader may still see.

  \<^bold>\<open>Bounds and fuel.\<close>  Loops whose end depends on the state are \<^verbatim>\<open>partial_function (option)\<close>; that they end is
  proved where a theorem says that the result is \<open>Some\<close>.  Fuel appears in \<open>skip_loop\<close> only as the guard of the
  code itself, which stops a walk after as many rows as the table has and one more.  \<open>HASH_LIMIT\<close>, 805306368
  entries, is where the shift count of the hash table would become negative.  The height of a node is
  drawn from a random generator whose loop may run forever in principle; \<open>heights_ok\<close> says that it
  yields a height in each of the draws that are needed, one for each insertion into an index.  \<open>offset\<close> and
  \<open>limit\<close> add up to less than \<open>2 ^ 31\<close>, as else the sum wraps around.  The theorems on garbage ask that no active
  reader is \<open>WINDOW\<close>, \<open>2 ^ 30\<close>, cycles or more behind, as the code compares cycles by the sign of a difference.

  \<^bold>\<open>Parameters.\<close>  Tcl (what it reads as a number or a list, what a script answers) and the code that is generated
  for the fields of one table are arguments of the definitions (\<open>search_env\<close>, \<open>setup_env\<close>) outside of the theories
  on keyed tables, which have the generated code; so are the shared memory allocator of Boost and
  system calls (\<open>open\<close>, \<open>mmap\<close>, \<open>kill\<close>).

  \<^bold>\<open>Not modelled.\<close>  Of \<^verbatim>\<open>gentable.tcl\<close> and the files \<^verbatim>\<open>*.c-subst\<close> only the parts above: the other types of fields
  (fixed strings, addresses, Tcl objects), reading and writing of tab separated files, imports from
  databases, methods that only parse arguments or print, \<open>set\<close> of the key field, and tables that are generated
  for shared memory.  Of the run time: the repetition of a reader's search after a restart; statistics,
  dumps, \<^verbatim>\<open>ctable_verify\<close> and tracing, which print; the callback that reports how long a search took; and
  functions that only free memory.  \<^verbatim>\<open>shared/dumper.c\<close>, \<^verbatim>\<open>stubs.c\<close> and
  \<^verbatim>\<open>testmaster.c\<close> are aids for debugging.  \<^verbatim>\<open>ctable_server\<close> and \<^verbatim>\<open>stapi\<close> are written in Tcl; tests, demos and build
  files have no logic of the program.

  \<^bold>\<open>Results.\<close>  \<open>None\<close> of an option is a loop that does not end or a read outside of an object; errors and panics of
  the code are values (\<open>Inl\<close>, or a datatype of the component).  Machine integers are words, or integers
  cut by \<open>c_int\<close> where the code computes in \<^verbatim>\<open>int\<close>.

  \<^bold>\<open>Interfaces.\<close>  The locale \<open>comparator\<close> states what sort and skip lists ask of a comparison, \<open>row_comparator\<close>
  extends it by the lemmas of indexes; the locale \<open>key_store\<close> states what users of a keyed table ask of it, and is
  interpreted on the hash table.  The comparisons of \<open>RowCompare\<close> are comparators, by an interpretation.
\<close>

end
